(* ===== verification/Prelude.thy ===== *)
theory Prelude
  imports Main "HOL-Library.Word" "HOL-Library.Sublist"
begin

text \<open>
  Shared vocabulary of the development: the machine types of the C sources, the reading of
  a \<open>char\<close> as an unsigned or signed byte, decimal and hexadecimal digits and the
  reference printer and reader of decimal numbers, the C library functions the sources use
  (\<open>tolower\<close>, \<open>strncmp\<close>, \<open>strncasecmp\<close>, \<open>memchr\<close>), and
  the lemma collections the components draw on.  Strings of the source (\<open>struct _str\<close>
  of \<open>str.h\<close>, a pointer and a length) are HOL strings: the bytes from \<open>s\<close> to
  \<open>s + len\<close>.  A null pointer, where the code tests for one, is \<open>None\<close>.
\<close>

unbundle bit_operations_syntax

named_theorems char_simps \<open>reading and writing single bytes\<close>
named_theorems digit_simps \<open>decimal and hexadecimal digits\<close>
named_theorems wf_intros \<open>well-formedness of component states is preserved\<close>

section \<open>Machine types\<close>

type_synonym u8 = "8 word"
type_synonym u16 = "16 word"
type_synonym u32 = "32 word"
type_synonym u64 = "64 word"

text \<open>\<open>s32\<close> and \<open>s64\<close> are two's complement words, read with \<open>sint\<close>.\<close>

type_synonym s32 = "32 word"
type_synonym s64 = "64 word"

section \<open>Bytes\<close>

definition uchar :: "char \<Rightarrow> nat" where
  "uchar c = of_char c"

definition chr :: "nat \<Rightarrow> char" where
  "chr n = char_of n"

text \<open>The value of a plain \<open>char\<close>, which is signed on the targets of the program.\<close>

definition schar :: "char \<Rightarrow> int" where
  "schar c = (if uchar c < 128 then int (uchar c) else int (uchar c) - 256)"

lemma uchar_less [simp]: "uchar c < 256"
  by (simp add: uchar_def)

lemma uchar_chr [simp]: "uchar (chr n) = n mod 256"
  by (simp add: uchar_def chr_def)

lemma chr_uchar [simp]: "chr (uchar c) = c"
  by (simp add: uchar_def chr_def)

lemma uchar_inject [simp]: "uchar c = uchar d \<longleftrightarrow> c = d"
  by (simp add: uchar_def)

lemma uchar_eqI: "uchar c = uchar d \<Longrightarrow> c = d"
  by simp

lemma chr_eq_iff: "n < 256 \<Longrightarrow> chr n = c \<longleftrightarrow> uchar c = n"
  by (metis chr_uchar mod_less uchar_chr)

lemma eq_char_uchar: "c = d \<longleftrightarrow> uchar c = uchar d"
  by simp

lemma uchar_Char [char_simps]:
  "uchar (Char b0 b1 b2 b3 b4 b5 b6 b7) =
     of_bool b0 + 2 * of_bool b1 + 4 * of_bool b2 + 8 * of_bool b3 +
     16 * of_bool b4 + 32 * of_bool b5 + 64 * of_bool b6 + 128 * of_bool b7"
  by (simp add: uchar_def)

lemma schar_eq_iff [simp]: "schar c = schar d \<longleftrightarrow> c = d"
proof
  assume h: "schar c = schar d"
  have "uchar c < 256" and "uchar d < 256" by simp_all
  with h have "uchar c = uchar d"
    unfolding schar_def by (auto simp del: uchar_less uchar_inject split: if_splits)
  then show "c = d" by simp
qed simp

lemma schar_bounds: "- 128 \<le> schar c" "schar c < 128"
  using uchar_less [of c] unfolding schar_def by (auto simp del: uchar_less)

section \<open>Decimal digits and numbers\<close>

definition is_digit :: "char \<Rightarrow> bool" where
  "is_digit c \<longleftrightarrow> 48 \<le> uchar c \<and> uchar c \<le> 57"

definition digit_val :: "char \<Rightarrow> nat" where
  "digit_val c = uchar c - 48"

text \<open>Reference reader and printer of decimal numbers, without any machine bound.\<close>

fun dec_acc :: "nat \<Rightarrow> string \<Rightarrow> nat" where
  "dec_acc r [] = r"
| "dec_acc r (c # cs) = dec_acc (r * 10 + digit_val c) cs"

definition dec_value :: "string \<Rightarrow> nat" where
  "dec_value s = dec_acc 0 s"

fun dec_digits :: "nat \<Rightarrow> string" where
  "dec_digits n =
     (if n < 10 then [chr (48 + n)] else dec_digits (n div 10) @ [chr (48 + n mod 10)])"

declare dec_digits.simps [simp del]

lemma dec_digits_small: "n < 10 \<Longrightarrow> dec_digits n = [chr (48 + n)]"
  by (simp add: dec_digits.simps)

lemma dec_digits_step:
  "\<not> n < 10 \<Longrightarrow> dec_digits n = dec_digits (n div 10) @ [chr (48 + n mod 10)]"
  by (subst dec_digits.simps) simp

lemma is_digit_chr [digit_simps]: "n < 10 \<Longrightarrow> is_digit (chr (48 + n))"
  by (simp add: is_digit_def)

lemma digit_val_chr [digit_simps]: "n < 10 \<Longrightarrow> digit_val (chr (48 + n)) = n"
  by (simp add: digit_val_def)

lemma digit_val_less: "is_digit c \<Longrightarrow> digit_val c < 10"
  by (auto simp: is_digit_def digit_val_def)

lemma dec_acc_append [simp]: "dec_acc r (s @ t) = dec_acc (dec_acc r s) t"
  by (induction s arbitrary: r) auto

lemma dec_digits_nonempty [simp]: "dec_digits n \<noteq> []"
  by (subst dec_digits.simps) simp

lemma dec_digits_digits: "list_all is_digit (dec_digits n)"
proof (induction n rule: dec_digits.induct)
  case (1 n)
  then show ?case
    by (subst dec_digits.simps) (auto simp: digit_simps)
qed

lemma dec_value_digits [simp]: "dec_value (dec_digits n) = n"
proof (induction n rule: dec_digits.induct)
  case (1 n)
  then show ?case
    by (subst dec_digits.simps) (auto simp: dec_value_def digit_simps)
qed

lemma dec_digits_length: "n < 10 ^ k \<Longrightarrow> 0 < k \<Longrightarrow> length (dec_digits n) \<le> k"
proof (induction n arbitrary: k rule: dec_digits.induct)
  case (1 n)
  show ?case
  proof (cases "n < 10")
    case True
    with "1.prems" show ?thesis by (subst dec_digits.simps) simp
  next
    case False
    with "1.prems" obtain j where k: "k = Suc j" by (cases k) auto
    moreover from k False "1.prems" have "0 < j" by (cases j) auto
    moreover have "n div 10 < 10 ^ j"
      using "1.prems" k by (simp add: less_mult_imp_div_less mult.commute)
    ultimately have "length (dec_digits (n div 10)) \<le> j"
      using "1.IH" [OF False] by blast
    with False k show ?thesis by (subst dec_digits.simps) simp
  qed
qed

lemma dec_acc_bound:
  "list_all is_digit s \<Longrightarrow> dec_acc r s < (r + 1) * 10 ^ length s"
proof (induction s arbitrary: r)
  case (Cons c s)
  then have "dec_acc (r * 10 + digit_val c) s < (r * 10 + digit_val c + 1) * 10 ^ length s"
    by simp
  also have "\<dots> \<le> ((r + 1) * 10) * 10 ^ length s"
    using Cons.prems digit_val_less [of c] by (intro mult_le_mono1) simp
  finally show ?case by (simp add: algebra_simps)
qed simp

lemma dec_value_bound: "list_all is_digit s \<Longrightarrow> dec_value s < 10 ^ length s"
  using dec_acc_bound [of s 0] by (simp add: dec_value_def)

section \<open>Hexadecimal digits\<close>

definition hex_val :: "char \<Rightarrow> nat option" where
  "hex_val c =
     (if is_digit c then Some (uchar c - 48)
      else if 97 \<le> uchar c \<and> uchar c \<le> 102 then Some (uchar c - 97 + 10)
      else if 65 \<le> uchar c \<and> uchar c \<le> 70 then Some (uchar c - 65 + 10)
      else None)"

definition hex_char :: "nat \<Rightarrow> char" where
  "hex_char d = (if d < 10 then chr (d + 48) else chr (d - 10 + 97))"

lemma hex_val_hex_char [digit_simps]: "d < 16 \<Longrightarrow> hex_val (hex_char d) = Some d"
  by (auto simp: hex_val_def hex_char_def is_digit_def)

lemma hex_val_less: "hex_val c = Some v \<Longrightarrow> v < 16"
  by (auto simp: hex_val_def is_digit_def split: if_splits)

section \<open>The C library functions in use\<close>

text \<open>\<open>tolower\<close> and \<open>isspace\<close> of the C locale.\<close>

definition tolower :: "char \<Rightarrow> char" where
  "tolower c = (if 65 \<le> uchar c \<and> uchar c \<le> 90 then chr (uchar c + 32) else c)"

definition isspace :: "char \<Rightarrow> bool" where
  "isspace c \<longleftrightarrow> uchar c = 32 \<or> (9 \<le> uchar c \<and> uchar c \<le> 13)"

lemma tolower_idem [simp]: "tolower (tolower c) = tolower c"
  by (simp add: tolower_def)

text \<open>
  \<open>strncmp (a, b, n) == 0\<close> and \<open>strncasecmp (a, b, n) == 0\<close>, for arguments that
  have \<open>n\<close> bytes (every caller compares the lengths first).  Both stop at a NUL byte.
\<close>

fun strncmp_eq :: "nat \<Rightarrow> string \<Rightarrow> string \<Rightarrow> bool" where
  "strncmp_eq 0 a b = True"
| "strncmp_eq (Suc n) (x # a) (y # b) =
     (if x \<noteq> y then False else if uchar x = 0 then True else strncmp_eq n a b)"
| "strncmp_eq (Suc n) a b = (a = b)"

fun strncasecmp_eq :: "nat \<Rightarrow> string \<Rightarrow> string \<Rightarrow> bool" where
  "strncasecmp_eq 0 a b = True"
| "strncasecmp_eq (Suc n) (x # a) (y # b) =
     (if tolower x \<noteq> tolower y then False
      else if uchar x = 0 then True else strncasecmp_eq n a b)"
| "strncasecmp_eq (Suc n) a b = (a = b)"

definition no_nul :: "string \<Rightarrow> bool" where
  "no_nul s \<longleftrightarrow> list_all (\<lambda>c. uchar c \<noteq> 0) s"

lemma no_nul_simps [simp]:
  "no_nul []" "no_nul (c # s) \<longleftrightarrow> uchar c \<noteq> 0 \<and> no_nul s"
  by (simp_all add: no_nul_def)

lemma strncmp_eq_refl [simp]: "strncmp_eq n a a"
  by (induction n arbitrary: a; case_tac a) auto

lemma strncmp_eq_iff:
  "length a = length b \<Longrightarrow> no_nul a \<Longrightarrow> strncmp_eq (length a) a b \<longleftrightarrow> a = b"
  by (induction a b rule: list_induct2) auto

lemma strncasecmp_eq_refl [simp]: "strncasecmp_eq n a a"
  by (induction n arbitrary: a; case_tac a) auto

lemma strncasecmp_eq_iff:
  "length a = length b \<Longrightarrow> no_nul a \<Longrightarrow>
     strncasecmp_eq (length a) a b \<longleftrightarrow> map tolower a = map tolower b"
  by (induction a b rule: list_induct2) auto

text \<open>\<open>memchr\<close>: the offset of the first occurrence of a byte.\<close>

fun memchr :: "char \<Rightarrow> string \<Rightarrow> nat option" where
  "memchr c [] = None"
| "memchr c (x # xs) = (if x = c then Some 0 else map_option Suc (memchr c xs))"

lemma memchr_None_iff: "memchr c s = None \<longleftrightarrow> c \<notin> set s"
  by (induction s) auto

lemma memchr_SomeD: "memchr c s = Some i \<Longrightarrow> i < length s \<and> s ! i = c \<and> c \<notin> set (take i s)"
  by (induction s arbitrary: i) (auto split: if_splits)

section \<open>Machine words\<close>

lemma unat_of_nat_u32 [simp]: "n < 2 ^ 32 \<Longrightarrow> unat (of_nat n :: u32) = n"
  by (simp add: unat_of_nat take_bit_eq_mod)

lemma unat_of_nat_u16 [simp]: "n < 2 ^ 16 \<Longrightarrow> unat (of_nat n :: u16) = n"
  by (simp add: unat_of_nat take_bit_eq_mod)

end
