(* ===== verification/Ut.thy ===== *)
theory Ut
  imports Prelude "HOL-Library.List_Lexorder"
begin

text \<open>
  The string and number helpers of \<open>ut.h\<close>, which every other component uses: reading
  decimal and hexadecimal numbers, printing integers into the static buffer, trimming,
  un-escaping the user part of a URI and comparing strings.  An \<open>unsigned int\<close> is a
  \<open>u32\<close>, an \<open>int\<close> that the code shifts or multiplies is an \<open>s32\<close>.
  A function with an output parameter returns its value with the result code.
\<close>

section \<open>Definitions\<close>

subsection \<open>Trimming\<close>

definition trim_tail_char :: "char \<Rightarrow> bool" where
  "trim_tail_char c \<longleftrightarrow>
     uchar c = 0 \<or> uchar c = 13 \<or> uchar c = 10 \<or> uchar c = 32 \<or> uchar c = 9"

definition trim_len :: "string \<Rightarrow> string" where
  "trim_len s =
     dropWhile (\<lambda>c. uchar c = 32 \<or> uchar c = 9) (rev (dropWhile trim_tail_char (rev s)))"

definition trim_r :: "string \<Rightarrow> string" where
  "trim_r s = rev (dropWhile (\<lambda>c. uchar c = 0 \<or> uchar c = 13 \<or> uchar c = 10) (rev s))"

subsection \<open>Numbers\<close>

definition fourbits2char :: "char list" where
  "fourbits2char = ''0123456789abcdef''"

text \<open>\<open>str2s\<close> returns the value and the contents of \<open>*err\<close>.\<close>

fun str2s_loop :: "u16 \<Rightarrow> nat \<Rightarrow> string \<Rightarrow> u16 \<times> int" where
  "str2s_loop ret i [] = (ret, 0)"
| "str2s_loop ret i (c # cs) =
     (if uchar c \<le> 57 \<and> uchar c \<ge> 48
      then (let ret' = ret * 10 + of_nat (uchar c) - 48; i' = i + 1
            in if i' > 5 then (0, 1) else str2s_loop ret' i' cs)
      else (0, 1))"

definition str2s :: "string \<Rightarrow> u16 \<times> int" where
  "str2s s = str2s_loop 0 0 s"

definition btostr :: "u8 \<Rightarrow> string" where
  "btostr val =
     (let a = unat val div 100; b = unat val mod 100 div 10
      in (if a \<noteq> 0 then [chr (a + 48)] else []) @
         (if b \<noteq> 0 \<or> a \<noteq> 0 then [chr (b + 48)] else []) @
         [chr (48 + unat val mod 10)])"

definition INT2STR_MAX_LEN :: int where
  "INT2STR_MAX_LEN = 1 + 19 + 1 + 1"

text \<open>
  The printing loop: the remaining value, the index of the next byte to write and the
  buffer.  \<open>int2bstr\<close> returns the buffer, the offset of the result in it, the length
  and whether the overflow report of line 172 was reached.
\<close>

function int2bstr_loop :: "u64 \<Rightarrow> int \<Rightarrow> char list \<Rightarrow> u64 \<times> int \<times> char list" where
  "int2bstr_loop l i s =
     (let s' = s[nat i := chr (unat (l mod 10) + 48)]; i' = i - 1; l' = l div 10
      in if l' \<noteq> 0 \<and> i' \<ge> 0 then int2bstr_loop l' i' s' else (l', i', s'))"
  by pat_completeness auto
termination
  by (relation "measure (\<lambda>(l, i, s). nat (i + 1))") auto

declare int2bstr_loop.simps [simp del]

definition int2bstr :: "u64 \<Rightarrow> char list \<Rightarrow> char list \<times> int \<times> int \<times> bool" where
  "int2bstr l s =
     (let s0 = s[nat (INT2STR_MAX_LEN - 1) := chr 0];
          (l', i, s') = int2bstr_loop l (INT2STR_MAX_LEN - 2) s0
      in (s', i + 1, (INT2STR_MAX_LEN - 2) - i, l' \<noteq> 0 \<and> i < 0))"

definition int2str :: "u64 \<Rightarrow> char list \<Rightarrow> char list \<times> int \<times> int \<times> bool" where
  "int2str l int2str_buf = int2bstr l int2str_buf"

definition sint2str :: "s64 \<Rightarrow> char list \<Rightarrow> char list \<times> int \<times> int \<times> bool" where
  "sint2str l int2str_buf =
     (let sign = sint l < 0; l' = (if sint l < 0 then - l else l);
          (s, p, len, ovf) = int2str l' int2str_buf
      in if sign then (s[nat (p - 1) := CHR ''-''], p - 1, len + 1, ovf)
         else (s, p, len, ovf))"

text \<open>\<open>q_memchr\<close> compares a plain (signed) \<open>char\<close> with an \<open>unsigned char\<close>.\<close>

fun q_memchr :: "string \<Rightarrow> char \<Rightarrow> nat option" where
  "q_memchr [] c = None"
| "q_memchr (x # p) c =
     (if schar x = int (uchar c) then Some 0 else map_option Suc (q_memchr p c))"

text \<open>
  The accumulation both hexadecimal readers run, over the bytes in the order they visit
  them: \<open>None\<close> is the early \<open>return -1\<close>.
\<close>

fun hex_acc :: "s32 \<Rightarrow> string \<Rightarrow> s32 option" where
  "hex_acc r [] = Some r"
| "hex_acc r (mychar # pc) =
     (let r' = push_bit 4 r in
      if 48 \<le> schar mychar \<and> schar mychar \<le> 57 then hex_acc (r' + of_int (schar mychar - 48)) pc
      else if 97 \<le> schar mychar \<and> schar mychar \<le> 102
      then hex_acc (r' + of_int (schar mychar - 97 + 10)) pc
      else if 65 \<le> schar mychar \<and> schar mychar \<le> 70
      then hex_acc (r' + of_int (schar mychar - 65 + 10)) pc
      else None)"

definition reverse_hex2int :: "string \<Rightarrow> s32" where
  "reverse_hex2int c = (case hex_acc 0 (rev c) of None \<Rightarrow> - 1 | Some r \<Rightarrow> r)"

definition hexstr2int :: "string \<Rightarrow> u32 \<Rightarrow> int \<times> u32" where
  "hexstr2int c val = (case hex_acc 0 c of None \<Rightarrow> (- 1, val) | Some r \<Rightarrow> (0, r))"

text \<open>
  \<open>int2reverse_hex\<close>: the bytes written at \<open>*c\<close>, the remaining \<open>*size\<close> and
  the result.  The shift of the signed \<open>nr\<close> is arithmetic.
\<close>

fun int2reverse_hex_loop :: "nat \<Rightarrow> s32 \<Rightarrow> string \<times> nat \<times> s32" where
  "int2reverse_hex_loop 0 nr = ([], 0, nr)"
| "int2reverse_hex_loop (Suc sz) nr =
     (if nr = 0 then ([], Suc sz, nr)
      else (let digit = unat (nr AND 0xf);
                ch = (if digit \<ge> 10 then chr (digit + 97 - 10) else chr (digit + 48));
                (out, sz', nr') = int2reverse_hex_loop sz (signed_drop_bit 4 nr)
            in (ch # out, sz', nr')))"

definition int2reverse_hex :: "nat \<Rightarrow> s32 \<Rightarrow> string \<times> nat \<times> int" where
  "int2reverse_hex sz nr =
     (if sz \<noteq> 0 \<and> nr = 0 then (''0'', sz - 1, 1)
      else (let (out, sz', nr') = int2reverse_hex_loop sz nr
            in (out, sz', if nr' \<noteq> 0 then - 1 else 1)))"

text \<open>\<open>string2hex\<close> returns the written bytes and its result (line 304).\<close>

fun string2hex_loop :: "string \<Rightarrow> string" where
  "string2hex_loop [] = []"
| "string2hex_loop (c # cs) =
     fourbits2char ! (uchar c div 16 mod 16) # fourbits2char ! (uchar c mod 16) #
     string2hex_loop cs"

definition string2hex :: "string \<Rightarrow> string \<times> int" where
  "string2hex s =
     (if s = [] then (''0'', 1) else (string2hex_loop s, int (length s) - 0))"

definition hex2int :: "char \<Rightarrow> int" where
  "hex2int hex_digit =
     (if 48 \<le> schar hex_digit \<and> schar hex_digit \<le> 57 then schar hex_digit - 48
      else if 97 \<le> schar hex_digit \<and> schar hex_digit \<le> 102 then schar hex_digit - 97 + 10
      else if 65 \<le> schar hex_digit \<and> schar hex_digit \<le> 70 then schar hex_digit - 65 + 10
      else - 1)"

subsection \<open>Un-escaping\<close>

text \<open>
  The loop of \<open>un_escape\<close>: whether it ended without an error, and the bytes written to
  \<open>new_user\<close> so far (the code sets \<open>new_user->len\<close> on the error path too).
\<close>

fun un_escape_loop :: "string \<Rightarrow> bool \<times> string" where
  "un_escape_loop [] = (True, [])"
| "un_escape_loop (c # cs) =
     (if c = CHR ''%''
      then (case cs of
              h # l # rest \<Rightarrow>
                (let hi = hex2int h; lo = hex2int l; value = hi * 16 + lo in
                 if hi < 0 then (False, [])
                 else if lo < 0 then (False, [])
                 else if value < 32 \<or> value > 126 then (False, [])
                 else (let (ok, out) = un_escape_loop rest in (ok, chr (nat value) # out)))
            | _ \<Rightarrow> (False, []))
      else (let (ok, out) = un_escape_loop cs in (ok, c # out)))"

definition un_escape :: "string \<Rightarrow> int \<times> string" where
  "un_escape user =
     (let (ok, new_user) = un_escape_loop user
      in (if ok then int (length new_user) else - 1, new_user))"

definition strlower :: "string \<Rightarrow> string" where
  "strlower s = map tolower s"

subsection \<open>Reading decimal numbers\<close>

text \<open>The result code and \<open>*_r\<close>, which holds the value read so far on an error too.\<close>

fun str2int_loop :: "u32 \<Rightarrow> string \<Rightarrow> int \<times> u32" where
  "str2int_loop r [] = (0, r)"
| "str2int_loop r (c # cs) =
     (if 48 \<le> schar c \<and> schar c \<le> 57
      then str2int_loop (r * 10 + of_int (schar c - 48)) cs
      else (- 1, r))"

definition str2int :: "string \<Rightarrow> int \<times> u32" where
  "str2int s = str2int_loop 0 s"

definition str2sint :: "string \<Rightarrow> int \<times> s32" where
  "str2sint s =
     (let neg = (s \<noteq> [] \<and> hd s = CHR ''-'');
          (ret, r) = str2int_loop 0 (if neg then tl s else s)
      in if ret \<noteq> 0 then (ret, r) else (0, r * (if neg then - 1 else 1)))"

definition strno2int :: "string \<Rightarrow> u32 \<Rightarrow> int \<times> u32" where
  "strno2int val msk =
     (if length val > 2 \<and> val ! 0 = CHR ''0'' \<and> val ! 1 = CHR ''x''
      then hexstr2int (drop 2 val) msk
      else str2int val)"

subsection \<open>Copies and comparisons\<close>

text \<open>The flag says whether the allocator returned a buffer.\<close>

definition shm_str_dup :: "bool \<Rightarrow> string \<Rightarrow> int \<times> string option" where
  "shm_str_dup alloc src = (if \<not> alloc then (- 1, None) else (0, Some src))"

definition pkg_str_dup :: "bool \<Rightarrow> string \<Rightarrow> int \<times> string option" where
  "pkg_str_dup alloc src = (if \<not> alloc then (- 1, None) else (0, Some src))"

text \<open>
  The comparison loop over the common prefix and the length test after it, for the byte
  transformation \<open>f\<close> each comparison applies first.
\<close>

fun str_cmp_loop :: "(char \<Rightarrow> char) \<Rightarrow> string \<Rightarrow> string \<Rightarrow> int" where
  "str_cmp_loop f [] [] = 0"
| "str_cmp_loop f [] (b # bs) = - 1"
| "str_cmp_loop f (a # as) [] = 1"
| "str_cmp_loop f (a # as) (b # bs) =
     (if schar (f a) < schar (f b) then - 1
      else if schar (f a) > schar (f b) then 1
      else str_cmp_loop f as bs)"

definition str_strcmp :: "string option \<Rightarrow> string option \<Rightarrow> int" where
  "str_strcmp stra strb =
     (case (stra, strb) of
        (Some a, Some b) \<Rightarrow> str_cmp_loop id a b
      | _ \<Rightarrow> - 2)"

definition str_strcasecmp :: "string option \<Rightarrow> string option \<Rightarrow> int" where
  "str_strcasecmp stra strb =
     (case (stra, strb) of
        (Some a, Some b) \<Rightarrow> str_cmp_loop tolower a b
      | _ \<Rightarrow> - 2)"


section \<open>Specifications\<close>

text \<open>The string a caller of the integer printers sees in the returned buffer.\<close>

definition bstr_text :: "char list \<times> int \<times> int \<times> bool \<Rightarrow> string" where
  "bstr_text r = (case r of (s, p, len, ovf) \<Rightarrow> take (nat len) (drop (nat p) s))"

text \<open>
  What un-escaping means, independently of any loop: \<open>escaped s t\<close> holds when \<open>s\<close>
  is \<open>t\<close> with some printable characters written as a percent sign and two hexadecimal
  digits.
\<close>

inductive escaped :: "string \<Rightarrow> string \<Rightarrow> bool" where
  esc_nil: "escaped [] []"
| esc_plain: "c \<noteq> CHR ''%'' \<Longrightarrow> escaped s t \<Longrightarrow> escaped (c # s) (c # t)"
| esc_hex: "hex_val h = Some a \<Longrightarrow> hex_val l = Some b \<Longrightarrow>
     32 \<le> a * 16 + b \<Longrightarrow> a * 16 + b \<le> 126 \<Longrightarrow> escaped s t \<Longrightarrow>
     escaped (CHR ''%'' # h # l # s) (chr (a * 16 + b) # t)"

inductive_cases escaped_NilE: "escaped [] t"
inductive_cases escaped_ConsE: "escaped (c # s) t"

text \<open>The contract of a routine that undoes such an escaping.\<close>

locale unescaper =
  fixes decode :: "string \<Rightarrow> string option"
  assumes decode_iff: "decode s = Some t \<longleftrightarrow> escaped s t"
begin

lemma decode_plain: "CHR ''%'' \<notin> set s \<Longrightarrow> decode s = Some s"
  unfolding decode_iff by (induction s) (auto intro: escaped.intros)

lemma decode_append:
  assumes "decode a = Some x" and "decode b = Some y"
  shows "decode (a @ b) = Some (x @ y)"
proof -
  from assms have "escaped a x" and "escaped b y" by (simp_all add: decode_iff)
  then show ?thesis
    unfolding decode_iff by (induction rule: escaped.induct) (auto intro: escaped.intros)
qed

lemma decode_length:
  assumes "decode s = Some t"
  shows "length t \<le> length s"
proof -
  from assms have "escaped s t" by (simp add: decode_iff)
  then show ?thesis by (induction rule: escaped.induct) auto
qed

end

text \<open>\<open>un_escape\<close> seen through its result code.\<close>

definition un_escape_decode :: "string \<Rightarrow> string option" where
  "un_escape_decode s = (let (r, t) = un_escape s in if r < 0 then None else Some t)"

section \<open>Lemmas\<close>

subsection \<open>Digits\<close>

lemma schar_range_iff:
  "0 \<le> a \<Longrightarrow> b < 128 \<Longrightarrow>
     (a \<le> schar c \<and> schar c \<le> b) \<longleftrightarrow> (a \<le> int (uchar c) \<and> int (uchar c) \<le> b)"
  using uchar_less [of c] by (auto simp: schar_def simp del: uchar_less)

lemma schar_ascii: "uchar c < 128 \<Longrightarrow> schar c = int (uchar c)"
  by (simp add: schar_def)

lemma schar_digit_iff [digit_simps]: "(48 \<le> schar c \<and> schar c \<le> 57) \<longleftrightarrow> is_digit c"
  by (subst schar_range_iff) (auto simp: is_digit_def)

lemma schar_digit_val: "is_digit c \<Longrightarrow> schar c - 48 = int (digit_val c)"
  by (auto simp: is_digit_def digit_val_def schar_ascii)

lemma hex2int_hex_val: "hex2int c = (case hex_val c of None \<Rightarrow> - 1 | Some v \<Rightarrow> int v)"
proof -
  have "(97 \<le> schar c \<and> schar c \<le> 102) \<longleftrightarrow> 97 \<le> uchar c \<and> uchar c \<le> 102"
    and "(65 \<le> schar c \<and> schar c \<le> 70) \<longleftrightarrow> 65 \<le> uchar c \<and> uchar c \<le> 70"
    by (subst schar_range_iff; auto)+
  then show ?thesis
    unfolding hex2int_def hex_val_def schar_digit_iff
    by (auto simp: schar_ascii is_digit_def)
qed

lemma hex_acc_Cons:
  "hex_acc r (c # cs) =
     (case hex_val c of None \<Rightarrow> None | Some v \<Rightarrow> hex_acc (push_bit 4 r + of_nat v) cs)"
proof -
  have 1: "(97 \<le> schar c \<and> schar c \<le> 102) \<longleftrightarrow> 97 \<le> uchar c \<and> uchar c \<le> 102"
    and 2: "(65 \<le> schar c \<and> schar c \<le> 70) \<longleftrightarrow> 65 \<le> uchar c \<and> uchar c \<le> 70"
    by (subst schar_range_iff; auto)+
  show ?thesis
    unfolding hex_acc.simps Let_def hex_val_def schar_digit_iff 1 2
    by (auto simp: schar_ascii is_digit_def)
qed

lemma hex_acc_append:
  "hex_acc r (a @ b) = (case hex_acc r a of None \<Rightarrow> None | Some r' \<Rightarrow> hex_acc r' b)"
  by (induction a arbitrary: r) (auto simp: hex_acc_Cons simp del: hex_acc.simps(2) split: option.split)

subsection \<open>Reading decimal numbers\<close>

lemma str2s_loop_eq:
  "i \<le> 5 \<Longrightarrow> str2s_loop (of_nat r) i s =
     (if list_all is_digit s \<and> i + length s \<le> 5 then (of_nat (dec_acc r s), 0) else (0, 1))"
proof (induction s arbitrary: r i)
  case (Cons c s)
  show ?case
  proof (cases "is_digit c")
    case True
    then have "(of_nat r * 10 + of_nat (uchar c) - 48 :: u16) = of_nat (r * 10 + digit_val c)"
      by (auto simp: is_digit_def digit_val_def of_nat_diff)
    with True have "str2s_loop (of_nat r) i (c # s) =
        (if i + 1 > 5 then (0, 1) else str2s_loop (of_nat (r * 10 + digit_val c)) (i + 1) s)"
      by (simp add: is_digit_def Let_def del: of_nat_add of_nat_mult)
    with True Cons show ?thesis by (simp del: of_nat_add of_nat_mult)
  qed (auto simp: is_digit_def)
qed simp

lemma str2int_loop_eq:
  "str2int_loop (of_nat r) s =
     (if list_all is_digit s then (0, of_nat (dec_acc r s))
      else (- 1, of_nat (dec_acc r (takeWhile is_digit s))))"
proof (induction s arbitrary: r)
  case (Cons c s)
  show ?case
  proof (cases "is_digit c")
    case True
    then have "(of_nat r * 10 + of_int (schar c - 48) :: u32) = of_nat (r * 10 + digit_val c)"
      by (simp only: schar_digit_val) simp
    with True have "str2int_loop (of_nat r) (c # s) = str2int_loop (of_nat (r * 10 + digit_val c)) s"
      by (simp add: digit_simps del: of_nat_add of_nat_mult of_int_diff)
    with True Cons.IH show ?thesis by (simp del: of_nat_add of_nat_mult)
  qed (auto simp: digit_simps)
qed simp

lemma str2int_eq:
  "str2int s =
     (if list_all is_digit s then (0, of_nat (dec_value s))
      else (- 1, of_nat (dec_value (takeWhile is_digit s))))"
  using str2int_loop_eq [of 0 s] by (simp add: str2int_def dec_value_def)

lemma str2int_dec_digits: "str2int (dec_digits n) = (0, of_nat n)"
  by (simp add: str2int_eq dec_digits_digits)

subsection \<open>Printing integers\<close>

lemma int2bstr_loop_eq:
  "k < length s \<Longrightarrow> unat l < 10 ^ Suc k \<Longrightarrow>
     int2bstr_loop l (int k) s =
       (0, int k - int (length (dec_digits (unat l))),
        take (Suc k - length (dec_digits (unat l))) s @ dec_digits (unat l) @ drop (Suc k) s)"
proof (induction k arbitrary: l s)
  case (0 l s)
  then have small: "unat l < 10" by simp
  then have "l div 10 = 0" and "unat (l mod 10) = unat l"
    by (simp_all add: word_arith_nat_div unat_mod)
  with 0 small show ?case
    by (subst int2bstr_loop.simps)
       (simp add: upd_conv_take_nth_drop dec_digits_small add.commute)
next
  case (Suc k l s)
  let ?s = "s[Suc k := chr (unat (l mod 10) + 48)]"
  have d: "unat (l div 10) = unat l div 10" and m: "unat (l mod 10) = unat l mod 10"
    by (simp_all add: unat_div unat_mod)
  show ?case
  proof (cases "unat l < 10")
    case True
    then have "l div 10 = 0" by (simp add: word_arith_nat_div)
    with Suc.prems True m show ?thesis
      by (subst int2bstr_loop.simps)
         (simp add: dec_digits_small upd_conv_take_nth_drop add.commute nat_add_distrib)
  next
    case False
    let ?ds = "dec_digits (unat l div 10)"
    have ne: "l div 10 \<noteq> 0"
      using False d by (metis div_eq_0_iff unat_0 zero_neq_numeral)
    have "unat (l div 10) < 10 ^ Suc k"
      using Suc.prems(2) d by (simp add: less_mult_imp_div_less mult.commute)
    then have IH: "int2bstr_loop (l div 10) (int k) ?s =
        (0, int k - int (length ?ds), take (Suc k - length ?ds) ?s @ ?ds @ drop (Suc k) ?s)"
      using Suc.IH [of ?s "l div 10"] Suc.prems d by simp
    have "int2bstr_loop l (int (Suc k)) s = int2bstr_loop (l div 10) (int k) ?s"
      using ne by (subst int2bstr_loop.simps) (simp add: nat_add_distrib Let_def)
    also note IH
    finally show ?thesis
      using Suc.prems False m
      by (simp add: dec_digits_step upd_conv_take_nth_drop add.commute)
  qed
qed

lemma u64_less_10_21: "unat (l :: u64) < 10 ^ 21"
  using unsigned_less [of l, where 'a = nat] by simp

lemma u64_digits: "length (dec_digits (unat (l :: u64))) \<le> 20"
  using unsigned_less [of l, where 'a = nat] by (intro dec_digits_length) simp_all

lemma int2bstr_eq:
  assumes "length s = 22"
  shows "int2bstr l s =
    (take (21 - length (dec_digits (unat l))) s @ dec_digits (unat l) @ [chr 0],
     21 - int (length (dec_digits (unat l))), int (length (dec_digits (unat l))), False)"
proof -
  let ?s = "s[21 := chr 0]"
  have "int2bstr_loop l (int 20) ?s =
       (0, int 20 - int (length (dec_digits (unat l))),
        take (Suc 20 - length (dec_digits (unat l))) ?s @ dec_digits (unat l) @ drop (Suc 20) ?s)"
    using assms u64_less_10_21 [of l] by (intro int2bstr_loop_eq) simp_all
  moreover have "drop 21 ?s = [chr 0]"
    using assms by (simp add: upd_conv_take_nth_drop)
  ultimately show ?thesis
    by (simp add: int2bstr_def INT2STR_MAX_LEN_def)
qed

lemma int2bstr_text: "length s = 22 \<Longrightarrow> bstr_text (int2bstr l s) = dec_digits (unat l)"
  using u64_digits [of l] by (simp add: int2bstr_eq bstr_text_def nat_diff_distrib)

lemma sint_nonneg_unat: "0 \<le> sint w \<Longrightarrow> int (unat w) = sint w"
  for w :: "'a::len word"
proof -
  assume nn: "0 \<le> sint w"
  have "uint w = uint (word_of_int (sint w) :: 'a word)" by simp
  also have "\<dots> = sint w mod 2 ^ LENGTH('a)" by (rule uint_word_of_int)
  also have "\<dots> = sint w"
    using nn less_le_trans [OF sint_less [of w] power_increasing, of "LENGTH('a)"]
    by (intro mod_pos_pos_trivial) simp_all
  finally show ?thesis by simp
qed

lemma sint2str_text:
  assumes "length s = 22"
  shows "bstr_text (sint2str l s) =
    (if sint l < 0 then CHR ''-'' # dec_digits (nat (- sint l)) else dec_digits (nat (sint l)))"
proof (cases "sint l < 0")
  case True
  have "unat (- l) = nat (- sint l)"
  proof -
    have "uint (- l) = (- sint l) mod 2 ^ 64"
      by (simp add: uint_word_ariths sint_uint signed_take_bit_eq_take_bit_minus
          take_bit_eq_mod mod_minus_eq)
    moreover have "- sint l < 2 ^ 64"
      using sint_ge [of l] by simp
    ultimately show ?thesis
      using True by (simp add: unat_eq_nat_uint)
  qed
  then have eq: "unat (- l) = nat (- sint l)" .
  define n where "n = length (dec_digits (nat (- sint l)))"
  define k where "k = 20 - n"
  have "0 < n" by (simp add: n_def)
  moreover have "n \<le> 20" using u64_digits [of "- l"] by (simp add: n_def eq)
  ultimately have k: "21 - n = Suc k" "int n = 20 - int k" "k < 20"
    by (auto simp: k_def)
  have "(take (Suc k) s)[k := CHR ''-''] = take k s @ [CHR ''-'']"
    using assms k by (simp add: take_Suc_conv_app_nth list_update_append)
  moreover have "nat (21 - int k) = Suc n" using k by simp
  ultimately show ?thesis
    using True assms k eq n_def [symmetric]
    by (simp add: sint2str_def int2str_def int2bstr_eq bstr_text_def Let_def
        list_update_append nat_add_distrib)
next
  case False
  then have "unat l = nat (sint l)"
    by (metis nat_int not_less sint_nonneg_unat)
  with False assms show ?thesis
    by (simp add: sint2str_def int2str_def int2bstr_text Let_def split: prod.split)
qed

lemma btostr_dec_digits: "btostr v = dec_digits (unat v)"
proof -
  let ?n = "unat v"
  have n: "?n < 256" using unsigned_less [of v, where 'a = nat] by simp
  consider "?n < 10" | "10 \<le> ?n" "?n < 100" | "100 \<le> ?n" by linarith
  then show ?thesis
  proof cases
    case 1
    then show ?thesis by (simp add: btostr_def dec_digits_small)
  next
    case 2
    then have "dec_digits ?n = [chr (48 + ?n div 10), chr (48 + ?n mod 10)]"
      by (simp add: dec_digits_step dec_digits_small)
    moreover from 2 have "0 < ?n div 10" by simp
    ultimately show ?thesis using 2 by (simp add: btostr_def Let_def add.commute)
  next
    case 3
    then have "dec_digits ?n =
        [chr (48 + ?n div 10 div 10), chr (48 + ?n div 10 mod 10), chr (48 + ?n mod 10)]"
      using n by (simp add: dec_digits_step [of ?n] dec_digits_step [of "?n div 10"] dec_digits_small)
    moreover have "?n mod 100 div 10 = ?n div 10 mod 10"
      using mod_mult2_eq [of ?n 10 10] by simp
    moreover have "?n div 10 div 10 = ?n div 100"
      by (simp flip: div_mult2_eq)
    moreover have "0 < ?n div 100" using 3 by (simp add: div_greater_zero_iff)
    ultimately show ?thesis by (simp add: btostr_def Let_def add.commute)
  qed
qed

subsection \<open>Hexadecimal numbers\<close>

lemma signed_drop_bit_nonneg:
  fixes w :: s32
  assumes "0 \<le> sint w"
  shows "0 \<le> sint (signed_drop_bit 4 w)" and "unat (signed_drop_bit 4 w) = unat w div 16"
proof -
  have s: "sint (signed_drop_bit 4 w) = sint w div 16"
    by (simp add: sint_signed_drop_bit_eq drop_bit_eq_div)
  with assms show nn: "0 \<le> sint (signed_drop_bit 4 w)" by simp
  have "int (unat (signed_drop_bit 4 w)) = int (unat w div 16)"
    by (simp only: sint_nonneg_unat [OF nn] sint_nonneg_unat [OF assms] s zdiv_int) simp
  then show "unat (signed_drop_bit 4 w) = unat w div 16" by linarith
qed

lemma and_15: "w AND 0xf = take_bit 4 w"
  for w :: s32
  by (simp add: take_bit_eq_mask mask_eq_exp_minus_1)

lemma unat_and_15: "unat (w AND 0xf) = unat w mod 16"
  for w :: s32
  by (simp add: and_15 take_bit_eq_mod unat_mod)

lemma nibble_join:
  fixes w :: s32
  assumes "0 \<le> sint w"
  shows "push_bit 4 (signed_drop_bit 4 w) + of_nat (unat w mod 16) = w"
proof -
  have "unat (drop_bit 4 w) = unat w div 16"
    by (simp add: drop_bit_eq_div unat_div)
  then have "signed_drop_bit 4 w = drop_bit 4 w"
    using signed_drop_bit_nonneg (2) [OF assms] by (simp add: word_unat_eq_iff)
  moreover have "of_nat (unat w mod 16) = w AND 0xf"
    unfolding unat_and_15 [symmetric] by simp
  ultimately show ?thesis by (simp only: and_15 bits_ident)
qed

lemma int2reverse_hex_loop_roundtrip:
  "0 \<le> sint nr \<Longrightarrow> unat nr < 16 ^ n \<Longrightarrow>
     \<exists>out. int2reverse_hex_loop n nr = (out, n - length out, 0) \<and> length out \<le> n \<and>
           hex_acc 0 (rev out) = Some nr"
proof (induction n arbitrary: nr)
  case 0
  then have "nr = 0" by (simp add: unat_eq_zero)
  then show ?case by simp
next
  case (Suc n)
  show ?case
  proof (cases "nr = 0")
    case False
    let ?d = "unat nr mod 16"
    let ?ch = "if ?d \<ge> 10 then chr (?d + 97 - 10) else chr (?d + 48)"
    note sd = signed_drop_bit_nonneg [OF Suc.prems(1)]
    from Suc.prems(2) sd have "unat (signed_drop_bit 4 nr) < 16 ^ n"
      by (simp add: less_mult_imp_div_less mult.commute)
    with Suc.IH sd(1) obtain out where out:
      "int2reverse_hex_loop n (signed_drop_bit 4 nr) = (out, n - length out, 0)"
      "length out \<le> n" "hex_acc 0 (rev out) = Some (signed_drop_bit 4 nr)"
      by blast
    have "?ch = hex_char ?d" by (simp add: hex_char_def)
    then have "hex_val ?ch = Some ?d" by (simp add: hex_val_hex_char)
    with out nibble_join [OF Suc.prems(1)] have "hex_acc 0 (rev (?ch # out)) = Some nr"
      by (simp only: rev.simps hex_acc_append hex_acc_Cons hex_acc.simps(1) option.case)
    moreover have "int2reverse_hex_loop (Suc n) nr = (?ch # out, Suc n - length (?ch # out), 0)"
      using False out by (simp only: int2reverse_hex_loop.simps unat_and_15 if_False Let_def
          prod.case length_Cons diff_Suc_Suc)
    moreover have "length (?ch # out) \<le> Suc n" using out by simp
    ultimately show ?thesis by blast
  qed auto
qed

lemma int2reverse_hex_loop_negative:
  "sint nr < 0 \<Longrightarrow> snd (snd (int2reverse_hex_loop n nr)) \<noteq> 0"
proof (induction n arbitrary: nr)
  case (Suc n)
  then have "sint (signed_drop_bit 4 nr) < 0"
    by (simp add: sint_signed_drop_bit_eq)
  from Suc.IH [OF this] Suc.prems show ?case
    by (auto simp: Let_def split: prod.split)
qed auto

lemma reverse_hex2int_zero: "reverse_hex2int ''0'' = 0"
  by code_simp

subsection \<open>Un-escaping\<close>

lemma un_escape_loop_sound: "un_escape_loop s = (True, t) \<Longrightarrow> escaped s t"
proof (induction s arbitrary: t rule: un_escape_loop.induct)
  case (2 c cs)
  show ?case
  proof (cases "c = CHR ''%''")
    case True
    with "2.prems" obtain h l rest a b u where cs: "cs = h # l # rest"
      and v: "hex_val h = Some a" "hex_val l = Some b"
      and r: "32 \<le> a * 16 + b" "a * 16 + b \<le> 126" "un_escape_loop rest = (True, u)"
      and t: "t = chr (a * 16 + b) # u"
      by (auto simp: hex2int_hex_val Let_def nat_add_distrib nat_mult_distrib
          split: list.splits if_splits option.splits prod.splits)
    have "escaped rest u" using "2.IH"(1) True cs v r by (auto simp: hex2int_hex_val)
    with True cs v r t show ?thesis by (auto intro: esc_hex)
  next
    case False
    with "2.prems" obtain u where "un_escape_loop cs = (True, u)" "t = c # u"
      by (auto simp: Let_def split: prod.splits)
    with "2.IH"(2) [OF False] False show ?thesis by (auto intro: esc_plain)
  qed
qed (auto intro: esc_nil)

lemma un_escape_loop_complete: "escaped s t \<Longrightarrow> un_escape_loop s = (True, t)"
proof (induction rule: escaped.induct)
  case (esc_hex h a l b s t)
  then have "nat (int a * 16 + int b) = a * 16 + b"
    by (simp add: nat_add_distrib nat_mult_distrib)
  with esc_hex show ?case by (simp add: hex2int_hex_val Let_def)
qed simp_all

lemma un_escape_iff_escaped: "un_escape s = (int (length t), t) \<longleftrightarrow> escaped s t"
proof -
  have "un_escape_loop s = (True, t) \<longleftrightarrow> escaped s t"
    using un_escape_loop_sound un_escape_loop_complete by blast
  moreover have "un_escape s = (int (length t), t) \<longleftrightarrow> un_escape_loop s = (True, t)"
    by (cases "un_escape_loop s") (auto simp: un_escape_def)
  ultimately show ?thesis by simp
qed

interpretation ue: unescaper un_escape_decode
proof unfold_locales
  fix s t
  show "un_escape_decode s = Some t \<longleftrightarrow> escaped s t"
    using un_escape_loop_sound [of s] un_escape_loop_complete [of s t]
    by (auto simp: un_escape_decode_def un_escape_def Let_def split: prod.splits if_splits)
qed

subsection \<open>Comparison\<close>

lemma str_cmp_loop_lex:
  "str_cmp_loop f a b =
     (if map (\<lambda>c. schar (f c)) a < map (\<lambda>c. schar (f c)) b then - 1
      else if map (\<lambda>c. schar (f c)) b < map (\<lambda>c. schar (f c)) a then 1 else 0)"
  by (induction f a b rule: str_cmp_loop.induct) auto

section \<open>Properties\<close>

text \<open>
  C29. \<open>int2str\<close> prints any \<open>unsigned long\<close>: in the 22-byte static buffer the result is
  exactly the decimal representation, followed by a terminating NUL at the last byte, at an
  offset of at least one (so \<open>sint2str\<close> may write the sign in front of it), and the
  overflow report is never reached.
\<close>

theorem int2str_correct:
  assumes "length int2str_buf = 22"
  shows "case int2str l int2str_buf of (s, p, len, ovf) \<Rightarrow>
    length s = 22 \<and> 1 \<le> p \<and> p + len = 21 \<and> s ! 21 = chr 0 \<and> \<not> ovf \<and>
    bstr_text (int2str l int2str_buf) = dec_digits (unat l)"
proof -
  have "length (dec_digits (unat l)) \<le> 20" by (rule u64_digits)
  then show ?thesis
    using assms int2bstr_text [OF assms, of l]
    by (auto simp: int2str_def int2bstr_eq nth_append)
qed

theorem int2str_correct_witness:
  "length (replicate 22 (chr 0)) = 22 \<and>
   bstr_text (int2str 1024 (replicate 22 (chr 0))) = dec_digits 1024"
  using int2str_correct [of "replicate 22 (chr 0)" 1024] by auto

text \<open>
  \<open>sint2str\<close> prints every \<open>long\<close>, the most negative one included, as an optional
  minus sign and the decimal digits of the absolute value.
\<close>

theorem sint2str_correct:
  assumes "length int2str_buf = 22"
  shows "bstr_text (sint2str l int2str_buf) =
    (if sint l < 0 then [CHR ''-''] else []) @ dec_digits (nat \<bar>sint l\<bar>)"
  using assms by (simp add: sint2str_text)

theorem sint2str_correct_witness:
  "length (replicate 22 (chr 0)) = 22 \<and>
   bstr_text (sint2str (- 7) (replicate 22 (chr 0))) = ''-'' @ dec_digits 7"
  using sint2str_correct [of "replicate 22 (chr 0)" "- 7"] by simp

text \<open>
  C30. Printing an \<open>unsigned int\<close> with \<open>int2str\<close> and reading it back with
  \<open>str2int\<close> succeeds and gives the same number.
\<close>

theorem str2int_int2str:
  assumes "length int2str_buf = 22"
  shows "str2int (bstr_text (int2str (ucast (n :: u32)) int2str_buf)) = (0, n)"
proof -
  have "unat (ucast n :: u64) = unat n"
    using unsigned_less [of n, where 'a = nat]
    by (simp add: unsigned_ucast_eq take_bit_nat_eq_self)
  with assms show ?thesis
    by (simp add: int2str_def int2bstr_text str2int_dec_digits)
qed

theorem str2int_int2str_witness:
  "length (replicate 22 (chr 0)) = 22 \<and>
   str2int (bstr_text (int2str (ucast (5060 :: u32)) (replicate 22 (chr 0)))) = (0, 5060)"
  using str2int_int2str [of "replicate 22 (chr 0)" 5060] by simp

text \<open>
  C31. \<open>str2int\<close> accepts exactly the strings of decimal digits, and the number it stores
  is their value modulo \<open>2 ^ 32\<close>: an overflow is not an error.  A string with another
  character is refused, and the digits before that character are left in the result.
\<close>

theorem str2int_spec:
  "str2int s =
     (if list_all is_digit s then (0, of_nat (dec_value s mod 2 ^ 32))
      else (- 1, of_nat (dec_value (takeWhile is_digit s) mod 2 ^ 32)))"
proof -
  have "(of_nat (n mod 2 ^ 32) :: u32) = of_nat n" for n
    by (simp add: word_unat_eq_iff unat_of_nat)
  then show ?thesis by (simp only: str2int_eq)
qed

text \<open>
  \<open>str2s\<close> reports an error for more than five characters and for every character that
  is not a digit; otherwise it returns the value modulo \<open>2 ^ 16\<close>, so that the port strings
  from 65536 to 99999 are accepted with a wrong value.
\<close>

theorem str2s_spec:
  "str2s s =
     (if list_all is_digit s \<and> length s \<le> 5 then (of_nat (dec_value s mod 2 ^ 16), 0)
      else (0, 1))"
proof -
  have "(of_nat (n mod 2 ^ 16) :: u16) = of_nat n" for n
    by (simp add: word_unat_eq_iff unat_of_nat)
  then show ?thesis
    using str2s_loop_eq [of 0 0 s] by (simp add: str2s_def dec_value_def)
qed

text \<open>
  Every non-negative \<open>int\<close> that \<open>int2reverse_hex\<close> writes into eight or more bytes
  is read back unchanged by \<open>reverse_hex2int\<close>.
\<close>

theorem reverse_hex_roundtrip:
  assumes "8 \<le> sz" and "0 \<le> sint nr"
  shows "case int2reverse_hex sz nr of (out, sz', ret) \<Rightarrow>
    ret = 1 \<and> sz' + length out = sz \<and> reverse_hex2int out = nr"
proof (cases "nr = 0")
  case True
  with assms show ?thesis by (simp add: int2reverse_hex_def reverse_hex2int_zero)
next
  case False
  have "unat nr < 16 ^ 8" using unsigned_less [of nr, where 'a = nat] by simp
  also have "\<dots> \<le> 16 ^ sz" using assms(1) by (rule power_increasing) simp
  finally obtain out where "int2reverse_hex_loop sz nr = (out, sz - length out, 0)"
    "length out \<le> sz" "hex_acc 0 (rev out) = Some nr"
    using int2reverse_hex_loop_roundtrip [OF assms(2)] by blast
  with False show ?thesis by (simp add: int2reverse_hex_def reverse_hex2int_def)
qed

theorem reverse_hex_roundtrip_witness:
  "(8 :: nat) \<le> 10 \<and> 0 \<le> sint (0x2f :: s32) \<and>
   (case int2reverse_hex 10 0x2f of (out, sz', ret) \<Rightarrow>
      ret = 1 \<and> sz' + length out = 10 \<and> reverse_hex2int out = 0x2f)"
  using reverse_hex_roundtrip [of 10 "0x2f"] by simp

text \<open>
  C32. \<open>un_escape\<close> succeeds on exactly the strings whose percent signs all start an escaped
  printable character, and then its output is the string they stand for, whose length it
  returns; on every other string it returns a negative result.
\<close>

theorem un_escape_correct:
  "(fst (un_escape s) < 0 \<longleftrightarrow> (\<nexists>t. escaped s t)) \<and>
   (escaped s t \<longleftrightarrow> un_escape s = (int (length t), t))"
  using ue.decode_iff [of s] un_escape_loop_complete [of s] un_escape_loop_sound [of s]
  by (cases "un_escape_loop s") (auto simp: un_escape_def un_escape_decode_def)

text \<open>
  \<open>str_strcmp\<close> and \<open>str_strcasecmp\<close> on non-null strings compute the lexicographic
  order of the (signed) bytes, respectively of the bytes in lower case.
\<close>

theorem str_strcmp_lexicographic:
  "str_strcmp (Some a) (Some b) =
     (if map schar a < map schar b then - 1 else if map schar b < map schar a then 1 else 0) \<and>
   str_strcasecmp (Some a) (Some b) =
     (if map schar (strlower a) < map schar (strlower b) then - 1
      else if map schar (strlower b) < map schar (strlower a) then 1 else 0)"
  by (simp add: str_strcmp_def str_strcasecmp_def str_cmp_loop_lex strlower_def comp_def)

end
