(* ===== verification/StrCommon.thy ===== *)
theory StrCommon
  imports Ut
begin

text \<open>
  The escaping routines of \<open>strcommon.c\<close>: backslash escaping of quotes, backslashes and
  NUL bytes, and percent escaping of the user part of a URI.  The destination buffers are
  modelled by what is written to them.  \<open>unescape_user\<close> does not test whether the two
  digits of an escape lie inside its input: a read at or after the end of the input is an
  outcome of its own.
\<close>

section \<open>Definitions\<close>

subsection \<open>Backslash escaping\<close>

fun escape_common_loop :: "string \<Rightarrow> string" where
  "escape_common_loop [] = []"
| "escape_common_loop (c # cs) =
     (if uchar c = 39 then CHR 0x5C # c # escape_common_loop cs
      else if uchar c = 34 then CHR 0x5C # c # escape_common_loop cs
      else if uchar c = 92 then CHR 0x5C # c # escape_common_loop cs
      else if uchar c = 0 then CHR 0x5C # CHR ''0'' # escape_common_loop cs
      else c # escape_common_loop cs)"

text \<open>\<open>None\<close> stands for a null \<open>dst\<close> or \<open>src\<close>; then nothing is written.\<close>

definition escape_common :: "string option \<Rightarrow> string" where
  "escape_common src = (case src of None \<Rightarrow> [] | Some s \<Rightarrow> escape_common_loop s)"

fun unescape_common_loop :: "string \<Rightarrow> string" where
  "unescape_common_loop [] = []"
| "unescape_common_loop (c # cs) =
     (if uchar c = 92 \<and> cs \<noteq> []
      then (if uchar (hd cs) = 39 then CHR 0x27 # unescape_common_loop (tl cs)
            else if uchar (hd cs) = 34 then CHR 0x22 # unescape_common_loop (tl cs)
            else if uchar (hd cs) = 92 then CHR 0x5C # unescape_common_loop (tl cs)
            else if uchar (hd cs) = 48 then CHR 0x00 # unescape_common_loop (tl cs)
            else c # unescape_common_loop cs)
      else c # unescape_common_loop cs)"

definition unescape_common :: "string option \<Rightarrow> string" where
  "unescape_common src = (case src of None \<Rightarrow> [] | Some s \<Rightarrow> unescape_common_loop s)"

subsection \<open>Percent escaping\<close>

datatype unescape_result =
    Unescaped string
  | Failed          \<comment> \<open>\<open>return -1\<close>\<close>
  | Overread        \<comment> \<open>a byte at or after \<open>sin->s + sin->len\<close> is read\<close>

definition prepend :: "char \<Rightarrow> unescape_result \<Rightarrow> unescape_result" where
  "prepend c r = (case r of Unescaped t \<Rightarrow> Unescaped (c # t) | _ \<Rightarrow> r)"

text \<open>One \<open>switch\<close> over a hexadecimal digit: the value the source adds for it.\<close>

definition hex_switch :: "char \<Rightarrow> int option" where
  "hex_switch p =
     (if p \<in> set ''0123456789'' then Some (schar p - 48)
      else if p \<in> set ''abcdef'' then Some (schar p - 97 + 10)
      else if p \<in> set ''ABCDEF'' then Some (schar p - 65 + 10)
      else None)"

fun unescape_user_loop :: "string \<Rightarrow> unescape_result" where
  "unescape_user_loop [] = Unescaped []"
| "unescape_user_loop (p # ps) =
     (if p = CHR ''%''
      then (case ps of
              [] \<Rightarrow> Overread
            | h # ps' \<Rightarrow>
                (case hex_switch h of
                   None \<Rightarrow> Failed
                 | Some hi \<Rightarrow>
                     (case ps' of
                        [] \<Rightarrow> Overread
                      | l # rest \<Rightarrow>
                          (case hex_switch l of
                             None \<Rightarrow> Failed
                           | Some lo \<Rightarrow>
                               (let c = chr (nat (hi * 16 + lo)) in
                                if schar c < 32 \<or> schar c > 126 then Failed
                                else prepend c (unescape_user_loop rest))))))
      else prepend p (unescape_user_loop ps))"

text \<open>
  The input is \<open>None\<close> for a null pointer; \<open>sout\<close> is the size of the output buffer,
  \<open>None\<close> for a null one.
\<close>

definition unescape_user :: "string option \<Rightarrow> int option \<Rightarrow> unescape_result" where
  "unescape_user sin sout =
     (case (sin, sout) of
        (Some s, Some n) \<Rightarrow>
          (if n < int (length s) + 1 then Failed else unescape_user_loop s)
      | _ \<Rightarrow> Failed)"

definition user_unreserved :: "char \<Rightarrow> bool" where
  "user_unreserved p \<longleftrightarrow>
     is_digit p \<or> (65 \<le> schar p \<and> schar p \<le> 90) \<or> (97 \<le> schar p \<and> schar p \<le> 122) \<or>
     p \<in> set ''-_.!~*'' \<or> uchar p = 39 \<or> p \<in> set ''()&=+$,;?''"

fun escape_user_loop :: "string \<Rightarrow> string option" where
  "escape_user_loop [] = Some []"
| "escape_user_loop (p # ps) =
     (if schar p < 32 \<or> schar p > 126 then None
      else map_option
        (\<lambda>out. (if user_unreserved p then [p]
                else [CHR ''%'',
                      (let x = uchar p div 16 in if x < 10 then chr (x + 48) else chr (x - 10 + 97)),
                      (let x = uchar p mod 16 in if x < 10 then chr (x + 48) else chr (x - 10 + 97))])
               @ out)
        (escape_user_loop ps))"

definition escape_user :: "string option \<Rightarrow> int option \<Rightarrow> string option" where
  "escape_user sin sout =
     (case (sin, sout) of
        (Some s, Some n) \<Rightarrow>
          (if n < 3 * int (length s) + 1 then None else escape_user_loop s)
      | _ \<Rightarrow> None)"

section \<open>Specifications\<close>

definition printable :: "char \<Rightarrow> bool" where
  "printable c \<longleftrightarrow> 32 \<le> uchar c \<and> uchar c \<le> 126"

text \<open>
  \<open>unescape_user\<close> as a decoder: anything but a result is a failure.  The output buffer is
  as large as the caller must make it.
\<close>

definition unescape_user_decode :: "string \<Rightarrow> string option" where
  "unescape_user_decode s =
     (case unescape_user (Some s) (Some (int (length s) + 1)) of
        Unescaped t \<Rightarrow> Some t
      | _ \<Rightarrow> None)"

section \<open>Lemmas\<close>

subsection \<open>Backslash escaping\<close>

lemma unescape_escape_common_loop: "unescape_common_loop (escape_common_loop s) = s"
proof (induction s)
  case (Cons c s)
  have bs: "uchar CHR 0x5C = 92" and z: "uchar CHR ''0'' = 48"
    by (simp_all add: char_simps)
  have q: "CHR 0x27 = c" if "uchar c = 39" using that by (intro uchar_eqI) (simp add: char_simps)
  have d: "CHR 0x22 = c" if "uchar c = 34" using that by (intro uchar_eqI) (simp add: char_simps)
  have b: "CHR 0x5C = c" if "uchar c = 92" using that by (intro uchar_eqI) (simp add: char_simps)
  have n: "CHR 0x00 = c" if "uchar c = 0" using that by (intro uchar_eqI) (simp add: char_simps)
  from Cons show ?case by (simp add: bs z q d b n)
qed simp

lemma escape_common_loop_length: "length (escape_common_loop s) \<le> 2 * length s"
  by (induction s) auto

lemma escape_common_loop_no_nul: "no_nul (escape_common_loop s)"
  by (induction s) (auto simp: char_simps)

subsection \<open>Percent escaping\<close>

lemma hex_switch_hex_val: "hex_switch c = map_option int (hex_val c)"
proof -
  have 1: "c \<in> set ''0123456789'' \<longleftrightarrow> is_digit c"
    unfolding is_digit_def by (simp add: eq_char_uchar char_simps) presburger
  have 2: "c \<in> set ''abcdef'' \<longleftrightarrow> 97 \<le> uchar c \<and> uchar c \<le> 102"
    by (auto simp: eq_char_uchar char_simps)
  have 3: "c \<in> set ''ABCDEF'' \<longleftrightarrow> 65 \<le> uchar c \<and> uchar c \<le> 70"
    by (auto simp: eq_char_uchar char_simps)
  show ?thesis
    unfolding hex_switch_def hex_val_def 1 2 3 by (auto simp: schar_ascii is_digit_def)
qed

lemma chr_printable:
  "v < 256 \<Longrightarrow> (schar (chr v) < 32 \<or> 126 < schar (chr v)) \<longleftrightarrow> (v < 32 \<or> 126 < v)"
  by (auto simp: schar_def)

lemma hex_pair_less:
  "hex_val h = Some a \<Longrightarrow> hex_val l = Some b \<Longrightarrow> a * 16 + b < 256"
  using hex_val_less [of h a] hex_val_less [of l b] by simp

lemma unescape_user_loop_escape:
  assumes "hex_val h = Some a" and "hex_val l = Some b"
  shows "unescape_user_loop (CHR ''%'' # h # l # s) =
    (if a * 16 + b < 32 \<or> 126 < a * 16 + b then Failed
     else prepend (chr (a * 16 + b)) (unescape_user_loop s))"
proof -
  have "nat (int a * 16 + int b) = a * 16 + b"
    by (simp add: nat_add_distrib nat_mult_distrib)
  with assms hex_pair_less [OF assms] show ?thesis
    by (simp add: hex_switch_hex_val Let_def chr_printable)
qed

lemma unescape_user_loop_complete: "escaped s t \<Longrightarrow> unescape_user_loop s = Unescaped t"
proof (induction rule: escaped.induct)
  case (esc_hex h a l b s t)
  then show ?case
    by (simp add: unescape_user_loop_escape prepend_def del: unescape_user_loop.simps)
qed (simp_all add: prepend_def)

lemma prepend_eq_Unescaped:
  "prepend c r = Unescaped t \<longleftrightarrow> (\<exists>u. r = Unescaped u \<and> t = c # u)"
  by (cases r) (auto simp: prepend_def)

lemma unescape_user_loop_sound: "unescape_user_loop s = Unescaped t \<Longrightarrow> escaped s t"
proof (induction s arbitrary: t rule: length_induct)
  case (1 s)
  show ?case
  proof (cases s)
    case Nil
    with "1.prems" show ?thesis by (simp add: esc_nil)
  next
    case (Cons p ps)
    show ?thesis
    proof (cases "p = CHR ''%''")
      case True
      with Cons "1.prems" obtain h l rest a b where s: "s = CHR ''%'' # h # l # rest"
        and v: "hex_val h = Some a" "hex_val l = Some b"
        by (auto simp: hex_switch_hex_val split: list.splits option.splits)
      with "1.prems" obtain u where "32 \<le> a * 16 + b" "a * 16 + b \<le> 126"
        "unescape_user_loop rest = Unescaped u" "t = chr (a * 16 + b) # u"
        by (auto simp: unescape_user_loop_escape prepend_eq_Unescaped
            simp del: unescape_user_loop.simps split: if_splits)
      with s v "1.IH" show ?thesis by (auto intro: esc_hex)
    next
      case False
      with Cons "1.prems" obtain u where "unescape_user_loop ps = Unescaped u" "t = p # u"
        by (auto simp: prepend_eq_Unescaped)
      with Cons False "1.IH" show ?thesis by (auto intro: esc_plain)
    qed
  qed
qed

interpretation uu: unescaper unescape_user_decode
proof unfold_locales
  fix s t
  show "unescape_user_decode s = Some t \<longleftrightarrow> escaped s t"
    using unescape_user_loop_sound [of s t] unescape_user_loop_complete [of s t]
    by (auto simp: unescape_user_decode_def unescape_user_def split: unescape_result.splits)
qed

lemma escaped_unique: "escaped s t \<Longrightarrow> escaped s u \<Longrightarrow> t = u"
  by (metis option.inject uu.decode_iff)

lemma prepend_eq_Overread: "prepend c r = Overread \<longleftrightarrow> r = Overread"
  by (cases r) (auto simp: prepend_def)

text \<open>The ends of an input on which \<open>unescape_user\<close> reads past it.\<close>

lemma unescape_user_loop_truncated:
  assumes "escaped a x" and "b = ''%'' \<or> (\<exists>h. b = [CHR ''%'', h] \<and> hex_val h \<noteq> None)"
  shows "unescape_user_loop (a @ b) = Overread"
  using assms(1)
proof (induction rule: escaped.induct)
  case esc_nil
  from assms(2) show ?case by (auto simp: hex_switch_hex_val)
next
  case (esc_hex h a l b s t)
  then show ?case
    by (simp add: unescape_user_loop_escape prepend_eq_Overread del: unescape_user_loop.simps)
qed (simp add: prepend_eq_Overread)

lemma unescape_user_loop_overread:
  "unescape_user_loop s = Overread \<Longrightarrow>
     \<exists>a x b. s = a @ b \<and> escaped a x \<and> (b = ''%'' \<or> (\<exists>h. b = [CHR ''%'', h] \<and> hex_val h \<noteq> None))"
  (is "_ \<Longrightarrow> \<exists>a x b. s = a @ b \<and> escaped a x \<and> ?T b")
proof (induction s rule: length_induct)
  case (1 s)
  then obtain p ps where s: "s = p # ps" by (cases s) auto
  show ?case
  proof (cases "p = CHR ''%'' \<and> (ps = [] \<or> (\<exists>h. ps = [h]))")
    case True
    with s "1.prems" have "?T s"
      by (auto simp: hex_switch_hex_val split: option.splits)
    then have "s = [] @ s \<and> escaped [] [] \<and> ?T s" by (simp add: esc_nil)
    then show ?thesis by blast
  next
    case other: False
    show ?thesis
    proof (cases "p = CHR ''%''")
      case True
      with other obtain h l rest where ps: "ps = h # l # rest"
        by (metis list.exhaust)
      with True s "1.prems" obtain v w where v: "hex_val h = Some v" "hex_val l = Some w"
        by (auto simp: hex_switch_hex_val split: option.splits)
      with True s ps "1.prems" have r: "unescape_user_loop rest = Overread"
        "32 \<le> v * 16 + w" "v * 16 + w \<le> 126"
        by (auto simp: unescape_user_loop_escape prepend_eq_Overread
            simp del: unescape_user_loop.simps split: if_splits)
      have "length rest < length s" using s ps by simp
      from "1.IH" [rule_format, OF this r(1)]
      obtain a x b where a: "rest = a @ b" "escaped a x" "?T b" by blast
      from esc_hex [OF v r(2,3) a(2)] have
        "escaped (CHR ''%'' # h # l # a) (chr (v * 16 + w) # x)" .
      moreover have "s = (CHR ''%'' # h # l # a) @ b" using True s ps a by simp
      ultimately show ?thesis using a(3) by blast
    next
      case False
      with s "1.prems" have "unescape_user_loop ps = Overread" by (simp add: prepend_eq_Overread)
      from "1.IH" [rule_format, OF _ this] s
      obtain a x b where a: "ps = a @ b" "escaped a x" "?T b" by auto
      from esc_plain [OF False a(2)] have "escaped (p # a) (p # x)" .
      moreover have "s = (p # a) @ b" using s a by simp
      ultimately show ?thesis using a(3) by blast
    qed
  qed
qed

lemma escape_user_char:
  assumes "\<not> user_unreserved p" and "printable p"
  shows "hex_val (let x = uchar p div 16 in if x < 10 then chr (x + 48) else chr (x - 10 + 97)) =
      Some (uchar p div 16)"
    and "hex_val (let x = uchar p mod 16 in if x < 10 then chr (x + 48) else chr (x - 10 + 97)) =
      Some (uchar p mod 16)"
  using hex_val_hex_char [of "uchar p div 16"] hex_val_hex_char [of "uchar p mod 16"] uchar_less [of p]
  by (simp_all add: hex_char_def Let_def less_mult_imp_div_less del: uchar_less)

lemma schar_printable: "\<not> (schar p < 32 \<or> schar p > 126) \<longleftrightarrow> printable p"
  using uchar_less [of p] by (auto simp: schar_def printable_def simp del: uchar_less)

lemma escape_user_loop_Some_iff: "(\<exists>t. escape_user_loop s = Some t) \<longleftrightarrow> list_all printable s"
  by (induction s) (auto simp: schar_printable [symmetric])

lemma escape_user_loop_escaped: "escape_user_loop s = Some t \<Longrightarrow> escaped t s"
proof (induction s arbitrary: t)
  case (Cons p s)
  then have p: "printable p" by (auto simp: schar_printable [symmetric] split: if_splits)
  from Cons.prems obtain u where u: "escape_user_loop s = Some u"
    by (auto split: if_splits)
  with Cons.IH have IH: "escaped u s" by blast
  show ?case
  proof (cases "user_unreserved p")
    case True
    then have "p \<noteq> CHR ''%''" by (auto simp: user_unreserved_def is_digit_def schar_def char_simps)
    with True p u IH Cons.prems show ?thesis by (auto intro: esc_plain split: if_splits)
  next
    case False
    have eq: "uchar p div 16 * 16 + uchar p mod 16 = uchar p" by simp
    with p have "32 \<le> uchar p div 16 * 16 + uchar p mod 16"
      and "uchar p div 16 * 16 + uchar p mod 16 \<le> 126" by (simp_all add: printable_def)
    note esc_hex [OF escape_user_char [OF False p] this IH, unfolded eq chr_uchar]
    with False u Cons.prems show ?thesis by (auto split: if_splits)
  qed
qed (simp add: esc_nil)

lemma escape_user_loop_length: "escape_user_loop s = Some t \<Longrightarrow> length t \<le> 3 * length s"
proof (induction s arbitrary: t)
  case (Cons p s)
  then obtain u where "escape_user_loop s = Some u" "length t \<le> 3 + length u"
    by (auto split: if_splits)
  with Cons.IH show ?case by force
qed simp

section \<open>Properties\<close>

text \<open>
  C34. \<open>unescape_common\<close> undoes \<open>escape_common\<close> on every byte string, and the escaped
  string contains no NUL byte and is at most twice as long.
\<close>

theorem escape_common_roundtrip:
  "unescape_common (Some (escape_common (Some s))) = s \<and>
   no_nul (escape_common (Some s)) \<and> length (escape_common (Some s)) \<le> 2 * length s"
  by (simp add: escape_common_def unescape_common_def unescape_escape_common_loop
      escape_common_loop_length escape_common_loop_no_nul)

text \<open>
  C33. With an output buffer of the required size, \<open>escape_user\<close> accepts exactly the
  strings of printable characters; what it writes, with the terminating NUL, fits the buffer,
  and both un-escaping routines of the program, \<open>unescape_user\<close> and \<open>un_escape\<close>,
  give the original back.
\<close>

theorem escape_user_roundtrip:
  assumes "3 * int (length s) + 1 \<le> n"
  shows "(list_all printable s \<longleftrightarrow> (\<exists>t. escape_user (Some s) (Some n) = Some t)) \<and>
    (\<forall>t. escape_user (Some s) (Some n) = Some t \<longrightarrow>
       int (length t) + 1 \<le> n \<and>
       unescape_user (Some t) (Some (int (length t) + 1)) = Unescaped s \<and>
       un_escape t = (int (length s), s))"
proof -
  have e: "escape_user (Some s) (Some n) = escape_user_loop s"
    using assms by (simp add: escape_user_def)
  have "int (length t) + 1 \<le> n \<and>
      unescape_user (Some t) (Some (int (length t) + 1)) = Unescaped s \<and>
      un_escape t = (int (length s), s)" if "escape_user_loop s = Some t" for t
  proof -
    from that have "escaped t s" by (rule escape_user_loop_escaped)
    then show ?thesis
      using assms escape_user_loop_length [OF that] unescape_user_loop_complete [of t s]
        un_escape_loop_complete [of t s]
      by (simp add: unescape_user_def un_escape_def)
  qed
  then show ?thesis by (simp add: e escape_user_loop_Some_iff)
qed

theorem escape_user_roundtrip_witness:
  "3 * int (length ''a/b'') + 1 \<le> 20 \<and> escape_user (Some ''a/b'') (Some 20) = Some ''a%2fb'' \<and>
   un_escape ''a%2fb'' = (3, ''a/b'')"
proof -
  have e: "escape_user (Some ''a/b'') (Some 20) = Some ''a%2fb''" by code_simp
  with escape_user_roundtrip [of "''a/b''" 20] show ?thesis by simp
qed

text \<open>
  C3. Where the output buffer is large enough, \<open>unescape_user\<close> returns a string exactly
  when \<open>un_escape\<close> does, and then the same one.
\<close>

theorem unescape_user_un_escape:
  assumes "int (length s) + 1 \<le> n"
  shows "unescape_user (Some s) (Some n) = Unescaped t \<longleftrightarrow> un_escape s = (int (length t), t)"
proof -
  have "unescape_user (Some s) (Some n) = unescape_user_loop s"
    using assms by (simp add: unescape_user_def)
  moreover have "unescape_user_loop s = Unescaped t \<longleftrightarrow> escaped s t"
    using unescape_user_loop_sound unescape_user_loop_complete by blast
  ultimately show ?thesis by (simp add: un_escape_iff_escaped)
qed

theorem unescape_user_un_escape_witness:
  "int (length ''%41b'') + 1 \<le> 5 \<and> unescape_user (Some ''%41b'') (Some 5) = Unescaped ''Ab''"
proof -
  have "un_escape ''%41b'' = (2, ''Ab'')" by code_simp
  with unescape_user_un_escape [of "''%41b''" 5 "''Ab''"] show ?thesis by simp
qed

text \<open>
  C35. \<open>unescape_user\<close> reads past the end of its input exactly when the input is a
  well-escaped string followed by a percent sign, or by a percent sign and one hexadecimal
  digit.
\<close>

theorem unescape_user_overread:
  assumes "int (length s) + 1 \<le> n"
  shows "unescape_user (Some s) (Some n) = Overread \<longleftrightarrow>
    (\<exists>a x b. s = a @ b \<and> escaped a x \<and>
       (b = ''%'' \<or> (\<exists>h. b = [CHR ''%'', h] \<and> hex_val h \<noteq> None)))"
proof -
  have "unescape_user (Some s) (Some n) = unescape_user_loop s"
    using assms by (simp add: unescape_user_def)
  then show ?thesis
    using unescape_user_loop_overread [of s] unescape_user_loop_truncated by metis
qed

theorem unescape_user_overread_witness:
  "int (length ''%4'') + 1 \<le> 3 \<and> unescape_user (Some ''%4'') (Some 3) = Overread"
proof -
  have "hex_val CHR ''4'' \<noteq> None"
    by (simp add: hex_val_def is_digit_def char_simps)
  then have "''%4'' = [] @ ''%4'' \<and> escaped [] [] \<and>
      (''%4'' = ''%'' \<or> (\<exists>h. ''%4'' = [CHR ''%'', h] \<and> hex_val h \<noteq> None))"
    using esc_nil by blast
  then have "\<exists>a x b. ''%4'' = a @ b \<and> escaped a x \<and>
      (b = ''%'' \<or> (\<exists>h. b = [CHR ''%'', h] \<and> hex_val h \<noteq> None))" by blast
  with iffD2 [OF unescape_user_overread [of "''%4''" 3]] show ?thesis by simp
qed

end
