(* ===== verification/UsrAvp.thy ===== *)
theory UsrAvp
  imports Ut
begin

text \<open>
  Attribute-value pairs (\<open>usr_avp.c\<close>): the lists of pairs attached to a transaction or to
  the process, searching and removing them, the global aliases and the parsers of pair names.

  A list is a list of records; the address of a record's block identifies it.  A pointer into
  a list is the rest of the list from there on, so \<open>[]\<close> is the null pointer.
  \<open>crt_avps\<close> is the address of the current list head, a null pointer is \<open>None\<close>, and
  the outcome \<open>None\<close> of an operation is a failing \<open>assert\<close>.  The union
  \<open>int_str\<close> is a datatype: only calls whose flags agree with the member that was set are
  meaningful, and a string whose pointer is null is \<open>S None\<close>.
\<close>

section \<open>Data\<close>

datatype int_str = N s32 | S "string option"

definition AVP_NAME_STR :: u16 where "AVP_NAME_STR = 1"
definition AVP_VAL_STR :: u16 where "AVP_VAL_STR = 2"
definition AVP_SCRIPT_MASK :: u16 where "AVP_SCRIPT_MASK = 0xff00"

record usr_avp =
  avp_addr :: nat
  avp_id :: u16
  avp_flags :: u16
  avp_name :: "string option"
  avp_val :: int_str

record avp_state =
  avp_lists :: "nat \<Rightarrow> usr_avp list"
  crt_avps :: "nat option"

text \<open>The list head of the process, \<open>global_avps\<close>.\<close>

definition global_avps :: nat where "global_avps = 0"

text \<open>The test \<open>name.n==0\<close>: an id of 0 or a null pointer.\<close>

fun is_null :: "int_str \<Rightarrow> bool" where
  "is_null (N n) \<longleftrightarrow> n = 0"
| "is_null (S s) \<longleftrightarrow> s = None"

definition compute_ID :: "string \<Rightarrow> u16" where
  "compute_ID name = foldr (\<lambda>c id. xor id (word_of_int (schar c))) name 0"

section \<open>Adding and reading\<close>

text \<open>The result pairs the new state with the returned code.\<close>

definition add_avp :: "nat option \<Rightarrow> avp_state \<Rightarrow> u16 \<Rightarrow> int_str \<Rightarrow> int_str \<Rightarrow> (avp_state \<times> int) option" where
  "add_avp mem st flags name val =
     (case crt_avps st of
        None \<Rightarrow> None
      | Some crt \<Rightarrow>
          if is_null name then Some (st, - 1)
          else if and flags AVP_NAME_STR \<noteq> 0 \<and> name \<in> {S None, S (Some [])} then Some (st, - 1)
          else case mem of
            None \<Rightarrow> Some (st, - 1)
          | Some a \<Rightarrow>
              (let avp = \<lparr>avp_addr = a,
                     avp_id = (case name of S (Some s) \<Rightarrow> compute_ID s | S None \<Rightarrow> 0 | N n \<Rightarrow> ucast n),
                     avp_flags = flags,
                     avp_name = (case name of S s \<Rightarrow> s | N _ \<Rightarrow> None),
                     avp_val = val\<rparr>
               in Some (st\<lparr>avp_lists := (avp_lists st)(crt := avp # avp_lists st crt)\<rparr>, 0)))"

definition get_avp_name :: "usr_avp \<Rightarrow> string option" where
  "get_avp_name avp = (if and (avp_flags avp) AVP_NAME_STR = 0 then None else avp_name avp)"

definition get_avp_val :: "usr_avp \<Rightarrow> int_str" where
  "get_avp_val avp = avp_val avp"

definition get_avp_list :: "avp_state \<Rightarrow> nat option" where
  "get_avp_list st = crt_avps st"

section \<open>Searching\<close>

fun internal_search_ID_avp :: "usr_avp list \<Rightarrow> u16 \<Rightarrow> u16 \<Rightarrow> usr_avp list" where
  "internal_search_ID_avp [] i flags = []"
| "internal_search_ID_avp (avp # r) i flags =
     (if i = avp_id avp \<and> and (avp_flags avp) AVP_NAME_STR = 0 \<and>
         (flags = 0 \<or> and flags (avp_flags avp) \<noteq> 0)
      then avp # r else internal_search_ID_avp r i flags)"

fun internal_search_name_avp :: "usr_avp list \<Rightarrow> u16 \<Rightarrow> string \<Rightarrow> u16 \<Rightarrow> usr_avp list" where
  "internal_search_name_avp [] i name flags = []"
| "internal_search_name_avp (avp # r) i name flags =
     (if i = avp_id avp \<and> and (avp_flags avp) AVP_NAME_STR \<noteq> 0 \<and>
         (flags = 0 \<or> and flags (avp_flags avp) \<noteq> 0) \<and>
         (case get_avp_name avp of
            None \<Rightarrow> False
          | Some n \<Rightarrow> length n = length name \<and> strncasecmp_eq (length name) n name)
      then avp # r else internal_search_name_avp r i name flags)"

text \<open>\<open>start\<close> is the rest of a list from the pair given as start, or \<open>None\<close>; the result is
  the rest of the list from the pair found.\<close>

definition search_first_avp :: "avp_state \<Rightarrow> u16 \<Rightarrow> int_str \<Rightarrow> usr_avp list option \<Rightarrow>
    usr_avp list option" where
  "search_first_avp st flags name start =
     (case (case start of
              None \<Rightarrow> map_option (avp_lists st) (crt_avps st)
            | Some s \<Rightarrow> Some (tl s)) of
        None \<Rightarrow> None
      | Some head \<Rightarrow>
          if head = [] then Some []
          else if is_null name then Some []
          else if and flags AVP_NAME_STR \<noteq> 0
          then (case name of
                  S (Some s) \<Rightarrow>
                    if s = [] then Some []
                    else Some (internal_search_name_avp head (compute_ID s) s (and flags AVP_SCRIPT_MASK))
                | _ \<Rightarrow> Some [])
          else (case name of
                  N n \<Rightarrow> Some (internal_search_ID_avp head (ucast n) (and flags AVP_SCRIPT_MASK))
                | S _ \<Rightarrow> Some []))"

fun search_next_avp :: "usr_avp list \<Rightarrow> usr_avp list" where
  "search_next_avp [] = []"
| "search_next_avp (avp # r) =
     (if r = [] then []
      else if and (avp_flags avp) AVP_NAME_STR \<noteq> 0
      then internal_search_name_avp r (avp_id avp)
             (case get_avp_name avp of Some n \<Rightarrow> n | None \<Rightarrow> []) (and (avp_flags avp) AVP_SCRIPT_MASK)
      else internal_search_ID_avp r (avp_id avp) (and (avp_flags avp) AVP_SCRIPT_MASK))"

section \<open>Removing\<close>

fun unlink_avp :: "nat \<Rightarrow> usr_avp list \<Rightarrow> usr_avp list" where
  "unlink_avp a [] = []"
| "unlink_avp a (avp # r) = (if avp_addr avp = a then r else avp # unlink_avp a r)"

definition destroy_avp :: "avp_state \<Rightarrow> nat \<Rightarrow> avp_state" where
  "destroy_avp st avp_del =
     (case crt_avps st of
        None \<Rightarrow> st
      | Some crt \<Rightarrow> st\<lparr>avp_lists := (avp_lists st)(crt := unlink_avp avp_del (avp_lists st crt))\<rparr>)"

definition crt_list :: "avp_state \<Rightarrow> usr_avp list" where
  "crt_list st = (case crt_avps st of None \<Rightarrow> [] | Some crt \<Rightarrow> avp_lists st crt)"

lemma search_ID_suffix: "suffix (internal_search_ID_avp l i flags) l"
  by (induction l) (auto simp: suffix_ConsI)

lemma search_name_suffix: "suffix (internal_search_name_avp l i name flags) l"
  by (induction l) (auto simp: suffix_ConsI)

lemma search_first_suffix:
  "search_first_avp st flags name None = Some l \<Longrightarrow> suffix l (crt_list st)"
  by (auto simp: search_first_avp_def crt_list_def search_ID_suffix search_name_suffix
      split: option.splits if_splits int_str.splits)

lemma length_unlink: "avp \<in> set l \<Longrightarrow> length (unlink_avp (avp_addr avp) l) < length l"
  by (induction l) auto

lemma search_first_destroy:
  assumes "search_first_avp st flags name None = Some (avp # r)"
  shows "length (crt_list (destroy_avp st (avp_addr avp))) < length (crt_list st)"
proof -
  have "avp \<in> set (crt_list st)"
    using search_first_suffix [OF assms] by (auto dest: set_mono_suffix)
  then show ?thesis
    by (cases "crt_avps st") (auto simp: destroy_avp_def crt_list_def length_unlink)
qed

text \<open>The loop of \<open>destroy_avps\<close>: how many pairs were removed.\<close>

function destroy_avps :: "avp_state \<Rightarrow> u16 \<Rightarrow> int_str \<Rightarrow> bool \<Rightarrow> (avp_state \<times> nat) option" where
  "destroy_avps st flags name al =
     (case search_first_avp st flags name None of
        None \<Rightarrow> None
      | Some [] \<Rightarrow> Some (st, 0)
      | Some (avp # _) \<Rightarrow>
          (let st' = destroy_avp st (avp_addr avp)
           in if \<not> al then Some (st', 1)
              else map_option (\<lambda>(s, n). (s, n + 1)) (destroy_avps st' flags name al)))"
  by pat_completeness auto
termination
  by (relation "measure (\<lambda>(st, flags, name, al). length (crt_list st))")
    (auto simp: search_first_destroy)

declare destroy_avps.simps [simp del]

definition destroy_avp_list :: "avp_state \<Rightarrow> nat \<Rightarrow> avp_state" where
  "destroy_avp_list st l = st\<lparr>avp_lists := (avp_lists st)(l := [])\<rparr>"

definition reset_avps :: "avp_state \<Rightarrow> avp_state option" where
  "reset_avps st =
     (case crt_avps st of
        None \<Rightarrow> None
      | Some crt \<Rightarrow>
          (let st' = (if crt \<noteq> global_avps then st\<lparr>crt_avps := Some global_avps\<rparr> else st)
           in Some (destroy_avp_list st' global_avps)))"

definition set_avp_list :: "avp_state \<Rightarrow> nat option \<Rightarrow> (avp_state \<times> nat option) option" where
  "set_avp_list st l =
     (case crt_avps st of
        None \<Rightarrow> None
      | Some crt \<Rightarrow> Some (st\<lparr>crt_avps := l\<rparr>, Some crt))"

section \<open>Global aliases\<close>

record avp_galias =
  ga_alias :: string
  ga_type :: u32
  ga_name :: int_str

definition case_eq :: "string \<Rightarrow> string \<Rightarrow> bool" where
  "case_eq a b \<longleftrightarrow> length a = length b \<and> strncasecmp_eq (length a) a b"

definition galias_clash :: "string \<Rightarrow> u32 \<Rightarrow> int_str \<Rightarrow> avp_galias \<Rightarrow> bool" where
  "galias_clash alias ty name ga \<longleftrightarrow>
     case_eq alias (ga_alias ga) \<or>
     (ty = ga_type ga \<and>
      (case (name, ga_name ga) of
         (S (Some a), S (Some b)) \<Rightarrow> case_eq a b
       | (N n, N m) \<Rightarrow> n = m
       | _ \<Rightarrow> False))"

definition check_avp_galias :: "avp_galias list \<Rightarrow> string \<Rightarrow> u32 \<Rightarrow> int_str \<Rightarrow> int" where
  "check_avp_galias galiases alias ty name =
     (let ty = and ty (ucast AVP_NAME_STR)
      in if list_ex (galias_clash alias ty name) galiases then - 1 else 0)"

text \<open>\<open>mem\<close> says whether all allocations succeed.\<close>

definition add_avp_galias :: "bool \<Rightarrow> avp_galias list \<Rightarrow> string option \<Rightarrow> u32 \<Rightarrow> int_str \<Rightarrow>
    avp_galias list \<times> int" where
  "add_avp_galias mem galiases alias ty name =
     (if and ty (ucast AVP_NAME_STR) \<noteq> 0 \<and> name \<in> {S None, S (Some [])} \<or> alias \<in> {None, Some []}
      then (galiases, - 1)
      else if check_avp_galias galiases (the alias) ty name \<noteq> 0 then (galiases, - 1)
      else if \<not> mem then (galiases, - 1)
      else (\<lparr>ga_alias = the alias, ga_type = and ty (ucast AVP_NAME_STR), ga_name = name\<rparr> # galiases, 0))"

fun lookup_avp_galias :: "avp_galias list \<Rightarrow> string \<Rightarrow> (u32 \<times> int_str) option" where
  "lookup_avp_galias [] alias = None"
| "lookup_avp_galias (ga # r) alias =
     (if case_eq alias (ga_alias ga) then Some (ga_type ga, ga_name ga) else lookup_avp_galias r alias)"

section \<open>Parsing\<close>

definition avp_script_flags :: "u32 \<Rightarrow> u32" where
  "avp_script_flags f = and (push_bit 8 f) 0xff00"

text \<open>\<open>None\<close> stands for the result -1.\<close>

definition parse_avp_name :: "string option \<Rightarrow> (u32 \<times> int_str) option" where
  "parse_avp_name name =
     (if name \<in> {None, Some []} then None
      else
        let s = the name; c = s ! 0
        in case memchr CHR '':'' s of
             None \<Rightarrow> None
           | Some p \<Rightarrow>
               if c \<notin> {CHR ''i'', CHR ''I'', CHR ''s'', CHR ''S''} then None
               else
                 let (ret, flags) = (if p > 1 then str2int (take (p - 1) (drop 1 s)) else (0, 0));
                     rest = drop (p + 1) s
                 in if ret \<noteq> 0 then None
                    else if c \<in> {CHR ''s'', CHR ''S''}
                    then Some (or (ucast AVP_NAME_STR) (avp_script_flags flags), S (Some rest))
                    else let (ret, id) = str2int rest
                         in if ret \<noteq> 0 then None else Some (avp_script_flags flags, N id))"

definition parse_avp_spec :: "avp_galias list \<Rightarrow> string option \<Rightarrow> (u32 \<times> int_str) option" where
  "parse_avp_spec galiases name =
     (if name \<in> {None, Some []} then None
      else case memchr CHR '':'' (the name) of
        None \<Rightarrow> lookup_avp_galias galiases (the name)
      | Some _ \<Rightarrow> parse_avp_name name)"

text \<open>One \<open>alias=name\<close> definition: the alias, the name and the text behind it.\<close>

definition parse_alias_entry :: "string \<Rightarrow> (string \<times> string \<times> string) option" where
  "parse_alias_entry s =
     (let al = takeWhile (\<lambda>c. c \<noteq> CHR '';'' \<and> \<not> isspace c \<and> c \<noteq> CHR ''='') s;
          s1 = drop (length al) s
      in if al = [] \<or> s1 = [] \<or> hd s1 = CHR '';'' then None
         else
           let s2 = dropWhile isspace s1
           in if s2 = [] \<or> hd s2 \<noteq> CHR ''='' then None
              else
                let s3 = dropWhile isspace (tl s2);
                    name = takeWhile (\<lambda>c. c \<noteq> CHR '';'' \<and> \<not> isspace c) s3
                in if name = [] then None
                   else
                     let s4 = dropWhile isspace (drop (length name) s3)
                     in if s4 = [] then Some (al, name, [])
                        else if hd s4 \<noteq> CHR '';'' then None
                        else let s5 = dropWhile isspace (tl s4)
                             in if s5 = [] then None else Some (al, name, s5))"

lemma length_dropWhile_le: "length (dropWhile P xs) \<le> length xs"
  by (induction xs) auto

lemma parse_alias_entry_shorter:
  assumes "parse_alias_entry s = Some (al, name, r)"
  shows "length r < length s"
proof -
  define a where "a = takeWhile (\<lambda>c. c \<noteq> CHR '';'' \<and> \<not> isspace c \<and> c \<noteq> CHR ''='') s"
  define s1 where "s1 = drop (length a) s"
  define s2 where "s2 = dropWhile isspace s1"
  define s3 where "s3 = dropWhile isspace (tl s2)"
  define n where "n = takeWhile (\<lambda>c. c \<noteq> CHR '';'' \<and> \<not> isspace c) s3"
  define s4 where "s4 = dropWhile isspace (drop (length n) s3)"
  define s5 where "s5 = dropWhile isspace (tl s4)"
  have "parse_alias_entry s =
     (if a = [] \<or> s1 = [] \<or> hd s1 = CHR '';'' then None
      else if s2 = [] \<or> hd s2 \<noteq> CHR ''='' then None
      else if n = [] then None
      else if s4 = [] then Some (a, n, [])
      else if hd s4 \<noteq> CHR '';'' then None
      else if s5 = [] then None else Some (a, n, s5))"
    unfolding parse_alias_entry_def Let_def a_def s1_def s2_def s3_def n_def s4_def s5_def ..
  with assms have a: "a \<noteq> []" "s1 \<noteq> []" and r: "r = [] \<or> r = s5" by (auto split: if_splits)
  have le: "length s2 \<le> length s1" "length s3 \<le> length (tl s2)" "length s4 \<le> length (drop (length n) s3)"
      "length s5 \<le> length (tl s4)"
    unfolding s2_def s3_def s4_def s5_def by (rule length_dropWhile_le)+
  have "length s1 < length s" using a by (cases a) (auto simp: s1_def)
  with le r show ?thesis by auto
qed

text \<open>The loop over the definitions; the counter numbers the allocations.\<close>

function galias_str_loop :: "(nat \<Rightarrow> bool) \<Rightarrow> nat \<Rightarrow> avp_galias list \<Rightarrow> string \<Rightarrow> avp_galias list \<times> int" where
  "galias_str_loop mem k galiases s =
     (if s = [] then (galiases, 0)
      else case parse_alias_entry s of
        None \<Rightarrow> (galiases, - 1)
      | Some (al, name, rest) \<Rightarrow>
          (case parse_avp_name (Some name) of
             None \<Rightarrow> (galiases, - 1)
           | Some (ty, aname) \<Rightarrow>
               (let (ga, ret) = add_avp_galias (mem k) galiases (Some al) ty aname
                in if ret \<noteq> 0 then (ga, - 1) else galias_str_loop mem (k + 1) ga rest)))"
  by pat_completeness auto
termination
  by (relation "measure (\<lambda>(mem, k, galiases, s). length s)")
    (auto simp: parse_alias_entry_shorter)

declare galias_str_loop.simps [simp del]

definition add_avp_galias_str :: "(nat \<Rightarrow> bool) \<Rightarrow> avp_galias list \<Rightarrow> string \<Rightarrow> avp_galias list \<times> int" where
  "add_avp_galias_str mem galiases alias_definition =
     galias_str_loop mem 0 galiases (dropWhile isspace alias_definition)"

section \<open>What a search finds\<close>

text \<open>The flags say which member of the union the name is.\<close>

definition flags_agree :: "u16 \<Rightarrow> int_str \<Rightarrow> bool" where
  "flags_agree flags name \<longleftrightarrow> (and flags AVP_NAME_STR \<noteq> 0) = (case name of S _ \<Rightarrow> True | N _ \<Rightarrow> False)"

definition script_match :: "u16 \<Rightarrow> usr_avp \<Rightarrow> bool" where
  "script_match flags avp \<longleftrightarrow>
     (let f = and flags AVP_SCRIPT_MASK in f = 0 \<or> and f (avp_flags avp) \<noteq> 0)"

definition avp_matches :: "u16 \<Rightarrow> int_str \<Rightarrow> usr_avp \<Rightarrow> bool" where
  "avp_matches flags name avp \<longleftrightarrow> script_match flags avp \<and>
     (case name of
        N n \<Rightarrow> n \<noteq> 0 \<and> and (avp_flags avp) AVP_NAME_STR = 0 \<and> avp_id avp = ucast n
      | S s \<Rightarrow> s \<notin> {None, Some []} \<and> and (avp_flags avp) AVP_NAME_STR \<noteq> 0 \<and>
          avp_id avp = compute_ID (the s) \<and>
          (case avp_name avp of None \<Rightarrow> False | Some n \<Rightarrow> case_eq n (the s)))"

lemma search_ID_eq:
  "internal_search_ID_avp l i (and flags AVP_SCRIPT_MASK) =
     dropWhile (\<lambda>avp. \<not> (avp_id avp = i \<and> and (avp_flags avp) AVP_NAME_STR = 0 \<and> script_match flags avp)) l"
  by (induction l) (auto simp: script_match_def Let_def)

lemma search_name_eq:
  "internal_search_name_avp l i name (and flags AVP_SCRIPT_MASK) =
     dropWhile (\<lambda>avp. \<not> (avp_id avp = i \<and> and (avp_flags avp) AVP_NAME_STR \<noteq> 0 \<and> script_match flags avp \<and>
       (case avp_name avp of None \<Rightarrow> False | Some n \<Rightarrow> case_eq n name))) l"
  by (induction l) (auto simp: script_match_def Let_def get_avp_name_def case_eq_def split: option.splits)

lemma search_first_eq:
  assumes "flags_agree flags name" "crt_avps st = Some crt"
  shows "search_first_avp st flags name None = Some (dropWhile (\<lambda>avp. \<not> avp_matches flags name avp) (avp_lists st crt))"
proof (cases name)
  case (N n)
  show ?thesis
  proof (cases "n = 0")
    case True
    then have "avp_matches flags name = (\<lambda>_. False)"
      by (simp add: fun_eq_iff N avp_matches_def)
    then have none: "dropWhile (\<lambda>avp. \<not> avp_matches flags name avp) (avp_lists st crt) = []" by simp
    show ?thesis unfolding none using True N assms by (simp add: search_first_avp_def)
  next
    case False
    then have "avp_matches flags name = (\<lambda>avp. avp_id avp = ucast n \<and> and (avp_flags avp) AVP_NAME_STR = 0 \<and> script_match flags avp)"
      by (auto simp: fun_eq_iff N avp_matches_def)
    with False N assms show ?thesis
      by (simp add: search_first_avp_def flags_agree_def search_ID_eq)
  qed
next
  case (S s)
  show ?thesis
  proof (cases "s \<in> {None, Some []}")
    case True
    then have "avp_matches flags name = (\<lambda>_. False)"
      by (auto simp: fun_eq_iff S avp_matches_def)
    then have none: "dropWhile (\<lambda>avp. \<not> avp_matches flags name avp) (avp_lists st crt) = []" by simp
    show ?thesis unfolding none using True S assms by (auto simp: search_first_avp_def flags_agree_def)
  next
    case False
    then obtain t where t: "s = Some t" "t \<noteq> []" by auto
    then have "avp_matches flags name = (\<lambda>avp. avp_id avp = compute_ID t \<and> and (avp_flags avp) AVP_NAME_STR \<noteq> 0 \<and>
        script_match flags avp \<and> (case avp_name avp of None \<Rightarrow> False | Some n \<Rightarrow> case_eq n t))"
      by (auto simp: fun_eq_iff S avp_matches_def split: option.split)
    with t S assms show ?thesis
      by (simp add: search_first_avp_def flags_agree_def search_name_eq)
  qed
qed

lemma case_eq_refl [simp]: "case_eq a a"
  by (simp add: case_eq_def)

lemma strncasecmp_eq_sym: "length a = length b \<Longrightarrow> strncasecmp_eq n a b = strncasecmp_eq n b a"
proof (induction a b arbitrary: n rule: list_induct2)
  case Nil
  then show ?case by (cases n) simp_all
next
  case (Cons x a y b)
  have "uchar x = 0 \<longleftrightarrow> uchar y = 0" if "tolower x = tolower y"
    using that by (auto simp: tolower_def eq_char_uchar split: if_splits simp del: uchar_inject)
  then show ?case using Cons by (cases n) auto
qed

lemma case_eq_sym: "case_eq a b \<longleftrightarrow> case_eq b a"
  by (auto simp: case_eq_def strncasecmp_eq_sym)


definition sample_avps :: avp_state where
  "sample_avps = \<lparr>avp_lists = (\<lambda>_. []), crt_avps = Some 0\<rparr>"


section \<open>Removing all matching pairs\<close>

lemma unlink_filter:
  assumes "distinct (map avp_addr l)" "x \<in> set l"
  shows "unlink_avp (avp_addr x) l = filter (\<lambda>y. y \<noteq> x) l"
  using assms
proof (induction l)
  case (Cons y l)
  show ?case
  proof (cases "x = y")
    case True
    then have "x \<notin> set l" using Cons.prems (1) by force
    then show ?thesis using True by (auto intro!: filter_True [symmetric])
  next
    case False
    then have "avp_addr y \<noteq> avp_addr x" using Cons.prems by force
    then show ?thesis using Cons False by simp
  qed
qed simp

lemma filter_remove_first:
  assumes "dropWhile (\<lambda>a. \<not> P a) l = x # r" "distinct l"
  shows "P x" "x \<in> set l" "filter (\<lambda>y. \<not> P y) (filter (\<lambda>y. y \<noteq> x) l) = filter (\<lambda>y. \<not> P y) l"
    "length (filter P l) = Suc (length (filter P (filter (\<lambda>y. y \<noteq> x) l)))"
proof -
  show P: "P x" using hd_dropWhile [of "\<lambda>a. \<not> P a" l] assms (1) by simp
  show x: "x \<in> set l" using set_dropWhileD [of x "\<lambda>a. \<not> P a" l] assms (1) by simp
  show "filter (\<lambda>y. \<not> P y) (filter (\<lambda>y. y \<noteq> x) l) = filter (\<lambda>y. \<not> P y) l"
    using P by (auto intro: filter_cong)
  show "length (filter P l) = Suc (length (filter P (filter (\<lambda>y. y \<noteq> x) l)))"
  proof -
    have skip: "filter (\<lambda>y. y \<noteq> x \<and> P y) l = filter P l" if "x \<notin> set l" for l
      using that by (auto intro: filter_cong)
    show ?thesis using x P assms (2) by (induction l) (auto simp: skip)
  qed
qed

text \<open>
  C23. \<open>destroy_avps\<close> with \<open>all\<close> set terminates and removes exactly the pairs of the
  current list that a search with the same flags and name would find, in whatever positions,
  keeps the order of the others, leaves every other list alone and returns the number of
  removed pairs.
\<close>

theorem destroy_avps_all:
  assumes "crt_avps st = Some crt" "flags_agree flags name" "distinct (map avp_addr (avp_lists st crt))"
  shows "destroy_avps st flags name True =
    Some (st\<lparr>avp_lists := (avp_lists st)(crt := filter (\<lambda>a. \<not> avp_matches flags name a) (avp_lists st crt))\<rparr>,
      length (filter (avp_matches flags name) (avp_lists st crt)))"
  using assms
proof (induction "length (filter (avp_matches flags name) (avp_lists st crt))" arbitrary: st)
  case 0
  then have none: "filter (avp_matches flags name) (avp_lists st crt) = []" by simp
  then have first: "dropWhile (\<lambda>a. \<not> avp_matches flags name a) (avp_lists st crt) = []"
    by (simp add: filter_empty_conv)
  have "filter (\<lambda>a. \<not> avp_matches flags name a) (avp_lists st crt) = avp_lists st crt"
    using none by (simp add: filter_empty_conv filter_id_conv)
  then show ?case
    using 0 by (subst destroy_avps.simps) (simp add: search_first_eq first)
next
  case (Suc n)
  let ?P = "avp_matches flags name" and ?l = "avp_lists st crt"
  have "dropWhile (\<lambda>a. \<not> ?P a) ?l \<noteq> []"
  proof
    assume "dropWhile (\<lambda>a. \<not> ?P a) ?l = []"
    then have "filter ?P ?l = []" by (simp add: filter_empty_conv)
    with Suc.hyps (2) show False by simp
  qed
  then obtain x r where x: "dropWhile (\<lambda>a. \<not> ?P a) ?l = x # r" by (cases "dropWhile (\<lambda>a. \<not> ?P a) ?l") auto
  have d: "distinct ?l" using Suc.prems (3) by (rule distinct_map [THEN iffD1, THEN conjunct1])
  note F = filter_remove_first [OF x d]
  define st1 where "st1 = destroy_avp st (avp_addr x)"
  have l1: "avp_lists st1 = (avp_lists st)(crt := filter (\<lambda>y. y \<noteq> x) ?l)" "crt_avps st1 = Some crt"
    using Suc.prems (1,3) F (2) by (simp_all add: st1_def destroy_avp_def unlink_filter)
  have st1: "st1 = st\<lparr>avp_lists := (avp_lists st)(crt := filter (\<lambda>y. y \<noteq> x) ?l)\<rparr>"
    using Suc.prems (1,3) F (2) by (simp add: st1_def destroy_avp_def unlink_filter)
  have "n = length (filter ?P (avp_lists st1 crt))" using Suc.hyps (2) F (4) l1 by simp
  moreover have "distinct (map avp_addr (avp_lists st1 crt))"
    using Suc.prems (3) l1 by (simp add: distinct_map_filter)
  ultimately have "destroy_avps st1 flags name True =
      Some (st1\<lparr>avp_lists := (avp_lists st1)(crt := filter (\<lambda>a. \<not> ?P a) (avp_lists st1 crt))\<rparr>, n)"
    using Suc.hyps (1) [of st1] l1 (2) Suc.prems (2) by simp
  moreover have "destroy_avps st flags name True =
      map_option (\<lambda>(s, n). (s, n + 1)) (destroy_avps st1 flags name True)"
    by (subst destroy_avps.simps) (simp add: search_first_eq Suc.prems x st1_def Let_def)
  ultimately show ?case
    using Suc.hyps (2) F (3) l1 (1) by (simp add: st1)
qed

theorem destroy_avps_all_witness:
  "destroy_avps \<lparr>avp_lists = (\<lambda>_. [\<lparr>avp_addr = 1, avp_id = 5, avp_flags = 0, avp_name = None, avp_val = N 1\<rparr>,
      \<lparr>avp_addr = 2, avp_id = 6, avp_flags = 0, avp_name = None, avp_val = N 2\<rparr>]), crt_avps = Some 0\<rparr> 0 (N 5) True
   = Some (\<lparr>avp_lists = (\<lambda>_. [\<lparr>avp_addr = 1, avp_id = 5, avp_flags = 0, avp_name = None, avp_val = N 1\<rparr>,
      \<lparr>avp_addr = 2, avp_id = 6, avp_flags = 0, avp_name = None, avp_val = N 2\<rparr>])
      (0 := [\<lparr>avp_addr = 2, avp_id = 6, avp_flags = 0, avp_name = None, avp_val = N 2\<rparr>]), crt_avps = Some 0\<rparr>, 1)"
proof -
  let ?a = "\<lparr>avp_addr = 1, avp_id = 5, avp_flags = 0, avp_name = None, avp_val = N 1\<rparr>"
  let ?b = "\<lparr>avp_addr = 2, avp_id = 6, avp_flags = 0, avp_name = None, avp_val = N 2\<rparr>"
  have m: "avp_matches 0 (N 5) ?a" "\<not> avp_matches 0 (N 5) ?b" "flags_agree 0 (N 5)"
    by (simp_all add: avp_matches_def script_match_def flags_agree_def)
  show ?thesis
    using destroy_avps_all [of "\<lparr>avp_lists = (\<lambda>_. [?a, ?b]), crt_avps = Some 0\<rparr>" 0 0 "N 5"] m by simp
qed

section \<open>Aliases are unambiguous\<close>

definition galiases_ok :: "avp_galias list \<Rightarrow> bool" where
  "galiases_ok gs \<longleftrightarrow> sorted_wrt (\<lambda>a b. \<not> galias_clash (ga_alias a) (ga_type a) (ga_name a) b) gs"

lemma add_avp_galias_ok:
  assumes "galiases_ok gs" "add_avp_galias mem gs al ty name = (gs', ret)"
  shows "galiases_ok gs'"
  using assms
  by (auto simp: add_avp_galias_def check_avp_galias_def galiases_ok_def Let_def list_ex_iff split: if_splits)

lemma galias_str_loop_ok: "galiases_ok gs \<Longrightarrow> galiases_ok (fst (galias_str_loop mem k gs s))"
proof (induction mem k gs s rule: galias_str_loop.induct)
  case (1 mem k gs s)
  show ?case
    using 1 add_avp_galias_ok [OF 1(2)]
    by (subst galias_str_loop.simps) (auto split: option.split prod.split)
qed

lemma lookup_own:
  assumes "galiases_ok gs" "ga \<in> set gs"
  shows "lookup_avp_galias gs (ga_alias ga) = Some (ga_type ga, ga_name ga)"
  using assms
proof (induction gs)
  case (Cons g gs)
  then show ?case
    by (auto simp: galiases_ok_def galias_clash_def case_eq_sym [of "ga_alias ga"])
qed simp

text \<open>
  C37. Reading alias definitions keeps the table of global aliases unambiguous: whatever text
  \<open>add_avp_galias_str\<close> is given and whichever allocations fail, no two entries share an
  alias or a pair name, so looking up any registered alias returns its own entry.
\<close>

theorem galiases_unambiguous:
  assumes "galiases_ok gs" "ga \<in> set (fst (add_avp_galias_str mem gs text))"
  shows "galiases_ok (fst (add_avp_galias_str mem gs text)) \<and>
    lookup_avp_galias (fst (add_avp_galias_str mem gs text)) (ga_alias ga) = Some (ga_type ga, ga_name ga)"
  using assms galias_str_loop_ok lookup_own by (simp add: add_avp_galias_str_def)

theorem galiases_unambiguous_witness:
  "lookup_avp_galias (fst (add_avp_galias_str (\<lambda>_. True) [] ''a=i:5; b=s:x'')) ''b'' = Some (1, S (Some ''x''))"
proof -
  have "\<lparr>ga_alias = ''b'', ga_type = 1, ga_name = S (Some ''x'')\<rparr>
      \<in> set (fst (add_avp_galias_str (\<lambda>_. True) [] ''a=i:5; b=s:x''))" by code_simp
  from galiases_unambiguous [OF _ this] show ?thesis by (simp add: galiases_ok_def)
qed

end
