(* ===== verification/Msg.thy ===== *)
theory Msg
  imports Prelude
begin

text \<open>
  The data the message components share: addresses and sockets (\<open>ip_addr.h\<close>), the lumps
  that record pending modifications of a message (\<open>lump_struct.h\<close>) and the fields of
  \<open>struct sip_msg\<close> (\<open>parser/msg_parser.h\<close>) that the modelled code reads or writes.

  A lump is a node with two outgoing chains, \<open>before\<close> and \<open>after\<close>; the chain of
  \<open>next\<close> pointers is a list of lumps.  The union \<open>u\<close> is folded into the operation
  that selects its member.  The value of a \<open>LUMP_ADD\<close> is \<open>None\<close> once it has been
  freed.
\<close>

section \<open>Addresses and sockets\<close>

record ip_addr =
  af :: int
  addr_len :: nat
  addr :: "u8 list"

definition AF_INET :: int where "AF_INET = 2"
definition AF_INET6 :: int where "AF_INET6 = 10"

definition ip_addr_cmp :: "ip_addr \<Rightarrow> ip_addr \<Rightarrow> bool" where
  "ip_addr_cmp ip1 ip2 \<longleftrightarrow>
     af ip1 = af ip2 \<and> take (addr_len ip1) (addr ip1) = take (addr_len ip1) (addr ip2)"

definition PROTO_NONE :: int where "PROTO_NONE = 0"
definition PROTO_UDP :: int where "PROTO_UDP = 1"
definition PROTO_TCP :: int where "PROTO_TCP = 2"
definition PROTO_TLS :: int where "PROTO_TLS = 3"
definition PROTO_SCTP :: int where "PROTO_SCTP = 4"

lemmas proto_defs = PROTO_NONE_def PROTO_UDP_def PROTO_TCP_def PROTO_TLS_def PROTO_SCTP_def

definition SIP_PORT :: u16 where "SIP_PORT = 5060"

record socket_info =
  address :: ip_addr
  address_str :: string
  port_no :: u16
  port_no_str :: string
  proto :: int

record receive_info =
  dst_ip :: ip_addr
  dst_port :: u16
  rcv_proto :: int
  bind_address :: "socket_info option"

section \<open>Lumps\<close>

datatype lump_subst =
    SUBST_NOP
  | SUBST_RCV_IP | SUBST_SND_IP
  | SUBST_RCV_PORT | SUBST_SND_PORT
  | SUBST_RCV_PROTO | SUBST_SND_PROTO
  | SUBST_RCV_ALL | SUBST_SND_ALL

datatype lump_conditions =
    COND_FALSE | COND_TRUE | COND_IF_DIFF_REALMS | COND_IF_DIFF_AF
  | COND_IF_DIFF_PROTO | COND_IF_DIFF_PORT | COND_IF_DIFF_IP | COND_IF_RAND

datatype lump_op =
    LUMP_NOP u32                  \<comment> \<open>\<open>u.offset\<close>\<close>
  | LUMP_DEL u32                  \<comment> \<open>\<open>u.offset\<close>\<close>
  | LUMP_ADD "string option"      \<comment> \<open>\<open>u.value\<close>\<close>
  | LUMP_ADD_SUBST lump_subst     \<comment> \<open>\<open>u.subst\<close>\<close>
  | LUMP_ADD_OPT lump_conditions  \<comment> \<open>\<open>u.cond\<close>\<close>

definition LUMPFLAG_DUPED :: u32 where "LUMPFLAG_DUPED = 1"
definition LUMPFLAG_SHMEM :: u32 where "LUMPFLAG_SHMEM = 2"
definition LUMPFLAG_BRANCH :: u32 where "LUMPFLAG_BRANCH = 4"
definition LUMPFLAG_COND_TRUE :: u32 where "LUMPFLAG_COND_TRUE = 8"

lemmas lumpflag_defs = LUMPFLAG_DUPED_def LUMPFLAG_SHMEM_def LUMPFLAG_BRANCH_def
  LUMPFLAG_COND_TRUE_def

datatype lump = Lump
  (l_type: int)
  (l_op: lump_op)
  (l_len: u32)
  (l_flags: u32)
  (l_before: "lump option")
  (l_after: "lump option")

text \<open>Assignments to single fields.\<close>

fun set_op :: "lump_op \<Rightarrow> lump \<Rightarrow> lump" where
  "set_op op (Lump t _ n f b a) = Lump t op n f b a"

fun set_len :: "u32 \<Rightarrow> lump \<Rightarrow> lump" where
  "set_len n (Lump t op _ f b a) = Lump t op n f b a"

fun set_flags :: "u32 \<Rightarrow> lump \<Rightarrow> lump" where
  "set_flags f (Lump t op n _ b a) = Lump t op n f b a"

fun set_before :: "lump option \<Rightarrow> lump \<Rightarrow> lump" where
  "set_before b (Lump t op n f _ a) = Lump t op n f b a"

fun set_after :: "lump option \<Rightarrow> lump \<Rightarrow> lump" where
  "set_after a (Lump t op n f b _) = Lump t op n f b a"

text \<open>The lumps a traversal along \<open>before\<close>, respectively \<open>after\<close>, visits.\<close>

fun before_chain :: "lump option \<Rightarrow> lump list" where
  "before_chain None = []"
| "before_chain (Some (Lump t op n f b a)) = Lump t op n f b a # before_chain b"

fun after_chain :: "lump option \<Rightarrow> lump list" where
  "after_chain None = []"
| "after_chain (Some (Lump t op n f b a)) = Lump t op n f b a # after_chain a"

lemma set_fields [simp]:
  "l_type (set_op op l) = l_type l" "l_op (set_op op l) = op" "l_len (set_op op l) = l_len l"
  "l_flags (set_op op l) = l_flags l" "l_before (set_op op l) = l_before l"
  "l_after (set_op op l) = l_after l"
  "l_type (set_len n l) = l_type l" "l_op (set_len n l) = l_op l" "l_len (set_len n l) = n"
  "l_flags (set_len n l) = l_flags l" "l_before (set_len n l) = l_before l"
  "l_after (set_len n l) = l_after l"
  "l_type (set_flags f l) = l_type l" "l_op (set_flags f l) = l_op l"
  "l_len (set_flags f l) = l_len l" "l_flags (set_flags f l) = f"
  "l_before (set_flags f l) = l_before l" "l_after (set_flags f l) = l_after l"
  "l_type (set_before b l) = l_type l" "l_op (set_before b l) = l_op l"
  "l_len (set_before b l) = l_len l" "l_flags (set_before b l) = l_flags l"
  "l_before (set_before b l) = b" "l_after (set_before b l) = l_after l"
  "l_type (set_after a l) = l_type l" "l_op (set_after a l) = l_op l"
  "l_len (set_after a l) = l_len l" "l_flags (set_after a l) = l_flags l"
  "l_before (set_after a l) = l_before l" "l_after (set_after a l) = a"
  by (cases l; simp)+

lemma before_chain_Some [simp]: "before_chain (Some l) = l # before_chain (l_before l)"
  by (cases l) simp

lemma after_chain_Some [simp]: "after_chain (Some l) = l # after_chain (l_after l)"
  by (cases l) simp

section \<open>Messages\<close>

text \<open>
  \<open>m_buf\<close> is the received message (\<open>buf\<close>, of length \<open>len\<close>), \<open>m_eoh\<close> the
  offset of the end of the headers when it is known, \<open>m_uri\<close> the request URI of the
  first line and \<open>m_uri_offset\<close> its position, \<open>m_new_uri\<close> its replacement.
\<close>

record sip_msg =
  m_buf :: string
  m_eoh :: "nat option"
  m_uri :: string
  m_uri_offset :: nat
  m_new_uri :: "string option"
  m_parsed_uri_ok :: int
  m_rcv :: receive_info
  m_set_global_address :: string
  m_set_global_port :: string
  m_add_rm :: "lump list"
  m_body_lumps :: "lump list"
  m_flags :: u32

definition m_len :: "sip_msg \<Rightarrow> u32" where
  "m_len msg = of_nat (length (m_buf msg))"

text \<open>A message for examples.\<close>

definition sample_msg :: sip_msg where
  "sample_msg = \<lparr>m_buf = ''INVITE sip:a@b SIP/2.0'', m_eoh = None, m_uri = ''sip:a@b'',
     m_uri_offset = 7, m_new_uri = None, m_parsed_uri_ok = 0,
     m_rcv = \<lparr>dst_ip = \<lparr>af = 2, addr_len = 4, addr = [10, 0, 0, 1]\<rparr>, dst_port = 5060,
              rcv_proto = 1, bind_address = None\<rparr>,
     m_set_global_address = [], m_set_global_port = [],
     m_add_rm = [], m_body_lumps = [], m_flags = 0\<rparr>"

end
