(* ===== verification/Flags.thy ===== *)
theory Flags
  imports Msg
begin

text \<open>
  Message flags and script flags (\<open>flags.c\<close>).  The static variable \<open>sflags\<close> is an
  argument and a result.  The contract of a set of flags is a locale: what setting, resetting
  and testing a mask do to the underlying word.  It is interpreted for the flags of a message
  and of the script here, and for the flags of a branch in \<open>Dset\<close>.
\<close>

section \<open>Operations\<close>

definition MAX_FLAG :: u32 where "MAX_FLAG = 31"

text \<open>\<open>1 << flag\<close>, for a flag of at most \<open>MAX_FLAG\<close>.\<close>

definition flag_bit :: "u32 \<Rightarrow> u32" where
  "flag_bit flag = push_bit (unat flag) 1"

definition setflag :: "sip_msg \<Rightarrow> u32 \<Rightarrow> sip_msg \<times> int" where
  "setflag msg flag = (msg\<lparr>m_flags := or (m_flags msg) (flag_bit flag)\<rparr>, 1)"

definition resetflag :: "sip_msg \<Rightarrow> u32 \<Rightarrow> sip_msg \<times> int" where
  "resetflag msg flag = (msg\<lparr>m_flags := and (m_flags msg) (not (flag_bit flag))\<rparr>, 1)"

definition isflagset :: "sip_msg \<Rightarrow> u32 \<Rightarrow> int" where
  "isflagset msg flag = (if and (m_flags msg) (flag_bit flag) \<noteq> 0 then 1 else - 1)"

definition flag_in_range :: "u32 \<Rightarrow> bool" where
  "flag_in_range flag = (if flag > MAX_FLAG then False else True)"

text \<open>The result code and the new value of \<open>*flag\<close>.\<close>

definition flag_idx2mask :: "s32 \<Rightarrow> int \<times> s32" where
  "flag_idx2mask flag =
     (if sint flag < 0 then (0, 0)
      else if sint flag > 31 then (- 1, flag)
      else (0, push_bit (nat (sint flag)) 1))"

definition fixup_flag :: "u32 \<Rightarrow> u32" where
  "fixup_flag idx = (if idx > MAX_FLAG then 0 else push_bit (unat idx) 1)"

definition setsflag :: "u32 \<Rightarrow> u32 \<Rightarrow> u32 \<times> int" where
  "setsflag sflags msk = (or sflags msk, 1)"

definition resetsflag :: "u32 \<Rightarrow> u32 \<Rightarrow> u32 \<times> int" where
  "resetsflag sflags msk = (and sflags (not msk), 1)"

definition issflagset :: "u32 \<Rightarrow> u32 \<Rightarrow> int" where
  "issflagset sflags msk = (if and sflags msk \<noteq> 0 then 1 else - 1)"

definition getsflags :: "u32 \<Rightarrow> u32" where
  "getsflags sflags = sflags"

section \<open>The contract of a set of flags\<close>

lemma and_or_self: "and (or a m) m = m" for a m :: u32
  by (rule bit_word_eqI) (auto simp: bit_simps)

lemma disjoint_mask:
  fixes m m' :: u32
  assumes "and m m' = 0"
  shows "and m' (not m) = m'"
proof (rule bit_word_eqI)
  fix n assume "n < LENGTH(32)"
  moreover have "\<not> bit (and m m') n" using assms by simp
  ultimately show "bit (and m' (not m)) n = bit m' n" by (auto simp: bit_simps)
qed

locale flag_store =
  fixes ok :: "'s \<Rightarrow> bool"
    and bits :: "'s \<Rightarrow> u32"
    and to_mask :: "'k \<Rightarrow> u32"
    and set_flag :: "'s \<Rightarrow> 'k \<Rightarrow> 's" and reset_flag :: "'s \<Rightarrow> 'k \<Rightarrow> 's"
    and test_flag :: "'s \<Rightarrow> 'k \<Rightarrow> int"
  assumes ok_set: "ok s \<Longrightarrow> ok (set_flag s k)"
    and ok_reset: "ok s \<Longrightarrow> ok (reset_flag s k)"
    and bits_set: "ok s \<Longrightarrow> bits (set_flag s k) = or (bits s) (to_mask k)"
    and bits_reset: "ok s \<Longrightarrow> bits (reset_flag s k) = and (bits s) (not (to_mask k))"
    and test_bits: "ok s \<Longrightarrow> test_flag s k = (if and (bits s) (to_mask k) \<noteq> 0 then 1 else - 1)"
begin

lemma test_set: "ok s \<Longrightarrow> to_mask k \<noteq> 0 \<Longrightarrow> test_flag (set_flag s k) k = 1"
  by (simp add: test_bits ok_set bits_set and_or_self)

lemma test_reset: "ok s \<Longrightarrow> test_flag (reset_flag s k) k = - 1"
  by (simp add: test_bits ok_reset bits_reset ac_simps)

lemma test_other:
  assumes "ok s" "and (to_mask k) (to_mask k') = 0"
  shows "test_flag (set_flag s k) k' = test_flag s k'" "test_flag (reset_flag s k) k' = test_flag s k'"
proof -
  have "and (or (bits s) (to_mask k)) (to_mask k') = and (bits s) (to_mask k')"
    by (simp add: bit.conj_disj_distrib2 assms (2))
  then show "test_flag (set_flag s k) k' = test_flag s k'"
    by (simp add: assms (1) test_bits ok_set bits_set)
  have "and (to_mask k') (not (to_mask k)) = to_mask k'"
    using assms (2) by (rule disjoint_mask)
  then have "and (and (bits s) (not (to_mask k))) (to_mask k') = and (bits s) (to_mask k')"
    by (simp add: ac_simps)
  then show "test_flag (reset_flag s k) k' = test_flag s k'"
    by (simp add: assms (1) test_bits ok_reset bits_reset)
qed

end

interpretation mf: flag_store "\<lambda>_. True" m_flags flag_bit "\<lambda>msg flag. fst (setflag msg flag)"
    "\<lambda>msg flag. fst (resetflag msg flag)" isflagset
  by unfold_locales (simp_all add: setflag_def resetflag_def isflagset_def)

interpretation sf: flag_store "\<lambda>_. True" getsflags "\<lambda>m. m" "\<lambda>s m. fst (setsflag s m)"
    "\<lambda>s m. fst (resetsflag s m)" issflagset
  by unfold_locales (simp_all add: setsflag_def resetsflag_def issflagset_def getsflags_def)

section \<open>Distinct flags are independent\<close>

lemma flag_bit_iff: "flag \<le> MAX_FLAG \<Longrightarrow> bit (flag_bit flag) n \<longleftrightarrow> n = unat flag"
  using unat_mono [of flag "MAX_FLAG + 1"]
  by (auto simp: flag_bit_def MAX_FLAG_def bit_simps word_le_nat_alt)

lemma flag_bit_nonzero: "flag \<le> MAX_FLAG \<Longrightarrow> flag_bit flag \<noteq> 0"
  using flag_bit_iff [of flag "unat flag"] by auto

lemma flag_bit_disjoint:
  "flag \<le> MAX_FLAG \<Longrightarrow> flag' \<le> MAX_FLAG \<Longrightarrow> flag \<noteq> flag' \<Longrightarrow> and (flag_bit flag) (flag_bit flag') = 0"
  by (rule bit_word_eqI) (auto simp: bit_and_iff flag_bit_iff word_unat_eq_iff)

text \<open>
  Message flags behave as 32 independent switches: for flags that \<open>flag_in_range\<close>
  accepts, a flag tests as set after \<open>setflag\<close>, as unset after \<open>resetflag\<close>, and no other
  flag changes.
\<close>

theorem message_flags_independent:
  assumes "flag_in_range f" "flag_in_range g"
  shows "isflagset (fst (setflag msg f)) g = (if g = f then 1 else isflagset msg g) \<and>
    isflagset (fst (resetflag msg f)) g = (if g = f then - 1 else isflagset msg g)"
proof -
  have r: "f \<le> MAX_FLAG" "g \<le> MAX_FLAG"
    using assms by (simp_all add: flag_in_range_def not_less split: if_splits)
  show ?thesis
    using mf.test_set [of f msg] mf.test_reset [of msg f] mf.test_other [of f g msg]
      flag_bit_nonzero [OF r(1)] flag_bit_disjoint [OF r] by auto
qed

theorem message_flags_independent_witness:
  "isflagset (fst (setflag sample_msg 31)) 31 = 1"
  using message_flags_independent [of 31 31] by (simp add: flag_in_range_def MAX_FLAG_def)

end
