(* ===== verification/Qvalue.thy ===== *)
theory Qvalue
  imports Prelude
begin

text \<open>
  The q parameter of a contact (\<open>qvalue.c\<close> and \<open>qvalue.h\<close>): a priority between 0
  and 1 kept as an integer number of thousandths.  \<open>str2q\<close> is the automaton of
  \<open>qvalue.c\<close>, one step per character; \<open>q2str\<close> and \<open>len_q\<close> print a value and
  predict the printed length.
\<close>

section \<open>Definitions\<close>

definition Q_UNSPECIFIED :: int where "Q_UNSPECIFIED = - 1"
definition MAX_Q :: int where "MAX_Q = 1000"
definition MIN_Q :: int where "MIN_Q = 0"

definition E_INVALID_PARAMS :: int where "E_INVALID_PARAMS = - 14"
definition E_Q_INV_CHAR :: int where "E_Q_INV_CHAR = - 15"
definition E_Q_EMPTY :: int where "E_Q_EMPTY = - 16"
definition E_Q_TOO_BIG :: int where "E_Q_TOO_BIG = - 17"
definition E_Q_DEC_MISSING :: int where "E_Q_DEC_MISSING = - 18"

lemmas q_consts = Q_UNSPECIFIED_def MAX_Q_def MIN_Q_def E_INVALID_PARAMS_def E_Q_INV_CHAR_def
  E_Q_EMPTY_def E_Q_TOO_BIG_def E_Q_DEC_MISSING_def

datatype q_state = ST_START | ST_0 | ST_1 | ST_0_PT | ST_1_PT | ST_1_PT_0 | ST_0_PT_N

record q_parse =
  q_val :: int       \<comment> \<open>the caller's \<open>*q\<close>\<close>
  q_digits :: int
  q_order :: int
  q_st :: q_state

text \<open>One iteration of the loop of \<open>str2q\<close>: an error code or the next state.\<close>

definition str2q_step :: "q_parse \<Rightarrow> char \<Rightarrow> int + q_parse" where
  "str2q_step p c =
     (case q_st p of
        ST_START \<Rightarrow>
          (if c = CHR '' '' \<or> c = CHR 0x09 then Inr p
           else if c = CHR ''0'' then Inr (p\<lparr>q_val := 0, q_st := ST_0\<rparr>)
           else if c = CHR ''1'' then Inr (p\<lparr>q_val := 1000, q_st := ST_1\<rparr>)
           else if c = CHR ''.'' then Inr (p\<lparr>q_st := ST_0_PT\<rparr>)
           else Inl E_Q_INV_CHAR)
      | ST_0 \<Rightarrow>
          (if c = CHR ''0'' then Inr p
           else if c = CHR ''.'' then Inr (p\<lparr>q_st := ST_0_PT\<rparr>)
           else if c = CHR ''1'' then Inr (p\<lparr>q_val := 1000, q_st := ST_1\<rparr>)
           else if 50 \<le> uchar c \<and> uchar c \<le> 57 then Inl E_Q_TOO_BIG
           else Inl E_Q_INV_CHAR)
      | ST_1 \<Rightarrow>
          (if c = CHR ''.'' then Inr (p\<lparr>q_st := ST_1_PT\<rparr>)
           else if is_digit c then Inl E_Q_TOO_BIG
           else Inl E_Q_INV_CHAR)
      | ST_0_PT \<Rightarrow>
          (if is_digit c
           then Inr (p\<lparr>q_val := (int (uchar c) - 48) * q_order p,
                       q_order := q_order p div 10, q_st := ST_0_PT_N\<rparr>)
           else Inl E_Q_INV_CHAR)
      | ST_1_PT \<Rightarrow>
          (if c = CHR ''0'' then Inr (p\<lparr>q_st := ST_1_PT_0\<rparr>)
           else if 49 \<le> uchar c \<and> uchar c \<le> 57 then Inl E_Q_TOO_BIG
           else Inl E_Q_INV_CHAR)
      | ST_1_PT_0 \<Rightarrow>
          (if c = CHR ''0'' then Inr p
           else if 49 \<le> uchar c \<and> uchar c \<le> 57 then Inl E_Q_TOO_BIG
           else Inl E_Q_INV_CHAR)
      | ST_0_PT_N \<Rightarrow>
          (if is_digit c
           then Inr (if q_digits p \<le> 3
                     then p\<lparr>q_val := q_val p + (int (uchar c) - 48) * q_order p,
                            q_order := q_order p div 10, q_digits := q_digits p + 1\<rparr>
                     else p)
           else Inl E_Q_INV_CHAR))"

text \<open>The loop; an error leaves \<open>*q\<close> as the last completed iteration left it.\<close>

fun str2q_loop :: "q_parse \<Rightarrow> string \<Rightarrow> int \<times> q_parse" where
  "str2q_loop p [] = (0, p)"
| "str2q_loop p (c # cs) =
     (case str2q_step p c of Inl e \<Rightarrow> (e, p) | Inr p' \<Rightarrow> str2q_loop p' cs)"

text \<open>
  The result code and \<open>*q\<close>, given the value \<open>q\<close> it holds before the call; a null
  \<open>q\<close> or \<open>s\<close> is \<open>None\<close>.
\<close>

definition str2q :: "int option \<Rightarrow> string option \<Rightarrow> int \<times> int option" where
  "str2q q s =
     (case (q, s) of
        (Some q0, Some s0) \<Rightarrow>
          (let (e, p) = str2q_loop \<lparr>q_val = q0, q_digits = 1, q_order = 100, q_st = ST_START\<rparr> s0
           in if e \<noteq> 0 then (e, Some (q_val p))
              else (case q_st p of
                      ST_START \<Rightarrow> (E_Q_EMPTY, Some (q_val p))
                    | ST_0_PT \<Rightarrow> (E_Q_DEC_MISSING, Some (q_val p))
                    | ST_1_PT \<Rightarrow> (E_Q_DEC_MISSING, Some (q_val p))
                    | _ \<Rightarrow> (0, Some (q_val p))))
      | _ \<Rightarrow> (E_INVALID_PARAMS, q))"

definition len_q :: "int \<Rightarrow> nat" where
  "len_q q =
     (if q = Q_UNSPECIFIED then 0
      else if q \<ge> MAX_Q then 1
      else if q \<le> MIN_Q then 1
      else if q mod 100 = 0 then 2 + 1
      else if q mod 10 = 0 then 2 + 2
      else 2 + 3)"

definition q2str :: "int \<Rightarrow> string" where
  "q2str q =
     (if q = Q_UNSPECIFIED then []
      else if q \<ge> MAX_Q then ''1''
      else if q \<le> MIN_Q then ''0''
      else ''0.'' @ [chr (nat (q div 100 + 48))] @
        (let q1 = q mod 100 in
         if q1 = 0 then []
         else [chr (nat (q1 div 10 + 48))] @
           (let q2 = q1 mod 10 in
            if q2 = 0 then [] else [chr (nat (q2 + 48))])))"

section \<open>Specifications\<close>

text \<open>What the automaton knows about \<open>*q\<close> in each of its states.\<close>

definition q_inv :: "q_parse \<Rightarrow> bool" where
  "q_inv p \<longleftrightarrow>
     (case q_st p of
        ST_START \<Rightarrow> q_order p = 100 \<and> q_digits p = 1
      | ST_0 \<Rightarrow> q_val p = 0 \<and> q_order p = 100 \<and> q_digits p = 1
      | ST_0_PT \<Rightarrow> q_order p = 100 \<and> q_digits p = 1
      | ST_0_PT_N \<Rightarrow> 0 \<le> q_val p \<and> 0 \<le> q_order p \<and>
          (q_order p = 10 \<and> q_val p \<le> 900 \<or> q_order p = 1 \<and> q_val p \<le> 990 \<or>
           q_order p = 0 \<and> q_val p \<le> 999)
      | _ \<Rightarrow> q_val p = 1000)"

section \<open>Lemmas\<close>

lemma digit_int_bounds: "is_digit c \<Longrightarrow> 0 \<le> int (uchar c) - 48 \<and> int (uchar c) - 48 \<le> 9"
  by (simp add: is_digit_def)

lemma str2q_step_inv: "q_inv p \<Longrightarrow> str2q_step p c = Inr p' \<Longrightarrow> q_inv p'"
  using digit_int_bounds [of c]
  by (cases "q_st p") (auto simp: str2q_step_def q_inv_def split: if_splits)

lemma str2q_step_error: "str2q_step p c = Inl e \<Longrightarrow> e < 0"
  by (cases "q_st p") (auto simp: str2q_step_def q_consts split: if_splits)

lemma str2q_loop_inv: "q_inv p \<Longrightarrow> str2q_loop p s = (0, p') \<Longrightarrow> q_inv p'"
proof (induction s arbitrary: p)
  case (Cons c s)
  then show ?case
    using str2q_step_inv str2q_step_error by (fastforce split: sum.splits)
qed simp

lemma str2q_loop_append:
  "str2q_loop p (a @ b) =
     (case str2q_loop p a of (e, p') \<Rightarrow> if e \<noteq> 0 then (e, p') else str2q_loop p' b)"
proof (induction a arbitrary: p)
  case (Cons c a)
  then show ?case
    using str2q_step_error [of p c] by (cases "str2q_step p c") (auto split: prod.split)
qed simp

lemma digit_int: "is_digit c \<Longrightarrow> int (uchar c) - 48 = int (digit_val c)"
  by (auto simp: is_digit_def digit_val_def)

lemma str2q_loop_frac_rest:
  "list_all is_digit ds \<Longrightarrow> q_st p = ST_0_PT_N \<Longrightarrow> q_order p = 0 \<Longrightarrow>
     \<exists>p'. str2q_loop p ds = (0, p') \<and> q_val p' = q_val p \<and> q_st p' = ST_0_PT_N"
proof (induction ds arbitrary: p)
  case (Cons c ds)
  then obtain p1 where "str2q_step p c = Inr p1" "q_st p1 = ST_0_PT_N" "q_order p1 = 0"
    "q_val p1 = q_val p"
    by (auto simp: str2q_step_def)
  with Cons show ?case by force
qed simp

lemma str2q_frac_step:
  "is_digit c \<Longrightarrow> str2q_step \<lparr>q_val = v, q_digits = n, q_order = r, q_st = ST_0_PT_N\<rparr> c =
     Inr (if n \<le> 3 then \<lparr>q_val = v + int (digit_val c) * r, q_digits = n + 1, q_order = r div 10,
                          q_st = ST_0_PT_N\<rparr>
          else \<lparr>q_val = v, q_digits = n, q_order = r, q_st = ST_0_PT_N\<rparr>)"
  by (simp add: str2q_step_def digit_int)

lemma str2q_frac_first:
  "is_digit c \<Longrightarrow> str2q_step \<lparr>q_val = v, q_digits = n, q_order = r, q_st = ST_0_PT\<rparr> c =
     Inr \<lparr>q_val = int (digit_val c) * r, q_digits = n, q_order = r div 10, q_st = ST_0_PT_N\<rparr>"
  by (simp add: str2q_step_def digit_int)

lemma digit_val_zero: "digit_val CHR ''0'' = 0"
  by (simp add: digit_val_def char_simps)

lemma str2q_loop_frac:
  assumes "list_all is_digit ds" and "ds \<noteq> []"
  shows "\<exists>p'. str2q_loop \<lparr>q_val = v, q_digits = 1, q_order = 100, q_st = ST_0_PT\<rparr> ds = (0, p') \<and>
    q_st p' = ST_0_PT_N \<and> q_val p' = int (dec_value (take 3 (ds @ ''000'')))"
proof -
  from assms(2) consider a where "ds = [a]" | a b where "ds = [a, b]"
    | a b c rest where "ds = a # b # c # rest"
    by (metis list.exhaust)
  then show ?thesis
  proof cases
    case 3
    let ?p = "\<lparr>q_val = 100 * int (digit_val a) + 10 * int (digit_val b) + int (digit_val c),
      q_digits = 3, q_order = 0, q_st = ST_0_PT_N\<rparr>"
    have "str2q_loop \<lparr>q_val = v, q_digits = 1, q_order = 100, q_st = ST_0_PT\<rparr> ds =
        str2q_loop ?p rest"
      using assms 3 by (simp add: str2q_frac_first str2q_frac_step mult.commute)
    moreover obtain p' where "str2q_loop ?p rest = (0, p')" "q_val p' = q_val ?p"
      "q_st p' = ST_0_PT_N"
      using str2q_loop_frac_rest [of rest ?p] assms 3 by auto
    ultimately show ?thesis
      using 3 by (auto simp: dec_value_def simp del: str2q_loop.simps)
  qed (use assms in \<open>simp_all add: str2q_frac_first str2q_frac_step dec_value_def digit_val_zero
         mult.commute\<close>)
qed

lemma str2q_0_dot:
  assumes "list_all is_digit ds" and "ds \<noteq> []"
  shows "str2q (Some q0) (Some (''0.'' @ ds)) = (0, Some (int (dec_value (take 3 (ds @ ''000'')))))"
proof -
  have "str2q_loop \<lparr>q_val = q0, q_digits = 1, q_order = 100, q_st = ST_START\<rparr> (''0.'' @ ds) =
      str2q_loop \<lparr>q_val = 0, q_digits = 1, q_order = 100, q_st = ST_0_PT\<rparr> ds"
    by (simp add: str2q_step_def)
  with str2q_loop_frac [OF assms, of 0] show ?thesis by (auto simp: str2q_def)
qed

lemma q_digit_chars:
  assumes "0 \<le> d" and "d < 10"
  shows "is_digit (chr (nat (d + 48)))" and "digit_val (chr (nat (d + 48))) = nat d"
proof -
  have "nat (d + 48) = 48 + nat d" and "nat d < 10"
    using assms by (simp_all add: nat_add_distrib)
  then show "is_digit (chr (nat (d + 48)))" and "digit_val (chr (nat (d + 48))) = nat d"
    by (simp_all add: digit_simps)
qed

lemma q2str_fraction:
  assumes "0 < q" and "q < 1000"
  obtains ds where "q2str q = ''0.'' @ ds" and "list_all is_digit ds" and "ds \<noteq> []"
    and "int (dec_value (take 3 (ds @ ''000''))) = q"
proof -
  define a b c where "a = q div 100" and "b = q mod 100 div 10" and "c = q mod 100 mod 10"
  have r: "0 \<le> a" "a < 10" "0 \<le> b" "b < 10" "0 \<le> c" "c < 10"
    using assms by (simp_all add: a_def b_def c_def)
  have q: "q = 100 * a + 10 * b + c"
    by (simp add: a_def b_def c_def)
  define ds where "ds = [chr (nat (a + 48))] @ (if q mod 100 = 0 then []
      else [chr (nat (b + 48))] @ (if c = 0 then [] else [chr (nat (c + 48))]))"
  have "q2str q = ''0.'' @ ds"
    using assms by (simp add: q2str_def q_consts ds_def a_def b_def c_def Let_def)
  moreover have "list_all is_digit ds" and "ds \<noteq> []"
    using r by (simp_all add: ds_def q_digit_chars)
  moreover have "int (dec_value (take 3 (ds @ ''000''))) = q"
  proof (cases "q mod 100 = 0")
    case True
    then have "b = 0" "c = 0" by (simp_all add: b_def c_def)
    with True r q show ?thesis by (simp add: ds_def dec_value_def q_digit_chars digit_val_zero)
  next
    case False
    with r q show ?thesis by (auto simp: ds_def dec_value_def q_digit_chars digit_val_zero)
  qed
  ultimately show thesis by (rule that)
qed

section \<open>Properties\<close>

text \<open>
  Whenever \<open>str2q\<close> succeeds, the value it stores lies between 0 and \<open>MAX_Q\<close>,
  whatever the variable held before the call.
\<close>

theorem str2q_range:
  assumes "str2q (Some q0) (Some s) = (0, q)"
  shows "\<exists>v. q = Some v \<and> MIN_Q \<le> v \<and> v \<le> MAX_Q"
proof -
  let ?p0 = "\<lparr>q_val = q0, q_digits = 1, q_order = 100, q_st = ST_START\<rparr>"
  obtain e p where l: "str2q_loop ?p0 s = (e, p)" by fastforce
  with assms have "e = 0" and st: "q_st p \<notin> {ST_START, ST_0_PT, ST_1_PT}" and q: "q = Some (q_val p)"
    by (auto simp: str2q_def q_consts split: if_splits q_state.splits)
  have "q_inv ?p0" by (simp add: q_inv_def)
  with l \<open>e = 0\<close> have "q_inv p" using str2q_loop_inv by blast
  with st q show ?thesis by (cases "q_st p") (auto simp: q_inv_def q_consts)
qed

theorem str2q_range_witness:
  "str2q (Some 7) (Some ''0.25'') = (0, Some 250) \<and> MIN_Q \<le> 250 \<and> 250 \<le> MAX_Q"
proof -
  have "str2q (Some 7) (Some ''0.25'') = (0, Some 250)" by code_simp
  with str2q_range [OF this] show ?thesis by simp
qed

text \<open>
  C2. A fraction is truncated to three decimals: for any non-empty digit string \<open>ds\<close>,
  \<open>str2q\<close> reads \<open>0.ds\<close> as the number of thousandths given by its first three digits,
  padded with zeros.
\<close>

theorem str2q_truncates:
  assumes "list_all is_digit ds" and "ds \<noteq> []"
  shows "str2q (Some q0) (Some (''0.'' @ ds)) = (0, Some (int (dec_value (take 3 (ds @ ''000'')))))"
  using assms by (rule str2q_0_dot)

theorem str2q_truncates_witness:
  "list_all is_digit ''56789'' \<and> str2q (Some 0) (Some ''0.56789'') = (0, Some 567)"
proof -
  have d: "list_all is_digit ''56789''" by code_simp
  have "dec_value (take 3 (''56789'' @ ''000'')) = 567" by code_simp
  with d str2q_truncates [OF d, of 0] show ?thesis by simp
qed

lemma length_q2str: "len_q q = length (q2str q) \<and> length (q2str q) + 1 \<le> 6"
proof -
  have "q mod 100 mod 10 = q mod 10" by (simp add: mod_mod_cancel)
  moreover have "q mod 100 = 0 \<Longrightarrow> q mod 10 = 0" by presburger
  ultimately show ?thesis by (auto simp: len_q_def q2str_def Let_def)
qed

text \<open>
  C36. Printing a q value and parsing the result gives the value back, clamped to the range
  from 0 to \<open>MAX_Q\<close>; the printed length is the one \<open>len_q\<close> predicts, and with its
  terminating NUL it fits the six-byte buffer.
\<close>

theorem q2str_str2q:
  assumes "q \<noteq> Q_UNSPECIFIED"
  shows "str2q (Some q0) (Some (q2str q)) = (0, Some (max MIN_Q (min MAX_Q q))) \<and>
    len_q q = length (q2str q) \<and> length (q2str q) + 1 \<le> 6"
proof -
  have len: "len_q q = length (q2str q) \<and> length (q2str q) + 1 \<le> 6"
    by (rule length_q2str)
  consider "q \<le> 0" | "0 < q" "q < 1000" | "1000 \<le> q" by linarith
  then have "str2q (Some q0) (Some (q2str q)) = (0, Some (max MIN_Q (min MAX_Q q)))"
  proof cases
    case 2
    then obtain ds where s: "q2str q = ''0.'' @ ds" and ds: "list_all is_digit ds" "ds \<noteq> []"
      and v: "int (dec_value (take 3 (ds @ ''000''))) = q" by (rule q2str_fraction)
    from str2q_0_dot [OF ds, of q0] have "str2q (Some q0) (Some (q2str q)) = (0, Some q)"
      unfolding s v .
    with 2 show ?thesis by (simp add: q_consts)
  qed (use assms in \<open>simp_all add: q2str_def q_consts str2q_def str2q_step_def\<close>)
  with len show ?thesis by simp
qed

theorem q2str_str2q_witness:
  "(640 :: int) \<noteq> Q_UNSPECIFIED \<and> str2q (Some 0) (Some (q2str 640)) = (0, Some 640)"
  using q2str_str2q [of 640 0] by (simp add: q_consts)

end
