(* ===== verification/Dset.thy ===== *)
theory Dset
  imports Flags Qvalue
begin

text \<open>
  The destination set (\<open>dset.c\<close>): the additional branches of a request, their flags and
  the Contact header that lists them in a redirect.  The static variables of the file are a
  record; the array of branches always has \<open>MAX_BRANCHES - 1\<close> slots, of which the first
  \<open>nr_branches\<close> are in use.  The character arrays of a branch are strings of the stored
  length.
\<close>

section \<open>State\<close>

definition MAX_URI_SIZE :: nat where "MAX_URI_SIZE = 1024"
definition MAX_PATH_SIZE :: nat where "MAX_PATH_SIZE = 255"
definition MAX_BRANCHES :: nat where "MAX_BRANCHES = 12"
definition MAX_REDIRECTION_LEN :: nat where "MAX_REDIRECTION_LEN = 512"

definition CONTACT :: string where "CONTACT = ''Contact: ''"
definition CONTACT_DELIM :: string where "CONTACT_DELIM = '', ''"
definition Q_PARAM :: string where "Q_PARAM = ''>;q=''"
definition CRLF :: string where "CRLF = [CHR 0x0D, CHR 0x0A]"

record branch =
  b_uri :: string
  b_dst_uri :: string
  b_path :: string
  b_q :: int
  b_force_send_socket :: "socket_info option"
  b_flags :: u32

record dset_state =
  branches :: "branch list"
  nr_branches :: u32
  ruri_q :: int
  ruri_bflags :: u32

section \<open>Branch flags\<close>

text \<open>\<open>get_ptr_bflags\<close> reads or updates through the pointer it returns, \<open>None\<close> for a null
  pointer.\<close>

definition get_bflags :: "dset_state \<Rightarrow> u32 \<Rightarrow> u32 option" where
  "get_bflags st b_idx =
     (if b_idx = 0 then Some (ruri_bflags st)
      else if b_idx - 1 < nr_branches st then Some (b_flags (branches st ! unat (b_idx - 1)))
      else None)"

definition put_bflags :: "dset_state \<Rightarrow> u32 \<Rightarrow> u32 \<Rightarrow> dset_state" where
  "put_bflags st b_idx f =
     (if b_idx = 0 then st\<lparr>ruri_bflags := f\<rparr>
      else let i = unat (b_idx - 1)
           in st\<lparr>branches := (branches st)[i := (branches st ! i)\<lparr>b_flags := f\<rparr>]\<rparr>)"

definition getb0flags :: "dset_state \<Rightarrow> u32" where
  "getb0flags st = ruri_bflags st"

definition setb0flags :: "dset_state \<Rightarrow> u32 \<Rightarrow> dset_state \<times> u32" where
  "setb0flags st f = (st\<lparr>ruri_bflags := f\<rparr>, 0)"

definition setbflag :: "dset_state \<Rightarrow> u32 \<Rightarrow> u32 \<Rightarrow> dset_state \<times> int" where
  "setbflag st b_idx msk =
     (case get_bflags st b_idx of
        None \<Rightarrow> (st, - 1)
      | Some f \<Rightarrow> (put_bflags st b_idx (or f msk), 1))"

definition isbflagset :: "dset_state \<Rightarrow> u32 \<Rightarrow> u32 \<Rightarrow> int" where
  "isbflagset st b_idx msk =
     (case get_bflags st b_idx of
        None \<Rightarrow> - 1
      | Some f \<Rightarrow> if and f msk \<noteq> 0 then 1 else - 1)"

definition resetbflag :: "dset_state \<Rightarrow> u32 \<Rightarrow> u32 \<Rightarrow> dset_state \<times> int" where
  "resetbflag st b_idx msk =
     (case get_bflags st b_idx of
        None \<Rightarrow> (st, - 1)
      | Some f \<Rightarrow> (put_bflags st b_idx (and f (not msk)), 1))"

section \<open>Branches\<close>

text \<open>What \<open>get_branch\<close> stores through its pointers.\<close>

record branch_out =
  o_len :: int
  o_q :: int
  o_dst_uri :: "string option"
  o_path :: "string option"
  o_flags :: u32
  o_force_socket :: "socket_info option"

definition nonempty :: "string \<Rightarrow> string option" where
  "nonempty s = (if s = [] then None else Some s)"

text \<open>The URI, or \<open>None\<close> for 0, and the stored values; \<open>old\<close> holds the caller's variables.\<close>

definition get_branch :: "dset_state \<Rightarrow> u32 \<Rightarrow> branch_out \<Rightarrow> string option \<times> branch_out" where
  "get_branch st idx old =
     (if idx < nr_branches st
      then let b = branches st ! unat idx
           in (Some (b_uri b),
               \<lparr>o_len = int (length (b_uri b)), o_q = b_q b, o_dst_uri = nonempty (b_dst_uri b),
                o_path = nonempty (b_path b), o_flags = b_flags b,
                o_force_socket = b_force_send_socket b\<rparr>)
      else (None, old\<lparr>o_len := 0, o_q := Q_UNSPECIFIED, o_dst_uri := None, o_flags := 0,
                      o_force_socket := None\<rparr>))"

definition clear_branches :: "dset_state \<Rightarrow> dset_state" where
  "clear_branches st = st\<lparr>nr_branches := 0, ruri_q := Q_UNSPECIFIED, ruri_bflags := 0\<rparr>"

text \<open>An assignment to members of \<open>branches[nr_branches]\<close>.\<close>

definition upd_slot :: "dset_state \<Rightarrow> (branch \<Rightarrow> branch) \<Rightarrow> dset_state" where
  "upd_slot st f =
     (let i = unat (nr_branches st) in st\<lparr>branches := (branches st)[i := f (branches st ! i)]\<rparr>)"

text \<open>A \<open>str\<close> argument that is a null pointer, empty, or has a null buffer is \<open>None\<close> or
  \<open>Some []\<close>.\<close>

definition append_branch :: "dset_state \<Rightarrow> sip_msg \<Rightarrow> string option \<Rightarrow> string option \<Rightarrow> string option \<Rightarrow>
    int \<Rightarrow> u32 \<Rightarrow> socket_info option \<Rightarrow> dset_state \<times> int" where
  "append_branch st msg uri dst_uri path q fl sock =
     (if unat (nr_branches st) = MAX_BRANCHES - 1 then (st, - 1)
      else
        let luri = (case uri of
                      None \<Rightarrow> (case m_new_uri msg of Some u \<Rightarrow> u | None \<Rightarrow> m_uri msg)
                    | Some u \<Rightarrow> if u = [] then (case m_new_uri msg of Some u \<Rightarrow> u | None \<Rightarrow> m_uri msg)
                                else u);
            dst = (case dst_uri of None \<Rightarrow> [] | Some d \<Rightarrow> d);
            pth = (case path of None \<Rightarrow> [] | Some p \<Rightarrow> p)
        in if length luri > MAX_URI_SIZE - 1 then (st, - 1)
           else if length dst > MAX_URI_SIZE - 1 then (st, - 1)
           else
             let st1 = upd_slot st (b_dst_uri_update (\<lambda>_. dst))
             in if length pth > MAX_PATH_SIZE - 1 then (st1, - 1)
                else
                  let st2 = upd_slot st1 (\<lambda>b. b\<lparr>b_path := pth, b_uri := luri, b_q := q,
                              b_force_send_socket := sock, b_flags := fl\<rparr>)
                  in (st2\<lparr>nr_branches := nr_branches st2 + 1\<rparr>, 1))"

section \<open>The Contact header of a redirect\<close>

definition no_out :: branch_out where
  "no_out = \<lparr>o_len = 0, o_q = 0, o_dst_uri = None, o_path = None, o_flags = 0, o_force_socket = None\<rparr>"

definition q_len :: "int \<Rightarrow> nat" where
  "q_len q = (if q \<noteq> Q_UNSPECIFIED then 1 + length Q_PARAM + len_q q else 0)"

definition print_contact :: "string \<Rightarrow> int \<Rightarrow> string" where
  "print_contact uri q =
     (if q \<noteq> Q_UNSPECIFIED then ''<'' else []) @ uri @
     (if q \<noteq> Q_UNSPECIFIED then Q_PARAM @ q2str q else [])"

text \<open>The first loop of \<open>print_dset\<close>: it counts the branches and their printed length.\<close>

function dset_len_loop :: "dset_state \<Rightarrow> u32 \<Rightarrow> nat \<Rightarrow> nat \<Rightarrow> nat \<times> nat" where
  "dset_len_loop st idx cnt len =
     (case get_branch st idx no_out of
        (None, _) \<Rightarrow> (cnt, len)
      | (Some uri, out) \<Rightarrow> dset_len_loop st (idx + 1) (cnt + 1) (len + length uri + q_len (o_q out)))"
  by pat_completeness auto

lemma get_branch_Some_less:
  "get_branch st idx out = (Some uri, out') \<Longrightarrow> idx < nr_branches st"
  by (auto simp: get_branch_def split: if_splits)

lemma branches_left_less:
  assumes "get_branch st idx out = (Some uri, out')"
  shows "unat (nr_branches st) - unat (idx + 1) < unat (nr_branches st) - unat idx"
proof -
  have less: "unat idx < unat (nr_branches st)"
    using get_branch_Some_less [OF assms] by (simp add: word_less_nat_alt)
  moreover have "unat (nr_branches st) < 2 ^ 32"
    using unsigned_less [of "nr_branches st", where 'a = nat] by simp
  ultimately have "unat (idx + 1) = unat idx + 1"
    by (simp add: unat_word_ariths)
  with less show ?thesis by simp
qed

termination dset_len_loop
  by (relation "measure (\<lambda>(st, idx, cnt, len). unat (nr_branches st) - unat idx)")
    (auto intro: branches_left_less [OF sym])

text \<open>The second loop: it writes them, with a delimiter before all but the first.\<close>

function dset_print_loop :: "dset_state \<Rightarrow> u32 \<Rightarrow> nat \<Rightarrow> string" where
  "dset_print_loop st idx i =
     (case get_branch st idx no_out of
        (None, _) \<Rightarrow> []
      | (Some uri, out) \<Rightarrow> (if i \<noteq> 0 then CONTACT_DELIM else []) @ print_contact uri (o_q out) @
          dset_print_loop st (idx + 1) (i + 1))"
  by pat_completeness auto

termination dset_print_loop
  by (relation "measure (\<lambda>(st, idx, i). unat (nr_branches st) - unat idx)")
    (auto intro: branches_left_less [OF sym])

declare dset_len_loop.simps [simp del] dset_print_loop.simps [simp del]

text \<open>The value stored in \<open>*len\<close> and, unless 0 is returned, the bytes written to the static
  buffer.\<close>

definition print_dset :: "dset_state \<Rightarrow> sip_msg \<Rightarrow> nat \<times> string option" where
  "print_dset st msg =
     (let (cnt0, len0) = (case m_new_uri msg of
            Some u \<Rightarrow> (1, length u + q_len (ruri_q st)) | None \<Rightarrow> (0, 0));
          (cnt, len1) = dset_len_loop st 0 cnt0 len0
      in if cnt = 0 then (len1, None)
         else let len = len1 + length CONTACT + length CRLF + (cnt - 1) * length CONTACT_DELIM
              in if len + 1 > MAX_REDIRECTION_LEN then (len, None)
                 else (len, Some (CONTACT @
                        (case m_new_uri msg of Some u \<Rightarrow> print_contact u (ruri_q st) | None \<Rightarrow> []) @
                        dset_print_loop st 0 (case m_new_uri msg of Some _ \<Rightarrow> 1 | None \<Rightarrow> 0) @
                        CRLF @ '' '')))"

section \<open>The request URI\<close>

definition set_ruri_q :: "dset_state \<Rightarrow> int \<Rightarrow> dset_state" where
  "set_ruri_q st q = st\<lparr>ruri_q := q\<rparr>"

definition get_ruri_q :: "dset_state \<Rightarrow> int" where
  "get_ruri_q st = ruri_q st"

definition get_request_uri :: "sip_msg \<Rightarrow> string" where
  "get_request_uri msg = (case m_new_uri msg of Some u \<Rightarrow> u | None \<Rightarrow> m_uri msg)"

definition rewrite_uri :: "bool \<Rightarrow> sip_msg \<Rightarrow> string \<Rightarrow> sip_msg \<times> int" where
  "rewrite_uri mem msg s =
     (if \<not> mem then (msg, - 1) else (msg\<lparr>m_parsed_uri_ok := 0, m_new_uri := Some s\<rparr>, 1))"

definition branch_uri2dset :: "dset_state \<Rightarrow> string \<Rightarrow> dset_state \<times> int" where
  "branch_uri2dset st new_uri =
     (if length new_uri + 1 > MAX_URI_SIZE then (st, - 1)
      else (st\<lparr>branches :=
                 map (\<lambda>b. b\<lparr>b_dst_uri := b_uri b, b_uri := new_uri\<rparr>)
                   (take (unat (nr_branches st)) (branches st)) @
                 drop (unat (nr_branches st)) (branches st)\<rparr>, 0))"

section \<open>The abstract destination set\<close>

text \<open>A list of branches of bounded length with bounded strings.\<close>

definition used :: "dset_state \<Rightarrow> branch list" where
  "used st = take (unat (nr_branches st)) (branches st)"

definition branch_ok :: "branch \<Rightarrow> bool" where
  "branch_ok b \<longleftrightarrow> length (b_uri b) < MAX_URI_SIZE \<and> length (b_dst_uri b) < MAX_URI_SIZE \<and>
     length (b_path b) < MAX_PATH_SIZE"

definition dset_ok :: "dset_state \<Rightarrow> bool" where
  "dset_ok st \<longleftrightarrow> length (branches st) = MAX_BRANCHES - 1 \<and>
     unat (nr_branches st) \<le> MAX_BRANCHES - 1 \<and> list_all branch_ok (used st)"

definition spec_uri :: "sip_msg \<Rightarrow> string option \<Rightarrow> string" where
  "spec_uri msg uri = (if uri \<in> {None, Some []} then get_request_uri msg else the uri)"

definition str_or_empty :: "string option \<Rightarrow> string" where
  "str_or_empty s = (case s of None \<Rightarrow> [] | Some t \<Rightarrow> t)"

lemmas dset_consts = MAX_URI_SIZE_def MAX_PATH_SIZE_def MAX_BRANCHES_def MAX_REDIRECTION_LEN_def

lemma length_used: "dset_ok st \<Longrightarrow> length (used st) = unat (nr_branches st)"
  by (simp add: dset_ok_def used_def)

lemma used_nth: "dset_ok st \<Longrightarrow> i < unat (nr_branches st) \<Longrightarrow> used st ! i = branches st ! i"
  by (simp add: used_def)

lemma used_upd_slot: "used (upd_slot st f) = used st"
  by (simp add: used_def upd_slot_def Let_def)

lemma dset_ok_upd_slot: "dset_ok st \<Longrightarrow> dset_ok (upd_slot st f)"
  unfolding dset_ok_def used_upd_slot by (simp add: upd_slot_def Let_def)

text \<open>The successful end of \<open>append_branch\<close>.\<close>

lemma upd_slot_twice:
  assumes "unat (nr_branches st) < length (branches st)"
  shows "upd_slot (upd_slot st f) g = upd_slot st (g \<circ> f)"
  using assms by (simp add: upd_slot_def Let_def)

lemma used_append:
  assumes "dset_ok st" "unat (nr_branches st) \<noteq> MAX_BRANCHES - 1"
  shows "used ((upd_slot st f)\<lparr>nr_branches := nr_branches (upd_slot st f) + 1\<rparr>) =
    used st @ [f (branches st ! unat (nr_branches st))]"
proof -
  let ?n = "unat (nr_branches st)"
  have n: "?n < length (branches st)" "unat (nr_branches st + 1) = ?n + 1"
    using assms by (auto simp: dset_ok_def dset_consts unat_word_ariths)
  then show ?thesis
    by (simp add: used_def upd_slot_def Let_def take_Suc_conv_app_nth)
qed

text \<open>
  C10. The destination set refines a list of branches.  \<open>append_branch\<close> keeps the invariant
  (at most 11 branches, every stored string shorter than its array).  It refuses, with the
  list unchanged, when 11 branches are stored or a string does not fit, and otherwise appends
  exactly the requested branch, whose URI is the argument or, failing that, the current
  request URI.
\<close>

theorem append_branch_refines:
  assumes "dset_ok st"
  shows "let (st', r) = append_branch st msg uri dst_uri path q fl sock;
             b = \<lparr>b_uri = spec_uri msg uri, b_dst_uri = str_or_empty dst_uri,
                  b_path = str_or_empty path, b_q = q, b_force_send_socket = sock, b_flags = fl\<rparr>
    in dset_ok st' \<and> ruri_q st' = ruri_q st \<and> ruri_bflags st' = ruri_bflags st \<and>
       (if length (used st) < MAX_BRANCHES - 1 \<and> branch_ok b
        then r = 1 \<and> used st' = used st @ [b] else r = - 1 \<and> used st' = used st)"
proof (cases "unat (nr_branches st) = MAX_BRANCHES - 1")
  case True
  with assms show ?thesis by (simp add: append_branch_def length_used)
next
  case False
  define luri where "luri = spec_uri msg uri"
  define dst where "dst = str_or_empty dst_uri"
  define pth where "pth = str_or_empty path"
  define st1 where "st1 = upd_slot st (b_dst_uri_update (\<lambda>_. dst))"
  define g :: "branch \<Rightarrow> branch" where "g = (\<lambda>b. b\<lparr>b_path := pth, b_uri := luri, b_q := q, b_force_send_socket := sock,
    b_flags := fl\<rparr>)"
  define st2 where "st2 = upd_slot st1 g"
  have eq: "append_branch st msg uri dst_uri path q fl sock =
     (if length luri > MAX_URI_SIZE - 1 then (st, - 1)
      else if length dst > MAX_URI_SIZE - 1 then (st, - 1)
      else if length pth > MAX_PATH_SIZE - 1 then (st1, - 1)
      else (st2\<lparr>nr_branches := nr_branches st2 + 1\<rparr>, 1))"
    using False
    by (auto simp: append_branch_def Let_def luri_def dst_def pth_def st1_def st2_def g_def
        spec_uri_def str_or_empty_def get_request_uri_def split: option.split)
  have slot: "unat (nr_branches st) < length (branches st)" "length (used st) < MAX_BRANCHES - 1"
    using assms False by (auto simp: dset_ok_def length_used)
  have st2: "st2 = upd_slot st (g \<circ> b_dst_uri_update (\<lambda>_. dst))"
    unfolding st2_def st1_def by (rule upd_slot_twice [OF slot(1)])
  let ?b = "\<lparr>b_uri = luri, b_dst_uri = dst, b_path = pth, b_q = q, b_force_send_socket = sock, b_flags = fl\<rparr>"
  have "(g \<circ> b_dst_uri_update (\<lambda>_. dst)) b = ?b" for b by (cases b) (simp add: g_def)
  then have used2: "used (st2\<lparr>nr_branches := nr_branches st2 + 1\<rparr>) = used st @ [?b]"
    unfolding st2 using used_append [OF assms False] by simp
  have "unat (nr_branches st + 1) \<le> MAX_BRANCHES - 1"
    using assms False by (auto simp: dset_ok_def dset_consts unat_word_ariths)
  then have ok2: "dset_ok (st2\<lparr>nr_branches := nr_branches st2 + 1\<rparr>)" if "branch_ok ?b"
    using assms that unfolding dset_ok_def used2 by (simp add: st2 upd_slot_def Let_def)
  have okb: "branch_ok ?b \<longleftrightarrow> \<not> length luri > MAX_URI_SIZE - 1 \<and> \<not> length dst > MAX_URI_SIZE - 1 \<and>
      \<not> length pth > MAX_PATH_SIZE - 1"
    by (auto simp: branch_ok_def dset_consts)
  show ?thesis
    unfolding luri_def [symmetric] dst_def [symmetric] pth_def [symmetric] eq Let_def
    using slot (2) ok2 used2 assms dset_ok_upd_slot [OF assms] okb
    by (auto simp: st1_def used_upd_slot) (auto simp: st2 upd_slot_def Let_def)
qed

definition empty_dset :: dset_state where
  "empty_dset = \<lparr>branches = replicate 11 \<lparr>b_uri = [], b_dst_uri = [], b_path = [], b_q = 0,
     b_force_send_socket = None, b_flags = 0\<rparr>, nr_branches = 0, ruri_q = Q_UNSPECIFIED, ruri_bflags = 0\<rparr>"

lemma empty_dset_ok: "dset_ok empty_dset"
  by (simp add: dset_ok_def empty_dset_def used_def dset_consts)

theorem append_branch_refines_witness:
  "used (fst (append_branch empty_dset sample_msg (Some ''sip:a@b'') None None 500 0 None)) =
    [\<lparr>b_uri = ''sip:a@b'', b_dst_uri = [], b_path = [], b_q = 500, b_force_send_socket = None, b_flags = 0\<rparr>]"
  using append_branch_refines [OF empty_dset_ok, of sample_msg "Some ''sip:a@b''" None None 500 0 None]
  by (simp add: Let_def split_beta spec_uri_def str_or_empty_def branch_ok_def dset_consts)
    (simp add: used_def empty_dset_def)

section \<open>Reading the branches\<close>

lemma get_branch_used:
  assumes "dset_ok st"
  shows "get_branch st idx old =
    (if unat idx < length (used st)
     then let b = used st ! unat idx
          in (Some (b_uri b),
              \<lparr>o_len = int (length (b_uri b)), o_q = b_q b, o_dst_uri = nonempty (b_dst_uri b),
               o_path = nonempty (b_path b), o_flags = b_flags b, o_force_socket = b_force_send_socket b\<rparr>)
     else (None, old\<lparr>o_len := 0, o_q := Q_UNSPECIFIED, o_dst_uri := None, o_flags := 0,
                     o_force_socket := None\<rparr>))"
  using assms by (simp add: get_branch_def length_used used_nth word_less_nat_alt)

lemma unat_Suc_less:
  fixes idx n :: u32
  assumes "unat idx < unat n"
  shows "unat (idx + 1) = unat idx + 1"
  using assms unsigned_less [of n, where 'a = nat] by (simp add: unat_word_ariths)

lemma dset_len_loop_eq:
  assumes "dset_ok st"
  shows "dset_len_loop st idx cnt len =
    (cnt + length (drop (unat idx) (used st)),
     len + (\<Sum>b\<leftarrow>drop (unat idx) (used st). length (b_uri b) + q_len (b_q b)))"
proof (induction "length (used st) - unat idx" arbitrary: idx cnt len)
  case 0
  then show ?case using assms by (subst dset_len_loop.simps) (simp add: get_branch_used)
next
  case (Suc n)
  then have less: "unat idx < length (used st)" by simp
  then have s: "unat (idx + 1) = unat idx + 1"
    using unat_Suc_less [of idx "nr_branches st"] assms by (simp add: length_used)
  have "n = length (used st) - unat (idx + 1)" using Suc.hyps (2) s by simp
  from Suc.hyps (1) [OF this] show ?case
    using less s Cons_nth_drop_Suc [OF less, symmetric] assms
    by (subst dset_len_loop.simps) (simp add: get_branch_used Let_def)
qed

text \<open>How contacts are joined.\<close>

fun join :: "string list \<Rightarrow> string" where
  "join [] = []"
| "join [c] = c"
| "join (c # cs) = c @ CONTACT_DELIM @ join cs"

lemma join_Cons: "join (c # cs) = c @ (if cs = [] then [] else CONTACT_DELIM @ join cs)"
  by (cases cs) simp_all

lemma dset_print_loop_eq:
  assumes "dset_ok st"
  shows "dset_print_loop st idx i =
    (let cs = map (\<lambda>b. print_contact (b_uri b) (b_q b)) (drop (unat idx) (used st))
     in if cs = [] then [] else (if i \<noteq> 0 then CONTACT_DELIM else []) @ join cs)"
proof (induction "length (used st) - unat idx" arbitrary: idx i)
  case 0
  then show ?case using assms by (subst dset_print_loop.simps) (simp add: get_branch_used)
next
  case (Suc n)
  then have less: "unat idx < length (used st)" by simp
  then have s: "unat (idx + 1) = unat idx + 1"
    using unat_Suc_less [of idx "nr_branches st"] assms by (simp add: length_used)
  have "n = length (used st) - unat (idx + 1)" using Suc.hyps (2) s by simp
  from Suc.hyps (1) [OF this, of "i + 1"] show ?case
    using less s Cons_nth_drop_Suc [OF less, symmetric] assms
    by (subst dset_print_loop.simps) (simp add: get_branch_used Let_def join_Cons)
qed

text \<open>The contacts a redirect offers.\<close>

definition contacts :: "dset_state \<Rightarrow> sip_msg \<Rightarrow> string list" where
  "contacts st msg =
     (case m_new_uri msg of Some u \<Rightarrow> [print_contact u (ruri_q st)] | None \<Rightarrow> []) @
     map (\<lambda>b. print_contact (b_uri b) (b_q b)) (used st)"

lemma length_join: "cs \<noteq> [] \<Longrightarrow> length (join cs) = (\<Sum>c\<leftarrow>cs. length c) + (length cs - 1) * length CONTACT_DELIM"
  by (induction cs rule: join.induct) simp_all

lemma length_print_contact: "length (print_contact u q) = length u + q_len q"
  using length_q2str [of q] by (simp add: print_contact_def q_len_def)

text \<open>
  C11. The Contact header of a redirect.  \<open>print_dset\<close> lists the rewritten request URI and
  the branches, in order and separated by commas, exactly when there is one and the header
  with its final blank fits the static buffer of 512 bytes; the length it announces is the
  length of the header, and the bytes it writes stay inside the buffer.
\<close>

theorem print_dset_correct:
  assumes "dset_ok st"
  shows "let header = CONTACT @ join (contacts st msg) @ CRLF
    in if contacts st msg = [] \<or> length header \<ge> MAX_REDIRECTION_LEN
       then snd (print_dset st msg) = None
       else print_dset st msg = (length header, Some (header @ '' ''))"
proof (cases "m_new_uri msg")
  case None
  then show ?thesis
    using assms
    by (cases "used st")
      (auto simp: print_dset_def Let_def dset_len_loop_eq dset_print_loop_eq contacts_def
          length_join comp_def length_print_contact MAX_REDIRECTION_LEN_def)
next
  case (Some u)
  then show ?thesis
    using assms
    by (cases "used st")
      (auto simp: print_dset_def Let_def dset_len_loop_eq dset_print_loop_eq contacts_def
          length_join comp_def length_print_contact MAX_REDIRECTION_LEN_def)
qed

theorem print_dset_correct_witness:
  "print_dset (fst (append_branch empty_dset sample_msg (Some ''sip:a@b'') None None 500 0 None))
     (sample_msg\<lparr>m_new_uri := Some ''sip:c@d''\<rparr>) = (35, Some (CONTACT @ ''sip:c@d, <sip:a@b>;q=0.5'' @ CRLF @ '' ''))"
proof -
  let ?st = "fst (append_branch empty_dset sample_msg (Some ''sip:a@b'') None None 500 0 None)"
  have head: "take (Suc 0) (xs[0 := b]) = [b]" if "xs \<noteq> []" for xs and b :: branch
    using that by (cases xs) simp_all
  have used: "used ?st = [\<lparr>b_uri = ''sip:a@b'', b_dst_uri = [], b_path = [], b_q = 500,
      b_force_send_socket = None, b_flags = 0\<rparr>]" and q: "ruri_q ?st = Q_UNSPECIFIED"
    by (simp_all add: append_branch_def empty_dset_def used_def upd_slot_def Let_def dset_consts head)
  have ok: "dset_ok ?st"
    by (simp add: dset_ok_def used branch_ok_def dset_consts)
      (simp add: append_branch_def empty_dset_def upd_slot_def Let_def dset_consts)
  have "q2str 500 = ''0.5''" by code_simp
  then have c: "join (contacts ?st (sample_msg\<lparr>m_new_uri := Some ''sip:c@d''\<rparr>)) = ''sip:c@d, <sip:a@b>;q=0.5''"
    by (simp add: contacts_def used q print_contact_def Q_UNSPECIFIED_def CONTACT_DELIM_def Q_PARAM_def)
  have ne: "contacts ?st (sample_msg\<lparr>m_new_uri := Some ''sip:c@d''\<rparr>) \<noteq> []"
    by (simp add: contacts_def)
  show ?thesis
    using print_dset_correct [OF ok, of "sample_msg\<lparr>m_new_uri := Some ''sip:c@d''\<rparr>"] c ne
    by (simp add: Let_def CONTACT_def CRLF_def MAX_REDIRECTION_LEN_def)
qed

section \<open>Flags of a branch\<close>

lemma get_put_bflags:
  assumes "get_bflags st b \<noteq> None" "dset_ok st"
  shows "get_bflags (put_bflags st b f) c = (if c = b then Some f else get_bflags st c)"
proof -
  have "unat (b - 1) < length (branches st)" if "b \<noteq> 0"
    using assms that by (auto simp: get_bflags_def dset_ok_def word_less_nat_alt split: if_splits)
  moreover have "unat (c - 1) \<noteq> unat (b - 1)" if "c \<noteq> b"
    using that by (simp add: word_unat_eq_iff [symmetric])
  ultimately show ?thesis
    using assms (1) by (auto simp: get_bflags_def put_bflags_def Let_def split: if_splits)
qed

lemma dset_ok_put:
  assumes "dset_ok st" "get_bflags st b \<noteq> None"
  shows "dset_ok (put_bflags st b f)"
proof (cases "b = 0")
  case True
  then show ?thesis using assms by (simp add: put_bflags_def dset_ok_def used_def)
next
  case False
  let ?i = "unat (b - 1)"
  have i: "?i < length (used st)"
    using assms False by (auto simp: get_bflags_def length_used word_less_nat_alt split: if_splits)
  have "used (put_bflags st b f) = (used st)[?i := (used st ! ?i)\<lparr>b_flags := f\<rparr>]"
    using False i assms (1) used_nth [OF assms (1)]
    by (simp add: put_bflags_def Let_def used_def take_update_swap length_used)
  moreover have "branch_ok (used st ! ?i)" using assms (1) i by (auto simp: dset_ok_def list_all_length)
  ultimately show ?thesis
    using assms (1) False i
    by (auto simp: dset_ok_def list_all_length nth_list_update branch_ok_def put_bflags_def Let_def)
qed

definition valid_branch :: "u32 \<Rightarrow> dset_state \<Rightarrow> bool" where
  "valid_branch b st \<longleftrightarrow> dset_ok st \<and> get_bflags st b \<noteq> None"

interpretation bf: flag_store "valid_branch b" "\<lambda>st. the (get_bflags st b)" "\<lambda>m. m"
    "\<lambda>st m. fst (setbflag st b m)" "\<lambda>st m. fst (resetbflag st b m)" "\<lambda>st m. isbflagset st b m" for b
  by unfold_locales
    (auto simp: valid_branch_def setbflag_def resetbflag_def isbflagset_def get_put_bflags dset_ok_put
      split: option.splits)

text \<open>
  Branch flags are kept per branch: on an existing branch (0 is the request URI),
  \<open>setbflag\<close> makes every flag of its mask test as set, \<open>resetbflag\<close> makes them test as
  unset, masks without a common bit are not affected, and neither is any other branch.  A
  branch that does not exist is refused and nothing changes.
\<close>

theorem branch_flags_independent:
  assumes "dset_ok st"
  shows "if get_bflags st b = None
    then setbflag st b m = (st, - 1) \<and> resetbflag st b m = (st, - 1) \<and> isbflagset st b m = - 1
    else snd (setbflag st b m) = 1 \<and> snd (resetbflag st b m) = 1 \<and>
      (m = 0 \<or> isbflagset (fst (setbflag st b m)) b m = 1) \<and>
      isbflagset (fst (resetbflag st b m)) b m = - 1 \<and>
      (and m m' = 0 \<longrightarrow> isbflagset (fst (setbflag st b m)) b m' = isbflagset st b m' \<and>
        isbflagset (fst (resetbflag st b m)) b m' = isbflagset st b m') \<and>
      (c \<noteq> b \<longrightarrow> isbflagset (fst (setbflag st b m)) c m' = isbflagset st c m' \<and>
        isbflagset (fst (resetbflag st b m)) c m' = isbflagset st c m')"
proof (cases "get_bflags st b")
  case None
  then show ?thesis by (simp add: setbflag_def resetbflag_def isbflagset_def)
next
  case (Some f)
  then have v: "valid_branch b st" using assms by (simp add: valid_branch_def)
  have "isbflagset (put_bflags st b g) c m' = isbflagset st c m'" if "c \<noteq> b" for g
    using get_put_bflags [of st b g c] Some assms that by (simp add: isbflagset_def)
  then show ?thesis
    using Some bf.test_set [OF v, of m] bf.test_reset [OF v, of m] bf.test_other [OF v, of m m']
    by (auto simp: setbflag_def resetbflag_def)
qed

theorem branch_flags_independent_witness:
  "isbflagset (fst (setbflag empty_dset 0 4)) 0 4 = 1"
  using branch_flags_independent [OF empty_dset_ok, of 0 4 0 0]
  by (simp add: get_bflags_def)

end
