(* ===== verification/DataLumpRpl.thy ===== *)
theory DataLumpRpl
  imports Prelude
begin

text \<open>
  Reply lumps (\<open>data_lump_rpl.c\<close>): the headers and the one body that a reply generated
  for a request will carry.  The list \<open>msg->reply_lump\<close> is a list of records; a record
  carries the address of its block, which \<open>unlink_lump_rpl\<close> compares, and
  \<open>pkg_malloc\<close> is the address it returns, or \<open>None\<close>.
\<close>

section \<open>Reply lumps\<close>

definition LUMP_RPL_HDR :: u32 where "LUMP_RPL_HDR = 2"
definition LUMP_RPL_BODY :: u32 where "LUMP_RPL_BODY = 4"
definition LUMP_RPL_NODUP :: u32 where "LUMP_RPL_NODUP = 8"
definition LUMP_RPL_NOFREE :: u32 where "LUMP_RPL_NOFREE = 16"
definition LUMP_RPL_SHMEM :: u32 where "LUMP_RPL_SHMEM = 32"

record lump_rpl =
  lr_addr :: nat
  lr_text :: "string option"
  lr_flags :: u32

definition has_flag :: "u32 \<Rightarrow> u32 \<Rightarrow> bool" where
  "has_flag fl f \<longleftrightarrow> and fl f \<noteq> 0"

definition bad_rpl_flags :: "u32 \<Rightarrow> bool" where
  "bad_rpl_flags fl \<longleftrightarrow>
     and fl (or LUMP_RPL_HDR LUMP_RPL_BODY) = or LUMP_RPL_HDR LUMP_RPL_BODY \<or>
     and fl (or LUMP_RPL_HDR LUMP_RPL_BODY) = 0 \<or> has_flag fl LUMP_RPL_SHMEM"

text \<open>The result is \<open>None\<close> when the function returns 0; the list is then unchanged.\<close>

definition add_lump_rpl ::
    "nat option \<Rightarrow> lump_rpl list \<Rightarrow> string option \<Rightarrow> u32 \<Rightarrow> lump_rpl list option" where
  "add_lump_rpl mem reply_lump s fl =
     (if bad_rpl_flags fl then None
      else case s of
        None \<Rightarrow> None
      | Some t \<Rightarrow>
          if t = [] then None
          else case mem of
            None \<Rightarrow> None
          | Some a \<Rightarrow>
              (let lump = \<lparr>lr_addr = a, lr_text = Some t, lr_flags = fl\<rparr>
               in if has_flag fl LUMP_RPL_BODY \<and>
                     list_ex (\<lambda>foo. has_flag (lr_flags foo) LUMP_RPL_BODY) reply_lump
                  then None
                  else Some (reply_lump @ [lump])))"

datatype rpl_block = Text string | Rpl nat

definition free_lump_rpl :: "lump_rpl \<Rightarrow> rpl_block list" where
  "free_lump_rpl lump =
     (case lr_text lump of
        Some t \<Rightarrow>
          if \<not> has_flag (lr_flags lump) LUMP_RPL_NOFREE \<and> has_flag (lr_flags lump) LUMP_RPL_NODUP
          then [Text t] else []
      | None \<Rightarrow> []) @ [Rpl (lr_addr lump)]"

fun unlink_lump_rpl :: "lump_rpl list \<Rightarrow> nat \<Rightarrow> lump_rpl list" where
  "unlink_lump_rpl [] lump = []"
| "unlink_lump_rpl (foo # ls) lump =
     (if lr_addr foo = lump then ls else foo # unlink_lump_rpl ls lump)"

fun del_nonshm_lump_rpl :: "lump_rpl list \<Rightarrow> lump_rpl list \<times> rpl_block list" where
  "del_nonshm_lump_rpl [] = ([], [])"
| "del_nonshm_lump_rpl (it # ls) =
     (let (ls', xs) = del_nonshm_lump_rpl ls
      in if \<not> has_flag (lr_flags it) LUMP_RPL_SHMEM then (ls', free_lump_rpl it @ xs)
         else (it # ls', xs))"

section \<open>The invariant of a reply lump list\<close>

text \<open>Every lump is a header or a body, not both, has text, and there is at most one body.\<close>

definition rpl_kind_ok :: "lump_rpl \<Rightarrow> bool" where
  "rpl_kind_ok l \<longleftrightarrow>
     has_flag (lr_flags l) LUMP_RPL_HDR \<noteq> has_flag (lr_flags l) LUMP_RPL_BODY \<and>
     lr_text l \<notin> {None, Some []}"

definition rpl_ok :: "lump_rpl list \<Rightarrow> bool" where
  "rpl_ok ls \<longleftrightarrow> distinct (map lr_addr ls) \<and> list_all rpl_kind_ok ls \<and>
     length (filter (\<lambda>l. has_flag (lr_flags l) LUMP_RPL_BODY) ls) \<le> 1"

lemmas rpl_flag_defs = LUMP_RPL_HDR_def LUMP_RPL_BODY_def LUMP_RPL_NODUP_def
  LUMP_RPL_NOFREE_def LUMP_RPL_SHMEM_def

text \<open>A single-bit mask tests that bit.\<close>

lemma has_flag_bit: "has_flag fl (2 ^ n) \<longleftrightarrow> bit fl n"
  unfolding has_flag_def by (simp add: and_exp_eq_0_iff_not_bit)

lemma has_flag_rpl:
  "has_flag fl LUMP_RPL_HDR \<longleftrightarrow> bit fl 1" "has_flag fl LUMP_RPL_BODY \<longleftrightarrow> bit fl 2"
  "has_flag fl LUMP_RPL_SHMEM \<longleftrightarrow> bit fl 5"
  using has_flag_bit [of fl 1] has_flag_bit [of fl 2] has_flag_bit [of fl 5]
  by (simp_all add: rpl_flag_defs)

lemma bad_rpl_flags_iff:
  "bad_rpl_flags fl \<longleftrightarrow>
     has_flag fl LUMP_RPL_HDR = has_flag fl LUMP_RPL_BODY \<or> has_flag fl LUMP_RPL_SHMEM"
proof -
  have bits: "bit (or LUMP_RPL_HDR LUMP_RPL_BODY) n \<longleftrightarrow> n = 1 \<or> n = 2" for n
  proof -
    have "or LUMP_RPL_HDR LUMP_RPL_BODY = or (2 ^ 1) (2 ^ 2)" by (simp add: rpl_flag_defs)
    moreover have "bit (2 ^ m :: u32) n \<longleftrightarrow> m < 32 \<and> n = m" for m
      by (auto simp: bit_exp_iff possible_bit_word)
    ultimately show ?thesis by (simp only: bit_or_iff) auto
  qed
  let ?m = "or LUMP_RPL_HDR LUMP_RPL_BODY"
  have both: "bit (and fl ?m) n \<longleftrightarrow> bit fl n \<and> (n = 1 \<or> n = 2)" for n
    by (simp add: bit_and_iff bits)
  have "and fl ?m = ?m \<longleftrightarrow> bit fl 1 \<and> bit fl 2"
  proof
    assume "and fl ?m = ?m"
    then show "bit fl 1 \<and> bit fl 2" using both [of 1] both [of 2] bits [of 1] bits [of 2] by simp
  next
    assume "bit fl 1 \<and> bit fl 2"
    then show "and fl ?m = ?m" by (intro bit_word_eqI) (auto simp only: both bits)
  qed
  moreover have "and fl ?m = 0 \<longleftrightarrow> \<not> bit fl 1 \<and> \<not> bit fl 2"
  proof
    assume "and fl ?m = 0"
    then show "\<not> bit fl 1 \<and> \<not> bit fl 2" using both [of 1] both [of 2] by simp
  next
    assume "\<not> bit fl 1 \<and> \<not> bit fl 2"
    then show "and fl ?m = 0" by (intro bit_word_eqI) (auto simp only: both bit_0_eq bot_apply bot_bool_def)
  qed
  ultimately show ?thesis by (auto simp: bad_rpl_flags_def has_flag_rpl)
qed

lemma add_lump_rpl_Some_iff:
  "add_lump_rpl mem rl s fl = Some rl' \<longleftrightarrow>
     (\<exists>a t. mem = Some a \<and> s = Some t \<and> t \<noteq> [] \<and>
        has_flag fl LUMP_RPL_HDR \<noteq> has_flag fl LUMP_RPL_BODY \<and> \<not> has_flag fl LUMP_RPL_SHMEM \<and>
        (has_flag fl LUMP_RPL_BODY \<longrightarrow> filter (\<lambda>l. has_flag (lr_flags l) LUMP_RPL_BODY) rl = []) \<and>
        rl' = rl @ [\<lparr>lr_addr = a, lr_text = Some t, lr_flags = fl\<rparr>])"
  by (auto simp: add_lump_rpl_def bad_rpl_flags_iff Let_def list_ex_iff filter_empty_conv
      split: option.splits if_splits)

lemma unlink_eq_filter:
  "distinct (map lr_addr ls) \<Longrightarrow> unlink_lump_rpl ls a = filter (\<lambda>l. lr_addr l \<noteq> a) ls"
proof (induction ls)
  case (Cons l ls)
  then have "\<forall>x\<in>set ls. lr_addr l \<noteq> lr_addr x" by force
  with Cons show ?case by (auto intro!: filter_True [symmetric])
qed simp

lemma del_nonshm_eq:
  "del_nonshm_lump_rpl ls =
     (filter (\<lambda>l. has_flag (lr_flags l) LUMP_RPL_SHMEM) ls,
      concat (map free_lump_rpl (filter (\<lambda>l. \<not> has_flag (lr_flags l) LUMP_RPL_SHMEM) ls)))"
  by (induction ls) auto

lemma rpl_ok_filter: "rpl_ok ls \<Longrightarrow> rpl_ok (filter P ls)"
proof -
  assume ok: "rpl_ok ls"
  have "length (filter Q (filter P ls)) \<le> length (filter Q ls)" for Q :: "lump_rpl \<Rightarrow> bool"
    by (induction ls) auto
  from this [of "\<lambda>l. has_flag (lr_flags l) LUMP_RPL_BODY"] ok show ?thesis
    unfolding rpl_ok_def by (auto simp: list_all_iff distinct_map_filter)
qed

lemma rpl_ok_add:
  assumes "rpl_ok rl" "add_lump_rpl (Some a) rl s fl = Some rl'" "a \<notin> lr_addr ` set rl"
  shows "rpl_ok rl'"
  using assms
  by (auto simp: rpl_ok_def add_lump_rpl_Some_iff rpl_kind_ok_def)

text \<open>
  C28. The reply lumps of a request always hold at most one body, and every lump is either
  a header or a body with text: \<open>add_lump_rpl\<close> keeps this (its new block being different
  from the live ones) and so do \<open>unlink_lump_rpl\<close> and \<open>del_nonshm_lump_rpl\<close>.  Removing
  the lump just added restores the list.
\<close>

theorem reply_lumps_invariant:
  assumes "rpl_ok rl" "a \<notin> lr_addr ` set rl"
  shows "(case add_lump_rpl (Some a) rl s fl of
            None \<Rightarrow> True
          | Some rl' \<Rightarrow> rpl_ok rl' \<and> unlink_lump_rpl rl' a = rl) \<and>
    rpl_ok (unlink_lump_rpl rl b) \<and> rpl_ok (fst (del_nonshm_lump_rpl rl))"
proof -
  have "rpl_ok rl' \<and> unlink_lump_rpl rl' a = rl" if "add_lump_rpl (Some a) rl s fl = Some rl'" for rl'
  proof -
    have ok: "rpl_ok rl'" using rpl_ok_add [OF assms (1) that assms (2)] .
    then have "unlink_lump_rpl rl' a = filter (\<lambda>l. lr_addr l \<noteq> a) rl'"
      by (intro unlink_eq_filter) (simp add: rpl_ok_def)
    also have "\<dots> = rl"
      using that assms (2) by (auto simp: add_lump_rpl_Some_iff filter_id_conv)
    finally show ?thesis using ok by simp
  qed
  moreover have "unlink_lump_rpl rl b = filter (\<lambda>l. lr_addr l \<noteq> b) rl"
    using assms (1) by (intro unlink_eq_filter) (simp add: rpl_ok_def)
  ultimately show ?thesis
    using assms (1) by (auto simp: del_nonshm_eq rpl_ok_filter split: option.split)
qed

theorem reply_lumps_invariant_witness:
  "add_lump_rpl (Some 1) [] (Some ''X: y'') 2 =
     Some [\<lparr>lr_addr = 1, lr_text = Some ''X: y'', lr_flags = 2\<rparr>] \<and>
   rpl_ok [\<lparr>lr_addr = 1, lr_text = Some ''X: y'', lr_flags = 2\<rparr>]"
proof -
  have ok: "rpl_ok []" "1 \<notin> lr_addr ` set ([] :: lump_rpl list)" by (simp_all add: rpl_ok_def)
  have add: "add_lump_rpl (Some 1) [] (Some ''X: y'') 2 =
     Some [\<lparr>lr_addr = 1, lr_text = Some ''X: y'', lr_flags = 2\<rparr>]"
    by (simp add: add_lump_rpl_def bad_rpl_flags_def has_flag_def rpl_flag_defs)
  show ?thesis
    using reply_lumps_invariant [OF ok, of "Some ''X: y''" 2 0] unfolding add option.case by blast
qed

end
