(* ===== verification/DataLump.thy ===== *)
theory DataLump
  imports Msg "HOL-Library.Monad_Syntax" "HOL-Library.Multiset"
begin

text \<open>
  Lump lists (\<open>data_lump.c\<close>): creation, insertion by offset, duplication, release and
  removal by flags.

  \<open>pkg_malloc\<close> is a parameter: a boolean that says whether the one allocation of an
  operation succeeds, or, for the recursive copy, the number of blocks that can still be
  allocated.  The global \<open>init_lump_flags\<close> is an argument.  What the release functions
  pass to \<open>pkg_free\<close> is returned as a list of blocks, and \<open>None\<close> stands for a call
  of \<open>abort\<close>.
\<close>

section \<open>New lumps\<close>

definition new_lump :: "int \<Rightarrow> lump_op \<Rightarrow> u32 \<Rightarrow> u32 \<Rightarrow> lump" where
  "new_lump ty op n fl = Lump ty op n fl None None"

definition add_lump :: "u32 \<Rightarrow> string \<Rightarrow> int \<Rightarrow> lump" where
  "add_lump fl v ty = new_lump ty (LUMP_ADD (Some v)) (of_nat (length v)) fl"

definition append_new_lump :: "bool \<Rightarrow> u32 \<Rightarrow> lump list \<Rightarrow> string \<Rightarrow> int \<Rightarrow> lump list option" where
  "append_new_lump mem fl ls v ty = (if \<not> mem then None else Some (ls @ [add_lump fl v ty]))"

definition insert_new_lump :: "bool \<Rightarrow> u32 \<Rightarrow> lump list \<Rightarrow> string \<Rightarrow> int \<Rightarrow> lump list option" where
  "insert_new_lump mem fl ls v ty = (if \<not> mem then None else Some (add_lump fl v ty # ls))"

definition insert_new_lump_after :: "bool \<Rightarrow> u32 \<Rightarrow> lump \<Rightarrow> string \<Rightarrow> int \<Rightarrow> lump option" where
  "insert_new_lump_after mem fl after v ty =
     (if \<not> mem then None
      else let tmp = set_after (l_after after) (add_lump fl v ty)
           in Some (set_after (Some tmp) after))"

definition insert_new_lump_before :: "bool \<Rightarrow> u32 \<Rightarrow> lump \<Rightarrow> string \<Rightarrow> int \<Rightarrow> lump option" where
  "insert_new_lump_before mem fl before v ty =
     (if \<not> mem then None
      else let tmp = set_before (l_before before) (add_lump fl v ty)
           in Some (set_before (Some tmp) before))"

definition insert_subst_lump_after ::
    "bool \<Rightarrow> u32 \<Rightarrow> lump \<Rightarrow> lump_subst \<Rightarrow> int \<Rightarrow> lump option" where
  "insert_subst_lump_after mem fl after s ty =
     (if \<not> mem then None
      else let tmp = set_after (l_after after) (new_lump ty (LUMP_ADD_SUBST s) 0 fl)
           in Some (set_after (Some tmp) after))"

definition insert_subst_lump_before ::
    "bool \<Rightarrow> u32 \<Rightarrow> lump \<Rightarrow> lump_subst \<Rightarrow> int \<Rightarrow> lump option" where
  "insert_subst_lump_before mem fl before s ty =
     (if \<not> mem then None
      else let tmp = set_before (l_before before) (new_lump ty (LUMP_ADD_SUBST s) 0 fl)
           in Some (set_before (Some tmp) before))"

definition insert_cond_lump_after ::
    "bool \<Rightarrow> u32 \<Rightarrow> lump \<Rightarrow> lump_conditions \<Rightarrow> int \<Rightarrow> lump option" where
  "insert_cond_lump_after mem fl after c ty =
     (if \<not> mem then None
      else let tmp = set_after (l_after after) (new_lump ty (LUMP_ADD_OPT c) 0 fl)
           in Some (set_after (Some tmp) after))"

definition insert_cond_lump_before ::
    "bool \<Rightarrow> u32 \<Rightarrow> lump \<Rightarrow> lump_conditions \<Rightarrow> int \<Rightarrow> lump option" where
  "insert_cond_lump_before mem fl before c ty =
     (if \<not> mem then None
      else let tmp = set_before (l_before before) (new_lump ty (LUMP_ADD_OPT c) 0 fl)
           in Some (set_before (Some tmp) before))"

section \<open>Deletions and anchors\<close>

datatype lump_outcome = Aborted | Out_of_mem | Done sip_msg

text \<open>The offset of a lump that has one.\<close>

definition lump_offset :: "lump \<Rightarrow> u32 option" where
  "lump_offset l = (case l_op l of LUMP_DEL o' \<Rightarrow> Some o' | LUMP_NOP o' \<Rightarrow> Some o' | _ \<Rightarrow> None)"

fun insert_sorted :: "u32 \<Rightarrow> lump \<Rightarrow> lump list \<Rightarrow> lump list" where
  "insert_sorted offset tmp [] = [tmp]"
| "insert_sorted offset tmp (t # ts) =
     (if (case lump_offset t of Some o' \<Rightarrow> o' > offset | None \<Rightarrow> False)
      then tmp # t # ts
      else t # insert_sorted offset tmp ts)"

definition link_sorted :: "sip_msg \<Rightarrow> u32 \<Rightarrow> lump \<Rightarrow> sip_msg" where
  "link_sorted msg offset tmp =
     (if (case m_eoh msg of Some e \<Rightarrow> unat offset > e | None \<Rightarrow> False)
      then msg\<lparr>m_body_lumps := insert_sorted offset tmp (m_body_lumps msg)\<rparr>
      else msg\<lparr>m_add_rm := insert_sorted offset tmp (m_add_rm msg)\<rparr>)"

definition del_lump :: "bool \<Rightarrow> u32 \<Rightarrow> sip_msg \<Rightarrow> u32 \<Rightarrow> u32 \<Rightarrow> int \<Rightarrow> lump_outcome" where
  "del_lump mem fl msg offset n ty =
     (if offset > m_len msg then Aborted
      else if offset + n > m_len msg then Aborted
      else if \<not> mem then Out_of_mem
      else Done (link_sorted msg offset (new_lump ty (LUMP_DEL offset) n fl)))"

definition anchor_lump :: "bool \<Rightarrow> u32 \<Rightarrow> sip_msg \<Rightarrow> u32 \<Rightarrow> u32 \<Rightarrow> int \<Rightarrow> lump_outcome" where
  "anchor_lump mem fl msg offset n ty =
     (if offset > m_len msg then Aborted
      else if \<not> mem then Out_of_mem
      else Done (link_sorted msg offset (new_lump ty (LUMP_NOP offset) n fl)))"

section \<open>Release\<close>

datatype block = Value string | Node lump

definition free_lump :: "lump \<Rightarrow> (lump \<times> block list) option" where
  "free_lump lmp =
     (case l_op lmp of
        LUMP_ADD (Some v) \<Rightarrow>
          if and (l_flags lmp) (or LUMPFLAG_DUPED LUMPFLAG_SHMEM) \<noteq> 0 then None
          else Some (set_len 0 (set_op (LUMP_ADD None) lmp), [Value v])
      | _ \<Rightarrow> Some (lmp, []))"

text \<open>\<open>free_lump\<close> followed by \<open>pkg_free\<close>; \<open>keep\<close> is the test that skips the former.\<close>

definition free_node :: "(lump \<Rightarrow> bool) \<Rightarrow> lump \<Rightarrow> block list option" where
  "free_node keep l =
     (if keep l then Some [Node l]
      else do { (_, vs) \<leftarrow> free_lump l; Some (vs @ [Node l]) })"

fun free_nodes :: "(lump \<Rightarrow> bool) \<Rightarrow> lump list \<Rightarrow> block list option" where
  "free_nodes keep [] = Some []"
| "free_nodes keep (l # ls) =
     do { x \<leftarrow> free_node keep l; xs \<leftarrow> free_nodes keep ls; Some (x @ xs) }"

definition lump_nodes :: "lump \<Rightarrow> lump list" where
  "lump_nodes l = before_chain (l_before l) @ after_chain (l_after l) @ [l]"

definition free_lump_list :: "lump list \<Rightarrow> block list option" where
  "free_lump_list l = free_nodes (\<lambda>_. False) (concat (map lump_nodes l))"

definition free_duped_lump_list :: "lump list \<Rightarrow> block list option" where
  "free_duped_lump_list l =
     free_nodes (\<lambda>foo. \<not> l_flags foo \<noteq> LUMPFLAG_DUPED) (concat (map lump_nodes l))"

definition free_shallow_lump :: "lump \<Rightarrow> nat" where
  "free_shallow_lump l = length (lump_nodes l)"

section \<open>Duplication\<close>

text \<open>
  The three directions of \<open>dup_lump_list_r\<close>.  The last argument is the number of blocks
  \<open>pkg_malloc\<close> can still provide; the result pairs the copy, or \<open>None\<close> for
  \<open>*error=1\<close>, with the number left, to which a failing call returns what it frees.
\<close>

definition dup_node :: "u32 \<Rightarrow> lump \<Rightarrow> lump" where
  "dup_node fl l = Lump (l_type l) (l_op l) (l_len l) (or fl LUMPFLAG_DUPED) None None"

fun dup_before :: "u32 \<Rightarrow> lump option \<Rightarrow> nat \<Rightarrow> lump option option \<times> nat" where
  "dup_before fl None m = (Some None, m)"
| "dup_before fl (Some (Lump t op n f b a)) m =
     (if m = 0 then (None, m)
      else let new_lump = dup_node fl (Lump t op n f b a)
           in case dup_before fl b (m - 1) of
                (None, m') \<Rightarrow> (None, m' + free_shallow_lump new_lump)
              | (Some b', m') \<Rightarrow> (Some (Some (set_before b' new_lump)), m'))"

fun dup_after :: "u32 \<Rightarrow> lump option \<Rightarrow> nat \<Rightarrow> lump option option \<times> nat" where
  "dup_after fl None m = (Some None, m)"
| "dup_after fl (Some (Lump t op n f b a)) m =
     (if m = 0 then (None, m)
      else let new_lump = dup_node fl (Lump t op n f b a)
           in case dup_after fl a (m - 1) of
                (None, m') \<Rightarrow> (None, m' + free_shallow_lump new_lump)
              | (Some a', m') \<Rightarrow> (Some (Some (set_after a' new_lump)), m'))"

fun dup_next :: "u32 \<Rightarrow> lump list \<Rightarrow> nat \<Rightarrow> lump list option \<times> nat" where
  "dup_next fl [] m = (Some [], m)"
| "dup_next fl (l # ls) m =
     (if m = 0 then (None, m)
      else let new0 = dup_node fl l
           in case dup_before fl (l_before l) (m - 1) of
                (None, m1) \<Rightarrow> (None, m1 + free_shallow_lump new0)
              | (Some b, m1) \<Rightarrow>
                  (let new1 = set_before b new0
                   in case dup_after fl (l_after l) m1 of
                        (None, m2) \<Rightarrow> (None, m2 + free_shallow_lump new1)
                      | (Some a, m2) \<Rightarrow>
                          (let new2 = set_after a new1
                           in case dup_next fl ls m2 of
                                (None, m3) \<Rightarrow> (None, m3 + free_shallow_lump new2)
                              | (Some ls', m3) \<Rightarrow> (Some (new2 # ls'), m3))))"

definition dup_lump_list :: "u32 \<Rightarrow> lump list \<Rightarrow> nat \<Rightarrow> lump list option \<times> nat" where
  "dup_lump_list fl l m = dup_next fl l m"

section \<open>Removal by flags\<close>

text \<open>
  \<open>del_flaged_lumps\<close> and \<open>del_notflaged_lumps\<close> are the same loops around two
  different tests \<open>bad\<close> of a lump's flags.
\<close>

fun del_after :: "(u32 \<Rightarrow> bool) \<Rightarrow> lump option \<Rightarrow> (lump option \<times> block list) option" where
  "del_after bad None = Some (None, [])"
| "del_after bad (Some (Lump t op n f b a)) =
     (if bad f
      then do { x \<leftarrow> free_node (\<lambda>_. False) (Lump t op n f b a);
                (a', xs) \<leftarrow> del_after bad a;
                Some (a', x @ xs) }
      else do { (a', xs) \<leftarrow> del_after bad a;
                Some (Some (Lump t op n f b a'), xs) })"

fun del_before :: "(u32 \<Rightarrow> bool) \<Rightarrow> lump option \<Rightarrow> (lump option \<times> block list) option" where
  "del_before bad None = Some (None, [])"
| "del_before bad (Some (Lump t op n f b a)) =
     (if bad f
      then do { x \<leftarrow> free_node (\<lambda>_. False) (Lump t op n f b a);
                (b', xs) \<leftarrow> del_before bad b;
                Some (b', x @ xs) }
      else do { (b', xs) \<leftarrow> del_before bad b;
                Some (Some (Lump t op n f b' a), xs) })"

fun del_lumps :: "(u32 \<Rightarrow> bool) \<Rightarrow> lump list \<Rightarrow> (lump list \<times> block list) option" where
  "del_lumps bad [] = Some ([], [])"
| "del_lumps bad (crt # ls) =
     (if bad (l_flags crt)
      then do { x \<leftarrow> free_lump_list [crt];
                (ls', xs) \<leftarrow> del_lumps bad ls;
                Some (ls', x @ xs) }
      else do { (a, xa) \<leftarrow> del_after bad (l_after crt);
                (b, xb) \<leftarrow> del_before bad (l_before crt);
                (ls', xs) \<leftarrow> del_lumps bad ls;
                Some (set_before b (set_after a crt) # ls', xa @ xb @ xs) })"

definition del_flaged_lumps :: "lump list \<Rightarrow> u32 \<Rightarrow> (lump list \<times> block list) option" where
  "del_flaged_lumps ls fl = del_lumps (\<lambda>f. and f fl \<noteq> 0) ls"

definition del_notflaged_lumps :: "lump list \<Rightarrow> u32 \<Rightarrow> (lump list \<times> block list) option" where
  "del_notflaged_lumps ls fl = del_lumps (\<lambda>f. and (not f) fl \<noteq> 0) ls"

section \<open>Insertion into the chains of a lump\<close>

text \<open>
  The contract of the six \<open>insert_*_before\<close> and \<open>insert_*_after\<close> functions: the new
  lump becomes the head of one chain, the other chain and the fields of the lump itself
  stay.
\<close>

locale chain_insert =
  fixes insert :: "bool \<Rightarrow> u32 \<Rightarrow> lump \<Rightarrow> 'a \<Rightarrow> int \<Rightarrow> lump option"
    and mk_op :: "'a \<Rightarrow> lump_op"
    and mk_len :: "'a \<Rightarrow> u32"
    and chain :: "lump \<Rightarrow> lump list"
    and other :: "lump \<Rightarrow> lump list"
  assumes insert_out_of_mem: "insert False fl l x ty = None"
    and insert_ex: "\<exists>l' n. insert True fl l x ty = Some l' \<and> chain l' = n # chain l \<and>
      l_op n = mk_op x \<and> l_len n = mk_len x \<and> l_type n = ty \<and> l_flags n = fl \<and> other l' = other l \<and>
      l_op l' = l_op l \<and> l_len l' = l_len l \<and> l_flags l' = l_flags l \<and> l_type l' = l_type l"
begin

lemma insert_Some_iff: "(\<exists>l'. insert mem fl l x ty = Some l') \<longleftrightarrow> mem"
  using insert_ex [of fl l x ty] insert_out_of_mem [of fl l x ty] by (cases mem) auto

lemma insertD:
  assumes "insert mem fl l x ty = Some l'"
  shows "map (\<lambda>l. (l_op l, l_len l)) (chain l') = (mk_op x, mk_len x) # map (\<lambda>l. (l_op l, l_len l)) (chain l)" "other l' = other l"
    "l_op l' = l_op l" "l_len l' = l_len l"
  using assms insert_ex [of fl l x ty] insert_out_of_mem [of fl l x ty]
  by (cases mem; auto)+

lemma insert_all_ops:
  "map (\<lambda>l. (l_op l, l_len l)) (chain (foldl (\<lambda>l x. the (insert True fl l x ty)) l xs))
     = rev (map (\<lambda>x. (mk_op x, mk_len x)) xs) @ map (\<lambda>l. (l_op l, l_len l)) (chain l)"
proof (induction xs arbitrary: l)
  case (Cons x xs)
  obtain l' where l': "insert True fl l x ty = Some l'"
    using insert_Some_iff [of True] by blast
  show ?case using Cons.IH [of l'] insertD (1) [OF l'] l' by simp
qed simp

lemma insert_all_other:
  "other (foldl (\<lambda>l x. the (insert True fl l x ty)) l xs) = other l \<and>
   l_op (foldl (\<lambda>l x. the (insert True fl l x ty)) l xs) = l_op l"
proof (induction xs arbitrary: l)
  case (Cons x xs)
  obtain l' where l': "insert True fl l x ty = Some l'"
    using insert_Some_iff [of True] by blast
  show ?case using Cons.IH [of l'] insertD (2,3) [OF l'] l' by simp
qed simp

end

abbreviation befores :: "lump \<Rightarrow> lump list" where "befores l \<equiv> before_chain (l_before l)"
abbreviation afters :: "lump \<Rightarrow> lump list" where "afters l \<equiv> after_chain (l_after l)"

lemmas insert_defs = insert_new_lump_before_def insert_new_lump_after_def
  insert_subst_lump_before_def insert_subst_lump_after_def
  insert_cond_lump_before_def insert_cond_lump_after_def add_lump_def new_lump_def

interpretation inb: chain_insert insert_new_lump_before "\<lambda>v. LUMP_ADD (Some v)"
    "\<lambda>v. of_nat (length v)" befores afters
  by unfold_locales (simp_all add: insert_defs Let_def)

interpretation ina: chain_insert insert_new_lump_after "\<lambda>v. LUMP_ADD (Some v)"
    "\<lambda>v. of_nat (length v)" afters befores
  by unfold_locales (simp_all add: insert_defs Let_def)

interpretation isb: chain_insert insert_subst_lump_before LUMP_ADD_SUBST
    "\<lambda>_. 0" befores afters
  by unfold_locales (simp_all add: insert_defs Let_def)

interpretation isa: chain_insert insert_subst_lump_after LUMP_ADD_SUBST
    "\<lambda>_. 0" afters befores
  by unfold_locales (simp_all add: insert_defs Let_def)

interpretation icb: chain_insert insert_cond_lump_before LUMP_ADD_OPT
    "\<lambda>_. 0" befores afters
  by unfold_locales (simp_all add: insert_defs Let_def)

interpretation ica: chain_insert insert_cond_lump_after LUMP_ADD_OPT
    "\<lambda>_. 0" afters befores
  by unfold_locales (simp_all add: insert_defs Let_def)

section \<open>Insertion by offset\<close>

definition offsets :: "lump list \<Rightarrow> u32 list" where
  "offsets ls = List.map_filter lump_offset ls"

definition lump_in_range :: "nat \<Rightarrow> lump \<Rightarrow> bool" where
  "lump_in_range n l =
     (case l_op l of
        LUMP_DEL o' \<Rightarrow> unat o' + unat (l_len l) \<le> n
      | LUMP_NOP o' \<Rightarrow> unat o' \<le> n
      | _ \<Rightarrow> True)"

definition lump_list_ok :: "nat \<Rightarrow> lump list \<Rightarrow> bool" where
  "lump_list_ok n ls \<longleftrightarrow> list_all (lump_in_range n) ls \<and> sorted (offsets ls)"

text \<open>The invariant of a message: the changes recorded in its two lists are sorted by
  position and stay inside the buffer.\<close>

definition msg_lumps_ok :: "sip_msg \<Rightarrow> bool" where
  "msg_lumps_ok msg \<longleftrightarrow> length (m_buf msg) < 2 ^ 32 \<and>
     lump_list_ok (length (m_buf msg)) (m_add_rm msg) \<and>
     lump_list_ok (length (m_buf msg)) (m_body_lumps msg)"

lemma offsets_simps [simp]:
  "offsets [] = []"
  "offsets (l # ls) = (case lump_offset l of None \<Rightarrow> offsets ls | Some o' \<Rightarrow> o' # offsets ls)"
  by (simp_all add: offsets_def List.map_filter_def split: option.split)

lemma insert_sorted_eq:
  "insert_sorted offset tmp ls =
     takeWhile (\<lambda>t. \<forall>o'. lump_offset t = Some o' \<longrightarrow> o' \<le> offset) ls @
     tmp # dropWhile (\<lambda>t. \<forall>o'. lump_offset t = Some o' \<longrightarrow> o' \<le> offset) ls"
  by (induction ls) (auto split: option.splits simp: not_less)

lemma mset_insert_sorted: "mset (insert_sorted offset tmp ls) = add_mset tmp (mset ls)"
  by (induction ls) (auto split: option.splits)

lemma set_insert_sorted: "set (insert_sorted offset tmp ls) = insert tmp (set ls)"
  by (induction ls) (auto split: option.splits)

lemma offsets_insert_sorted:
  assumes "sorted (offsets ls)" "lump_offset tmp = Some offset"
  shows "offsets (insert_sorted offset tmp ls)
    = filter (\<lambda>x. x \<le> offset) (offsets ls) @ offset # filter (\<lambda>x. offset < x) (offsets ls)"
  using assms
proof (induction ls)
  case (Cons t ts)
  show ?case
  proof (cases "lump_offset t")
    case None
    then show ?thesis using Cons by simp
  next
    case (Some o')
    have "filter (\<lambda>x. x \<le> offset) (offsets ts) = [] \<and> filter (\<lambda>x. offset < x) (offsets ts) = offsets ts"
      if "offset < o'"
    proof -
      have "\<forall>x\<in>set (offsets ts). offset < x"
        using Cons.prems Some that by (fastforce intro: less_le_trans)
      then show ?thesis by (auto simp: filter_empty_conv filter_id_conv)
    qed
    then show ?thesis using Cons Some by (auto simp: not_less)
  qed
qed simp

lemma sorted_insert_sorted:
  assumes "sorted (offsets ls)" "lump_offset tmp = Some offset"
  shows "sorted (offsets (insert_sorted offset tmp ls))"
  unfolding offsets_insert_sorted [OF assms] using assms (1)
  by (auto simp: sorted_append sorted_wrt_filter)

lemma lump_list_ok_insert:
  assumes "lump_list_ok n ls" "lump_offset tmp = Some offset" "lump_in_range n tmp"
  shows "lump_list_ok n (insert_sorted offset tmp ls)"
  using assms sorted_insert_sorted [of ls tmp offset]
  by (simp add: lump_list_ok_def list_all_iff set_insert_sorted)

lemma msg_lumps_ok_link:
  assumes "msg_lumps_ok msg" "lump_offset tmp = Some offset"
    "lump_in_range (length (m_buf msg)) tmp"
  shows "msg_lumps_ok (link_sorted msg offset tmp)"
  using assms by (auto simp: msg_lumps_ok_def link_sorted_def intro: lump_list_ok_insert)

lemma link_sorted_keeps [simp]:
  "m_buf (link_sorted msg offset tmp) = m_buf msg"
  "m_eoh (link_sorted msg offset tmp) = m_eoh msg"
  by (simp_all add: link_sorted_def)

lemma mset_link_sorted:
  "mset (m_add_rm (link_sorted msg offset tmp)) + mset (m_body_lumps (link_sorted msg offset tmp))
     = add_mset tmp (mset (m_add_rm msg) + mset (m_body_lumps msg))"
  by (simp add: link_sorted_def mset_insert_sorted)

lemma unat_m_len: "length (m_buf msg) < 2 ^ 32 \<Longrightarrow> unat (m_len msg) = length (m_buf msg)"
  by (simp add: m_len_def unat_of_nat_u32)

lemma new_lump_sel [simp]:
  "l_op (new_lump ty op n fl) = op" "l_len (new_lump ty op n fl) = n"
  "l_type (new_lump ty op n fl) = ty" "l_flags (new_lump ty op n fl) = fl"
  "l_before (new_lump ty op n fl) = None" "l_after (new_lump ty op n fl) = None"
  by (simp_all add: new_lump_def)

lemma unat_add_u32:
  fixes a b :: u32
  assumes "unat a + unat b < 2 ^ 32"
  shows "unat (a + b) = unat a + unat b"
  using assms by (simp add: unat_word_ariths)

lemma del_lump_eq:
  assumes "msg_lumps_ok msg" "unat offset + unat n < 2 ^ 32"
  shows "del_lump mem fl msg offset n ty =
       (if unat offset + unat n > length (m_buf msg) then Aborted
        else if \<not> mem then Out_of_mem
        else Done (link_sorted msg offset (new_lump ty (LUMP_DEL offset) n fl)))"
  using assms
  by (auto simp: del_lump_def word_less_nat_alt unat_m_len unat_add_u32 msg_lumps_ok_def)

lemma anchor_lump_eq:
  assumes "msg_lumps_ok msg"
  shows "anchor_lump mem fl msg offset n ty =
       (if unat offset > length (m_buf msg) then Aborted
        else if \<not> mem then Out_of_mem
        else Done (link_sorted msg offset (new_lump ty (LUMP_NOP offset) n fl)))"
  using assms by (auto simp: anchor_lump_def word_less_nat_alt unat_m_len msg_lumps_ok_def)

lemma msg_lumps_ok_del:
  assumes "msg_lumps_ok msg" "unat offset + unat n \<le> length (m_buf msg)"
  shows "msg_lumps_ok (link_sorted msg offset (new_lump ty (LUMP_DEL offset) n fl))"
  using assms by (intro msg_lumps_ok_link) (simp_all add: lump_offset_def lump_in_range_def)

lemma msg_lumps_ok_anchor:
  assumes "msg_lumps_ok msg" "unat offset \<le> length (m_buf msg)"
  shows "msg_lumps_ok (link_sorted msg offset (new_lump ty (LUMP_NOP offset) n fl))"
  using assms by (intro msg_lumps_ok_link) (simp_all add: lump_offset_def lump_in_range_def)


lemma sample_msg_ok: "msg_lumps_ok sample_msg"
  by (simp add: msg_lumps_ok_def sample_msg_def lump_list_ok_def)


text \<open>
  C27. The bounds check of \<open>del_lump\<close> adds offset and length in an \<open>unsigned int\<close>: for
  every offset other than 0 there is a length, near \<open>2 ^ 32\<close>, that reaches far beyond any
  message and is accepted.
\<close>

theorem del_lump_overflow:
  assumes "0 < unat offset" "unat offset \<le> length (m_buf msg)" "length (m_buf msg) < 2 ^ 32"
  shows "\<exists>n. unat offset + unat n \<ge> 2 ^ 32 \<and>
    del_lump True fl msg offset n ty = Done (link_sorted msg offset (new_lump ty (LUMP_DEL offset) n fl))"
proof -
  define n :: u32 where "n = of_nat (2 ^ 32 - unat offset)"
  have n: "unat n = 2 ^ 32 - unat offset"
    unfolding n_def by (rule unat_of_nat_u32) (use assms (1) in simp)
  have "unat offset < 2 ^ 32"
    using unsigned_less [of offset, where 'a = nat] by simp
  then have "unat (offset + n) = 0"
    by (simp add: unat_word_ariths n)
  with n assms show ?thesis
    by (intro exI [of _ n]) (simp add: del_lump_def word_less_nat_alt unat_m_len)
qed

theorem del_lump_overflow_witness:
  "\<exists>n. unat (7 :: u32) + unat n \<ge> 2 ^ 32 \<and>
    del_lump True 0 sample_msg 7 n 0 = Done (link_sorted sample_msg 7 (new_lump 0 (LUMP_DEL 7) n 0))"
  by (rule del_lump_overflow) (simp_all add: sample_msg_def)

section \<open>Edited messages\<close>

text \<open>The ways the code changes a lump in place, and the ways it changes the two lists.\<close>

inductive chain_edit :: "lump \<Rightarrow> lump \<Rightarrow> bool" where
  new_before: "insert_new_lump_before mem fl l v ty = Some l' \<Longrightarrow> chain_edit l l'"
| new_after: "insert_new_lump_after mem fl l v ty = Some l' \<Longrightarrow> chain_edit l l'"
| subst_before: "insert_subst_lump_before mem fl l s ty = Some l' \<Longrightarrow> chain_edit l l'"
| subst_after: "insert_subst_lump_after mem fl l s ty = Some l' \<Longrightarrow> chain_edit l l'"
| cond_before: "insert_cond_lump_before mem fl l c ty = Some l' \<Longrightarrow> chain_edit l l'"
| cond_after: "insert_cond_lump_after mem fl l c ty = Some l' \<Longrightarrow> chain_edit l l'"

inductive lump_edit :: "sip_msg \<Rightarrow> sip_msg \<Rightarrow> bool" where
  del: "del_lump mem fl msg offset n ty = Done msg' \<Longrightarrow> unat offset + unat n < 2 ^ 32 \<Longrightarrow>
    lump_edit msg msg'"
| anchor: "anchor_lump mem fl msg offset n ty = Done msg' \<Longrightarrow> lump_edit msg msg'"
| append: "append_new_lump mem fl (m_add_rm msg) v ty = Some ls \<Longrightarrow>
    lump_edit msg (msg\<lparr>m_add_rm := ls\<rparr>)"
| insert: "insert_new_lump mem fl (m_add_rm msg) v ty = Some ls \<Longrightarrow>
    lump_edit msg (msg\<lparr>m_add_rm := ls\<rparr>)"
| header: "i < length (m_add_rm msg) \<Longrightarrow> chain_edit (m_add_rm msg ! i) l \<Longrightarrow>
    lump_edit msg (msg\<lparr>m_add_rm := (m_add_rm msg)[i := l]\<rparr>)"
| body: "i < length (m_body_lumps msg) \<Longrightarrow> chain_edit (m_body_lumps msg ! i) l \<Longrightarrow>
    lump_edit msg (msg\<lparr>m_body_lumps := (m_body_lumps msg)[i := l]\<rparr>)"

lemma chain_edit_keeps:
  "chain_edit l l' \<Longrightarrow> l_op l' = l_op l \<and> l_len l' = l_len l"
  by (induction rule: chain_edit.induct)
    (auto dest: inb.insertD ina.insertD isb.insertD isa.insertD icb.insertD ica.insertD)

lemma offsets_append [simp]: "offsets (xs @ ys) = offsets xs @ offsets ys"
  by (induction xs) (auto split: option.split)

lemma lump_list_ok_update:
  assumes "lump_list_ok n ls" "i < length ls" "chain_edit (ls ! i) l"
  shows "lump_list_ok n (ls[i := l])"
proof -
  have same: "lump_offset l = lump_offset (ls ! i)" "lump_in_range n l = lump_in_range n (ls ! i)"
    using chain_edit_keeps [OF assms (3)] unfolding lump_offset_def lump_in_range_def
    by (simp_all split: lump_op.split)
  have "offsets ls = offsets (take i ls @ ls ! i # drop (Suc i) ls)"
    using id_take_nth_drop [OF assms (2)] by simp
  then have "offsets (ls[i := l]) = offsets ls"
    using same (1) assms (2) by (simp add: upd_conv_take_nth_drop)
  moreover have "list_all (lump_in_range n) (ls[i := l])"
    using assms (1,2) same (2) set_update_subset_insert [of ls i l]
    by (auto simp: lump_list_ok_def list_all_iff)
  ultimately show ?thesis using assms (1) by (simp add: lump_list_ok_def)
qed

lemma lump_list_ok_add:
  "lump_list_ok n ls \<Longrightarrow> append_new_lump mem fl ls v ty = Some ls' \<Longrightarrow> lump_list_ok n ls'"
  "lump_list_ok n ls \<Longrightarrow> insert_new_lump mem fl ls v ty = Some ls' \<Longrightarrow> lump_list_ok n ls'"
  by (auto simp: append_new_lump_def insert_new_lump_def lump_list_ok_def add_lump_def
      lump_in_range_def lump_offset_def split: if_splits)

lemma msg_lumps_ok_step:
  "lump_edit msg msg' \<Longrightarrow> msg_lumps_ok msg \<Longrightarrow> msg_lumps_ok msg' \<and> m_buf msg' = m_buf msg"
proof (induction rule: lump_edit.induct)
  case (del mem fl msg offset n ty msg')
  then show ?case
    using del_lump_eq [OF del.prems, of offset n mem fl ty]
    by (auto split: if_splits simp: not_less intro: msg_lumps_ok_del)
next
  case (anchor mem fl msg offset n ty msg')
  then show ?case
    using anchor_lump_eq [OF anchor.prems, of mem fl offset n ty]
    by (auto split: if_splits simp: not_less intro: msg_lumps_ok_anchor)
qed (auto simp: msg_lumps_ok_def intro: lump_list_ok_update lump_list_ok_add)



section \<open>Copies\<close>

text \<open>What a complete copy looks like: the chains, without what hangs off their elements.\<close>

fun copy_before :: "u32 \<Rightarrow> lump option \<Rightarrow> lump option" where
  "copy_before fl None = None"
| "copy_before fl (Some (Lump t op n f b a)) =
     Some (Lump t op n (or fl LUMPFLAG_DUPED) (copy_before fl b) None)"

fun copy_after :: "u32 \<Rightarrow> lump option \<Rightarrow> lump option" where
  "copy_after fl None = None"
| "copy_after fl (Some (Lump t op n f b a)) =
     Some (Lump t op n (or fl LUMPFLAG_DUPED) None (copy_after fl a))"

definition copy_lump :: "u32 \<Rightarrow> lump \<Rightarrow> lump" where
  "copy_lump fl l = Lump (l_type l) (l_op l) (l_len l) (or fl LUMPFLAG_DUPED)
     (copy_before fl (l_before l)) (copy_after fl (l_after l))"

definition list_nodes :: "lump list \<Rightarrow> lump list" where
  "list_nodes ls = concat (map lump_nodes ls)"

lemma list_nodes_simps [simp]:
  "list_nodes [] = []"
  "list_nodes (l # ls) = lump_nodes l @ list_nodes ls"
  by (simp_all add: list_nodes_def)

lemma chain_copy:
  "map l_op (before_chain (copy_before fl b)) = map l_op (before_chain b)"
  "set (map l_flags (before_chain (copy_before fl b))) \<subseteq> {or fl LUMPFLAG_DUPED}"
  "map l_op (after_chain (copy_after fl a)) = map l_op (after_chain a)"
  "set (map l_flags (after_chain (copy_after fl a))) \<subseteq> {or fl LUMPFLAG_DUPED}"
proof -
  show "map l_op (before_chain (copy_before fl b)) = map l_op (before_chain b)"
    "set (map l_flags (before_chain (copy_before fl b))) \<subseteq> {or fl LUMPFLAG_DUPED}"
    by (induction fl b rule: copy_before.induct) auto
  show "map l_op (after_chain (copy_after fl a)) = map l_op (after_chain a)"
    "set (map l_flags (after_chain (copy_after fl a))) \<subseteq> {or fl LUMPFLAG_DUPED}"
    by (induction fl a rule: copy_after.induct) auto
qed

lemma dup_before_eq:
  "dup_before fl b m =
     (if m < length (before_chain b) then (None, m)
      else (Some (copy_before fl b), m - length (before_chain b)))"
proof (induction fl b m rule: dup_before.induct)
  case (2 fl t op n f b a m)
  then show ?case
    by (cases m) (simp_all add: Let_def dup_node_def free_shallow_lump_def lump_nodes_def)
qed simp

lemma dup_after_eq:
  "dup_after fl b m =
     (if m < length (after_chain b) then (None, m)
      else (Some (copy_after fl b), m - length (after_chain b)))"
proof (induction fl b m rule: dup_after.induct)
  case (2 fl t op n f b a m)
  then show ?case
    by (cases m) (simp_all add: Let_def dup_node_def free_shallow_lump_def lump_nodes_def)
qed simp

lemma dup_next_eq:
  "dup_next fl ls m =
     (if m < length (list_nodes ls) then (None, m)
      else (Some (map (copy_lump fl) ls), m - length (list_nodes ls)))"
proof (induction ls arbitrary: m)
  case (Cons l ls)
  have len: "length (before_chain (copy_before fl (l_before l))) = length (befores l)"
    "length (after_chain (copy_after fl (l_after l))) = length (afters l)"
    using chain_copy (1,3) [THEN arg_cong [where f = length]] by simp_all
  show ?case
  proof (cases m)
    case (Suc k)
    consider "k < length (befores l)" | "length (befores l) \<le> k" "k - length (befores l) < length (afters l)"
      | "length (befores l) \<le> k" "length (afters l) \<le> k - length (befores l)" by linarith
    then show ?thesis
      by cases (auto simp add: Suc Cons.IH Let_def dup_before_eq dup_after_eq
          free_shallow_lump_def lump_nodes_def dup_node_def copy_lump_def len)
  qed (simp add: lump_nodes_def)
qed simp

definition has_value :: "lump \<Rightarrow> bool" where
  "has_value l = (case l_op l of LUMP_ADD (Some _) \<Rightarrow> True | _ \<Rightarrow> False)"

lemma map_l_op_nodes: "map l_op (lump_nodes (copy_lump fl l)) = map l_op (lump_nodes l)"
  by (simp add: lump_nodes_def copy_lump_def chain_copy)

lemma flags_copy_nodes:
  "set (map l_flags (lump_nodes (copy_lump fl l))) \<subseteq> {or fl LUMPFLAG_DUPED}"
  using chain_copy (2,4) by (auto simp: lump_nodes_def copy_lump_def)

lemma map_l_op_list_nodes:
  "map l_op (list_nodes (map (copy_lump fl) ls)) = map l_op (list_nodes ls)"
  by (induction ls) (simp_all add: map_l_op_nodes)

lemma flags_copy_list:
  "l \<in> set (list_nodes (map (copy_lump fl) ls)) \<Longrightarrow> l_flags l = or fl LUMPFLAG_DUPED"
  by (induction ls) (use flags_copy_nodes in auto)

text \<open>
  C24. \<open>dup_lump_list\<close> needs one block for every lump of the list and of the chains of its
  elements.  With that much memory it returns a copy with the same operations in the same
  places, marked as duplicated; with less it reports an error and has given back every block
  it allocated on the way.
\<close>

theorem dup_lump_list_correct:
  "dup_lump_list fl ls m =
     (if m < length (list_nodes ls) then (None, m)
      else (Some (map (copy_lump fl) ls), m - length (list_nodes ls))) \<and>
   map l_op (list_nodes (map (copy_lump fl) ls)) = map l_op (list_nodes ls)"
  by (simp add: dup_lump_list_def dup_next_eq map_l_op_list_nodes)

lemma free_nodes_keep: "list_all keep ls \<Longrightarrow> free_nodes keep ls = Some (map Node ls)"
  by (induction ls) (auto simp: free_node_def)

lemma free_node_None:
  "free_node keep l = None \<longleftrightarrow>
     \<not> keep l \<and> has_value l \<and> and (l_flags l) (or LUMPFLAG_DUPED LUMPFLAG_SHMEM) \<noteq> 0"
  by (auto simp: free_node_def free_lump_def has_value_def split: lump_op.split option.split)

lemma free_nodes_None: "free_nodes keep ls = None \<longleftrightarrow> (\<exists>l\<in>set ls. free_node keep l = None)"
  by (induction ls) (auto simp: bind_eq_None_conv split: Option.bind_split)

lemma free_node_no_value: "\<not> has_value l \<Longrightarrow> free_node keep l = Some [Node l]"
  by (auto simp: free_node_def free_lump_def has_value_def split: lump_op.split option.split)

lemma free_nodes_no_value: "list_all (\<lambda>l. \<not> has_value l) ls \<Longrightarrow> free_nodes keep ls = Some (map Node ls)"
  by (induction ls) (auto simp: free_node_no_value)

lemma duped_flag: "and (or fl LUMPFLAG_DUPED) (or LUMPFLAG_DUPED LUMPFLAG_SHMEM) \<noteq> 0"
proof -
  have "bit (and (or fl LUMPFLAG_DUPED) (or LUMPFLAG_DUPED LUMPFLAG_SHMEM)) 0"
    by (simp add: LUMPFLAG_DUPED_def LUMPFLAG_SHMEM_def bit_simps)
  then show ?thesis by auto
qed

lemma has_value_copy:
  "list_ex has_value (list_nodes (map (copy_lump fl) ls)) = list_ex has_value (list_nodes ls)"
proof -
  have "list_ex has_value xs = list_ex (\<lambda>op. case op of LUMP_ADD (Some _) \<Rightarrow> True | _ \<Rightarrow> False) (map l_op xs)"
    for xs by (induction xs) (simp_all add: has_value_def)
  then show ?thesis by (simp only: map_l_op_list_nodes)
qed

text \<open>
  C25. \<open>free_duped_lump_list\<close> on a fresh copy releases exactly the nodes of the copy and
  none of the values, which still belong to the original, when the copy was made with
  \<open>init_lump_flags\<close> at 0.  When the flags hold anything else, every copied lump fails the
  test \<open>flags != LUMPFLAG_DUPED\<close> and the first one that adds a value makes
  \<open>free_lump\<close> abort the process.
\<close>

theorem free_duped_copy:
  "free_duped_lump_list (map (copy_lump fl) ls) =
     (if or fl LUMPFLAG_DUPED \<noteq> LUMPFLAG_DUPED \<and> list_ex has_value (list_nodes ls) then None
      else Some (map Node (list_nodes (map (copy_lump fl) ls))))"
proof -
  let ?xs = "list_nodes (map (copy_lump fl) ls)"
  have fl: "l_flags l = or fl LUMPFLAG_DUPED" if "l \<in> set ?xs" for l
    using flags_copy_list that by blast
  consider "or fl LUMPFLAG_DUPED = LUMPFLAG_DUPED"
    | "\<not> list_ex has_value ?xs" | "or fl LUMPFLAG_DUPED \<noteq> LUMPFLAG_DUPED" "list_ex has_value ?xs"
    by blast
  then show ?thesis
  proof cases
    case 1
    then show ?thesis
      unfolding free_duped_lump_list_def list_nodes_def [symmetric]
      by (simp add: free_nodes_keep list_all_iff fl)
  next
    case 2
    then have "list_all (\<lambda>l. \<not> has_value l) ?xs" by (simp add: list_all_iff list_ex_iff)
    from free_nodes_no_value [OF this] 2 show ?thesis
      unfolding free_duped_lump_list_def list_nodes_def [symmetric] by (simp add: has_value_copy)
  next
    case 3
    then obtain l where "l \<in> set ?xs" "has_value l" by (auto simp: list_ex_iff)
    then have "free_node (\<lambda>foo. \<not> l_flags foo \<noteq> LUMPFLAG_DUPED) l = None"
      using 3 duped_flag [of fl] by (simp add: free_node_None fl)
    with \<open>l \<in> set ?xs\<close> 3 show ?thesis
      unfolding free_duped_lump_list_def list_nodes_def [symmetric]
      by (auto simp: free_nodes_None has_value_copy)
  qed
qed

section \<open>What the removals keep and free\<close>

text \<open>The fields of a lump without its links, and the lumps among the released blocks.\<close>

definition lump_fields :: "lump \<Rightarrow> int \<times> lump_op \<times> u32 \<times> u32" where
  "lump_fields l = (l_type l, l_op l, l_len l, l_flags l)"

lemma lump_fields_set [simp]:
  "lump_fields (set_before b l) = lump_fields l" "lump_fields (set_after a l) = lump_fields l"
  by (simp_all add: lump_fields_def)

fun freed_nodes :: "block list \<Rightarrow> lump list" where
  "freed_nodes [] = []"
| "freed_nodes (Value v # xs) = freed_nodes xs"
| "freed_nodes (Node l # xs) = l # freed_nodes xs"

lemma freed_nodes_append [simp]: "freed_nodes (xs @ ys) = freed_nodes xs @ freed_nodes ys"
  by (induction xs rule: freed_nodes.induct) auto

lemma freed_free_node: "free_node keep l = Some xs \<Longrightarrow> freed_nodes xs = [l]"
  by (auto simp: free_node_def free_lump_def split: if_splits lump_op.splits option.splits)

lemma freed_free_nodes: "free_nodes keep ls = Some xs \<Longrightarrow> freed_nodes xs = ls"
  by (induction ls arbitrary: xs) (auto simp: freed_free_node split: Option.bind_splits)

lemma del_after_spec:
  "del_after bad a = Some (a', xs) \<Longrightarrow>
     map lump_fields (after_chain a') = filter (\<lambda>(_, _, _, f). \<not> bad f) (map lump_fields (after_chain a)) \<and>
     freed_nodes xs = filter (\<lambda>l. bad (l_flags l)) (after_chain a)"
  by (induction bad a arbitrary: a' xs rule: del_after.induct)
    (auto simp: lump_fields_def freed_free_node split: if_splits Option.bind_splits)

lemma del_before_spec:
  "del_before bad b = Some (b', xs) \<Longrightarrow>
     map lump_fields (before_chain b') = filter (\<lambda>(_, _, _, f). \<not> bad f) (map lump_fields (before_chain b)) \<and>
     freed_nodes xs = filter (\<lambda>l. bad (l_flags l)) (before_chain b)"
  by (induction bad b arbitrary: b' xs rule: del_before.induct)
    (auto simp: lump_fields_def freed_free_node split: if_splits Option.bind_splits)

definition removed :: "(u32 \<Rightarrow> bool) \<Rightarrow> lump \<Rightarrow> lump list" where
  "removed bad l =
     (if bad (l_flags l) then lump_nodes l
      else filter (\<lambda>n. bad (l_flags n)) (afters l @ befores l))"

lemma del_after_None:
  "del_after bad a = None \<longleftrightarrow>
     (\<exists>l\<in>set (after_chain a). bad (l_flags l) \<and> free_node (\<lambda>_. False) l = None)"
proof (induction bad a rule: del_after.induct)
  case (2 bad t op n f b a)
  then show ?case
    by (cases "bad f"; cases "free_node (\<lambda>_. False) (Lump t op n f b a)"; cases "del_after bad a")
      (auto split: prod.split)
qed simp

lemma del_before_None:
  "del_before bad b = None \<longleftrightarrow>
     (\<exists>l\<in>set (before_chain b). bad (l_flags l) \<and> free_node (\<lambda>_. False) l = None)"
proof (induction bad b rule: del_before.induct)
  case (2 bad t op n f b a)
  then show ?case
    by (cases "bad f"; cases "free_node (\<lambda>_. False) (Lump t op n f b a)"; cases "del_before bad b")
      (auto split: prod.split)
qed simp

lemma del_lumps_None:
  "del_lumps bad ls = None \<longleftrightarrow>
     (\<exists>l\<in>set (concat (map (removed bad) ls)). free_node (\<lambda>_. False) l = None)"
proof (induction ls)
  case (Cons l ls)
  show ?case
  proof (cases "bad (l_flags l)")
    case True
    then have "del_lumps bad (l # ls) = None \<longleftrightarrow> free_lump_list [l] = None \<or> del_lumps bad ls = None"
      by (cases "free_lump_list [l]"; cases "del_lumps bad ls") auto
    then show ?thesis using True Cons
      by (auto simp: removed_def free_lump_list_def free_nodes_None)
  next
    case False
    then have "del_lumps bad (l # ls) = None \<longleftrightarrow>
        del_after bad (l_after l) = None \<or> del_before bad (l_before l) = None \<or> del_lumps bad ls = None"
      by (cases "del_after bad (l_after l)"; cases "del_before bad (l_before l)";
          cases "del_lumps bad ls") auto
    then show ?thesis using False Cons
      by (auto simp: removed_def del_after_None del_before_None)
  qed
qed simp

lemma del_lumps_freed:
  "del_lumps bad ls = Some (ls', xs) \<Longrightarrow> freed_nodes xs = concat (map (removed bad) ls)"
proof (induction ls arbitrary: ls' xs)
  case (Cons l ls)
  show ?case
  proof (cases "bad (l_flags l)")
    case True
    with Cons.prems obtain x ys where "free_lump_list [l] = Some x"
        "del_lumps bad ls = Some (ls', ys)" "xs = x @ ys"
      by (auto split: Option.bind_splits)
    then show ?thesis using Cons.IH True
      by (simp add: removed_def free_lump_list_def freed_free_nodes)
  next
    case False
    with Cons.prems obtain a xa b xb ls'' ys where
        "del_after bad (l_after l) = Some (a, xa)" "del_before bad (l_before l) = Some (b, xb)"
        "del_lumps bad ls = Some (ls'', ys)" "xs = xa @ xb @ ys"
      by (auto split: Option.bind_splits)
    then show ?thesis
      using Cons.IH [of ls'' ys] False del_after_spec [of bad "l_after l" a xa]
        del_before_spec [of bad "l_before l" b xb]
      by (simp add: removed_def)
  qed
qed simp

lemma del_lumps_kept:
  "del_lumps bad ls = Some (ls', xs) \<Longrightarrow>
     map (\<lambda>l. (lump_fields l, map lump_fields (befores l), map lump_fields (afters l))) ls' =
     map (\<lambda>l. (lump_fields l, filter (\<lambda>(_, _, _, f). \<not> bad f) (map lump_fields (befores l)),
                         filter (\<lambda>(_, _, _, f). \<not> bad f) (map lump_fields (afters l))))
       (filter (\<lambda>l. \<not> bad (l_flags l)) ls)"
proof (induction ls arbitrary: ls' xs)
  case (Cons l ls)
  show ?case
  proof (cases "bad (l_flags l)")
    case True
    with Cons.prems obtain x ys where "del_lumps bad ls = Some (ls', ys)"
      by (auto split: Option.bind_splits)
    then show ?thesis using Cons.IH True by simp
  next
    case False
    with Cons.prems obtain a xa b xb ls'' ys where
        "del_after bad (l_after l) = Some (a, xa)" "del_before bad (l_before l) = Some (b, xb)"
        "del_lumps bad ls = Some (ls'', ys)" "ls' = set_before b (set_after a l) # ls''"
      by (auto split: Option.bind_splits)
    then show ?thesis
      using Cons.IH [of ls'' ys] False del_after_spec [of bad "l_after l" a xa]
        del_before_spec [of bad "l_before l" b xb]
      by (simp add: lump_fields_set)
  qed
qed simp

text \<open>What both removals promise, whatever their test of the flags.\<close>

locale lump_removal =
  fixes del :: "lump list \<Rightarrow> u32 \<Rightarrow> (lump list \<times> block list) option"
    and bad :: "u32 \<Rightarrow> u32 \<Rightarrow> bool"
  assumes del_is_loop: "del ls fl = del_lumps (bad fl) ls"
begin

lemma frees_exactly:
  "del ls fl = Some (ls', xs) \<Longrightarrow> freed_nodes xs = concat (map (removed (bad fl)) ls)"
  by (simp add: del_is_loop del_lumps_freed)

lemma keeps_exactly:
  "del ls fl = Some (ls', xs) \<Longrightarrow>
     map (\<lambda>l. (lump_fields l, map lump_fields (befores l), map lump_fields (afters l))) ls' =
     map (\<lambda>l. (lump_fields l, filter (\<lambda>(_, _, _, f). \<not> bad fl f) (map lump_fields (befores l)),
                         filter (\<lambda>(_, _, _, f). \<not> bad fl f) (map lump_fields (afters l))))
       (filter (\<lambda>l. \<not> bad fl (l_flags l)) ls)"
  by (simp add: del_is_loop del_lumps_kept)

lemma aborts_iff:
  "del ls fl = None \<longleftrightarrow>
     list_ex (\<lambda>l. has_value l \<and> and (l_flags l) (or LUMPFLAG_DUPED LUMPFLAG_SHMEM) \<noteq> 0)
       (concat (map (removed (bad fl)) ls))"
  by (auto simp: del_is_loop del_lumps_None free_node_None list_ex_iff)

end

interpretation rmf: lump_removal del_flaged_lumps "\<lambda>fl f. and f fl \<noteq> 0"
  by unfold_locales (simp add: del_flaged_lumps_def)

interpretation rmn: lump_removal del_notflaged_lumps "\<lambda>fl f. and (not f) fl \<noteq> 0"
  by unfold_locales (simp add: del_notflaged_lumps_def)


end
