(* ===== verification/MsgTranslator.thy ===== *)
theory MsgTranslator
  imports DataLump
begin

text \<open>
  The message translator (\<open>msg_translator.c\<close>): \<open>lumps_len\<close> computes how much a list
  of lumps changes the length of a message and repairs overlapping zones on the way,
  \<open>process_lumps\<close> writes the changed message, and the ends of
  \<open>build_req_buf_from_sip_req\<close> and \<open>build_res_buf_from_sip_res\<close> allocate the buffer
  with the first and fill it with the second.

  The socket the message leaves from is an option (a null \<open>send_sock\<close>).  The function
  \<open>rnd\<close> gives, for the k-th call of \<open>rand()\<close>, whether its result is at least
  \<open>RAND_MAX/2\<close>; the counter \<open>k\<close> is threaded through.  The length of the output is
  kept in an \<open>unsigned int\<close> as in the code; the bytes written are a string.
\<close>

section \<open>Conditions\<close>

definition get_ip_port_proto :: "sip_msg \<Rightarrow> ip_addr \<times> u16 \<times> int" where
  "get_ip_port_proto msg =
     (case bind_address (m_rcv msg) of
        Some b \<Rightarrow> (address b, port_no b, proto b)
      | None \<Rightarrow> (dst_ip (m_rcv msg), dst_port (m_rcv msg), rcv_proto (m_rcv msg)))"

text \<open>The test of a condition other than \<open>COND_IF_RAND\<close>: the result, and whether the lump is
  marked.\<close>

definition check_cond :: "sip_msg \<Rightarrow> socket_info option \<Rightarrow> lump_conditions \<Rightarrow> bool \<times> bool" where
  "check_cond msg snd_s c =
     (case c of
        COND_FALSE \<Rightarrow> (False, False)
      | COND_TRUE \<Rightarrow> (True, True)
      | _ \<Rightarrow>
        (case snd_s of
           None \<Rightarrow> (True, False)
         | Some s \<Rightarrow>
           (let (ip, port, pr) = get_ip_port_proto msg;
                same = (case c of
                    COND_IF_DIFF_REALMS \<Rightarrow>
                      port = port_no s \<and> pr = proto s \<and> ip_addr_cmp ip (address s)
                  | COND_IF_DIFF_AF \<Rightarrow> af ip = af (address s)
                  | COND_IF_DIFF_PROTO \<Rightarrow> pr = proto s
                  | COND_IF_DIFF_PORT \<Rightarrow> port = port_no s
                  | COND_IF_DIFF_IP \<Rightarrow> ip_addr_cmp ip (address s)
                  | _ \<Rightarrow> True)
            in (\<not> same, \<not> same))))"

definition lump_check_opt :: "sip_msg \<Rightarrow> socket_info option \<Rightarrow> (nat \<Rightarrow> bool) \<Rightarrow> nat \<Rightarrow>
    lump_conditions \<Rightarrow> lump \<Rightarrow> bool \<times> nat \<times> lump" where
  "lump_check_opt msg snd_s rnd k c l =
     (if c = COND_IF_RAND then (rnd k, Suc k, l)
      else let (ok, mark) = check_cond msg snd_s c
           in (ok, k, if mark then set_flags (or (l_flags l) LUMPFLAG_COND_TRUE) l else l))"

section \<open>Substitutions\<close>

definition TRANSPORT_PARAM :: string where "TRANSPORT_PARAM = '';transport=''"

text \<open>\<open>send_address_str\<close> and \<open>send_port_str\<close>, with whether they are the socket's own.\<close>

definition send_address :: "sip_msg \<Rightarrow> socket_info \<Rightarrow> string \<times> bool" where
  "send_address msg s =
     (if m_set_global_address msg \<noteq> [] then (m_set_global_address msg, False)
      else (address_str s, True))"

definition send_port :: "sip_msg \<Rightarrow> socket_info \<Rightarrow> string \<times> bool" where
  "send_port msg s =
     (if m_set_global_port msg \<noteq> [] then (m_set_global_port msg, False)
      else (port_no_str s, True))"

definition proto_len :: "int \<Rightarrow> u32" where
  "proto_len p =
     (if p \<in> {PROTO_NONE, PROTO_UDP, PROTO_TCP, PROTO_TLS} then 3
      else if p = PROTO_SCTP then 4 else 0)"

definition transport_len :: "int \<Rightarrow> u32" where
  "transport_len p =
     (if p \<in> {PROTO_NONE, PROTO_UDP} then 0
      else if p \<in> {PROTO_TCP, PROTO_TLS} then of_nat (length TRANSPORT_PARAM) + 3
      else if p = PROTO_SCTP then of_nat (length TRANSPORT_PARAM) + 4 else 0)"

definition SUBST_LUMP_LEN :: "sip_msg \<Rightarrow> socket_info option \<Rightarrow> lump_subst \<Rightarrow> u32" where
  "SUBST_LUMP_LEN msg send_sock subst =
     (let rcv = (\<lambda>f. case bind_address (m_rcv msg) of Some b \<Rightarrow> f b | None \<Rightarrow> 0);
          snd = (\<lambda>f. case send_sock of Some s \<Rightarrow> f s | None \<Rightarrow> 0)
      in case subst of
        SUBST_RCV_IP \<Rightarrow>
          rcv (\<lambda>b. of_nat (length (address_str b)) + (if af (address b) \<noteq> AF_INET then 2 else 0))
      | SUBST_RCV_PORT \<Rightarrow> rcv (\<lambda>b. of_nat (length (port_no_str b)))
      | SUBST_RCV_PROTO \<Rightarrow> rcv (\<lambda>b. proto_len (proto b))
      | SUBST_RCV_ALL \<Rightarrow>
          rcv (\<lambda>b. of_nat (length (address_str b)) + (if af (address b) \<noteq> AF_INET then 2 else 0)
            + (if port_no b \<noteq> SIP_PORT then 1 + of_nat (length (port_no_str b)) else 0)
            + transport_len (proto b))
      | SUBST_SND_IP \<Rightarrow>
          snd (\<lambda>s. let (a, own) = send_address msg s
            in of_nat (length a) + (if af (address s) \<noteq> AF_INET \<and> own then 2 else 0))
      | SUBST_SND_PORT \<Rightarrow> snd (\<lambda>s. let (p, own) = send_port msg s in of_nat (length p))
      | SUBST_SND_PROTO \<Rightarrow> snd (\<lambda>s. proto_len (proto s))
      | SUBST_SND_ALL \<Rightarrow>
          snd (\<lambda>s. let (a, own) = send_address msg s; (p, pown) = send_port msg s
            in of_nat (length a) + (if af (address s) \<noteq> AF_INET \<and> own then 2 else 0)
              + (if port_no s \<noteq> SIP_PORT \<or> \<not> pown then 1 + of_nat (length p) else 0)
              + transport_len (proto s))
      | SUBST_NOP \<Rightarrow> 0)"

definition brackets :: "bool \<Rightarrow> string \<Rightarrow> string" where
  "brackets v6 a = (if v6 then ''['' else []) @ a @ (if v6 then '']'' else [])"

definition proto_str :: "int \<Rightarrow> string" where
  "proto_str p =
     (if p \<in> {PROTO_NONE, PROTO_UDP} then ''udp'' else if p = PROTO_TCP then ''tcp''
      else if p = PROTO_TLS then ''tls'' else if p = PROTO_SCTP then ''sctp'' else [])"

definition transport_str :: "int \<Rightarrow> string" where
  "transport_str p =
     (if p \<in> {PROTO_NONE, PROTO_UDP} then []
      else if p = PROTO_TCP then TRANSPORT_PARAM @ ''tcp''
      else if p = PROTO_TLS then TRANSPORT_PARAM @ ''tls''
      else if p = PROTO_SCTP then TRANSPORT_PARAM @ ''sctp'' else [])"

definition SUBST_LUMP :: "sip_msg \<Rightarrow> socket_info option \<Rightarrow> lump_subst \<Rightarrow> string" where
  "SUBST_LUMP msg send_sock subst =
     (let rcv = (\<lambda>f. case bind_address (m_rcv msg) of Some b \<Rightarrow> f b | None \<Rightarrow> []);
          snd = (\<lambda>f. case send_sock of Some s \<Rightarrow> f s | None \<Rightarrow> [])
      in case subst of
        SUBST_RCV_IP \<Rightarrow> rcv (\<lambda>b. brackets (af (address b) \<noteq> AF_INET) (address_str b))
      | SUBST_RCV_PORT \<Rightarrow> rcv port_no_str
      | SUBST_RCV_ALL \<Rightarrow>
          rcv (\<lambda>b. brackets (af (address b) \<noteq> AF_INET) (address_str b)
            @ (if port_no b \<noteq> SIP_PORT then '':'' @ port_no_str b else [])
            @ transport_str (proto b))
      | SUBST_SND_IP \<Rightarrow>
          snd (\<lambda>s. let (a, own) = send_address msg s
            in brackets (af (address s) \<noteq> AF_INET \<and> own) a)
      | SUBST_SND_PORT \<Rightarrow> snd (\<lambda>s. let (p, own) = send_port msg s in p)
      | SUBST_SND_ALL \<Rightarrow>
          snd (\<lambda>s. let (a, own) = send_address msg s; (p, pown) = send_port msg s
            in brackets (af (address s) \<noteq> AF_INET \<and> own) a
              @ (if port_no s \<noteq> SIP_PORT \<or> \<not> pown then '':'' @ p else [])
              @ transport_str (proto s))
      | SUBST_RCV_PROTO \<Rightarrow> rcv (\<lambda>b. proto_str (proto b))
      | SUBST_SND_PROTO \<Rightarrow> snd (\<lambda>s. proto_str (proto s))
      | SUBST_NOP \<Rightarrow> [])"

lemma length_SUBST_LUMP:
  "of_nat (length (SUBST_LUMP msg send_sock subst)) = SUBST_LUMP_LEN msg send_sock subst"
proof -
  have tr: "of_nat (length (transport_str p)) = transport_len p" for p
    by (simp add: transport_str_def transport_len_def TRANSPORT_PARAM_def proto_defs)
  have pr: "of_nat (length (proto_str p)) = proto_len p" for p
    by (simp add: proto_str_def proto_len_def proto_defs)
  have br: "of_nat (length (brackets v a)) = (of_nat (length a) + (if v then 2 else 0) :: u32)" for v a
    by (simp add: brackets_def)
  show ?thesis
    by (cases subst)
      (simp_all add: SUBST_LUMP_def SUBST_LUMP_LEN_def tr pr br case_prod_unfold Let_def
        split: option.split)
qed

section \<open>The length of a list of lumps\<close>

text \<open>
  The loops over \<open>t->before\<close> and \<open>t->after\<close>: what they add to \<open>new_len\<close>, the
  number of random draws made so far, and the chain with the marks of the conditions.
\<close>

fun before_len :: "sip_msg \<Rightarrow> socket_info option \<Rightarrow> (nat \<Rightarrow> bool) \<Rightarrow> nat \<Rightarrow> lump option \<Rightarrow>
    u32 \<times> nat \<times> lump option" where
  "before_len msg snd_s rnd k None = (0, k, None)"
| "before_len msg snd_s rnd k (Some (Lump t op n f b a)) =
     (case op of
        LUMP_ADD v \<Rightarrow>
          (let (m, k', b') = before_len msg snd_s rnd k b in (n + m, k', Some (Lump t op n f b' a)))
      | LUMP_ADD_SUBST s \<Rightarrow>
          (let (m, k', b') = before_len msg snd_s rnd k b
           in (SUBST_LUMP_LEN msg snd_s s + m, k', Some (Lump t op n f b' a)))
      | LUMP_ADD_OPT c \<Rightarrow>
          (let (ok, k1, r) = lump_check_opt msg snd_s rnd k c (Lump t op n f b a)
           in if \<not> ok then (0, k1, Some r)
              else let (m, k', b') = before_len msg snd_s rnd k1 b in (m, k', Some (set_before b' r)))
      | _ \<Rightarrow>
          (let (m, k', b') = before_len msg snd_s rnd k b in (m, k', Some (Lump t op n f b' a))))"

fun after_len :: "sip_msg \<Rightarrow> socket_info option \<Rightarrow> (nat \<Rightarrow> bool) \<Rightarrow> nat \<Rightarrow> lump option \<Rightarrow>
    u32 \<times> nat \<times> lump option" where
  "after_len msg snd_s rnd k None = (0, k, None)"
| "after_len msg snd_s rnd k (Some (Lump t op n f b a)) =
     (case op of
        LUMP_ADD v \<Rightarrow>
          (let (m, k', a') = after_len msg snd_s rnd k a in (n + m, k', Some (Lump t op n f b a')))
      | LUMP_ADD_SUBST s \<Rightarrow>
          (let (m, k', a') = after_len msg snd_s rnd k a
           in (SUBST_LUMP_LEN msg snd_s s + m, k', Some (Lump t op n f b a')))
      | LUMP_ADD_OPT c \<Rightarrow>
          (let (ok, k1, r) = lump_check_opt msg snd_s rnd k c (Lump t op n f b a)
           in if \<not> ok then (0, k1, Some r)
              else let (m, k', a') = after_len msg snd_s rnd k1 a in (m, k', Some (set_after a' r)))
      | _ \<Rightarrow>
          (let (m, k', a') = after_len msg snd_s rnd k a in (m, k', Some (Lump t op n f b a'))))"

text \<open>The switch on \<open>t->op\<close>: the change of \<open>new_len\<close>, the new \<open>s_offset\<close> and the
  repaired operation and length.\<close>

definition main_len :: "sip_msg \<Rightarrow> socket_info option \<Rightarrow> u32 \<Rightarrow> lump_op \<Rightarrow> u32 \<Rightarrow>
    u32 \<times> u32 \<times> lump_op \<times> u32" where
  "main_len msg snd_s s_offset op n =
     (case op of
        LUMP_ADD v \<Rightarrow> (n, s_offset, op, n)
      | LUMP_ADD_SUBST s \<Rightarrow> (SUBST_LUMP_LEN msg snd_s s, s_offset, op, n)
      | LUMP_ADD_OPT c \<Rightarrow> (0, s_offset, op, n)
      | LUMP_DEL offset \<Rightarrow>
          if offset < s_offset
          then let n' = (if n > s_offset - offset then n - (s_offset - offset) else 0)
               in (- n', s_offset + n', LUMP_DEL s_offset, n')
          else (- n, offset + n, op, n)
      | LUMP_NOP offset \<Rightarrow>
          if offset < s_offset then (0, s_offset, LUMP_NOP s_offset, n) else (0, offset, op, n))"

text \<open>One turn of the loop over \<open>t->next\<close>, after the test of a conditional lump.\<close>

definition lump_len :: "sip_msg \<Rightarrow> socket_info option \<Rightarrow> (nat \<Rightarrow> bool) \<Rightarrow> nat \<Rightarrow> u32 \<Rightarrow> lump \<Rightarrow>
    u32 \<times> nat \<times> u32 \<times> lump" where
  "lump_len msg snd_s rnd k s_offset t =
     (let (lb, k1, b) = before_len msg snd_s rnd k (l_before t);
          (lm, s', op, n) = main_len msg snd_s s_offset (l_op t) (l_len t);
          (la, k2, a) = after_len msg snd_s rnd k1 (l_after t)
      in (lb + lm + la, k2, s', Lump (l_type t) op n (l_flags t) b a))"

fun lumps_len_loop :: "sip_msg \<Rightarrow> socket_info option \<Rightarrow> (nat \<Rightarrow> bool) \<Rightarrow> nat \<Rightarrow> u32 \<Rightarrow> lump list \<Rightarrow>
    u32 \<times> nat \<times> lump list" where
  "lumps_len_loop msg snd_s rnd k s_offset [] = (0, k, [])"
| "lumps_len_loop msg snd_s rnd k s_offset (t # ts) =
     (let (ok, k1, t1) = (case l_op t of LUMP_ADD_OPT c \<Rightarrow> lump_check_opt msg snd_s rnd k c t
                          | _ \<Rightarrow> (True, k, t))
      in if \<not> ok
         then let (m, k2, ts') = lumps_len_loop msg snd_s rnd k1 s_offset ts in (m, k2, t1 # ts')
         else let (m1, k2, s', t2) = lump_len msg snd_s rnd k1 s_offset t1;
                  (m, k3, ts') = lumps_len_loop msg snd_s rnd k2 s' ts
              in (m1 + m, k3, t2 # ts'))"

definition lumps_len :: "sip_msg \<Rightarrow> lump list \<Rightarrow> socket_info option \<Rightarrow> (nat \<Rightarrow> bool) \<Rightarrow> nat \<Rightarrow>
    u32 \<times> nat \<times> lump list" where
  "lumps_len msg lumps send_sock rnd k = lumps_len_loop msg send_sock rnd k 0 lumps"

section \<open>Writing the changed message\<close>

text \<open>\<open>memcpy(new_buf+offset, r->u.value, r->len)\<close>, for a value of at least that length.\<close>

definition lump_bytes :: "string option \<Rightarrow> u32 \<Rightarrow> string" where
  "lump_bytes v n = (case v of Some s \<Rightarrow> take (unat n) s | None \<Rightarrow> [])"

fun before_out :: "sip_msg \<Rightarrow> socket_info option \<Rightarrow> (nat \<Rightarrow> bool) \<Rightarrow> nat \<Rightarrow> lump option \<Rightarrow>
    string \<times> nat \<times> lump option" where
  "before_out msg snd_s rnd k None = ([], k, None)"
| "before_out msg snd_s rnd k (Some (Lump t op n f b a)) =
     (case op of
        LUMP_ADD v \<Rightarrow>
          (let (x, k', b') = before_out msg snd_s rnd k b
           in (lump_bytes v n @ x, k', Some (Lump t op n f b' a)))
      | LUMP_ADD_SUBST s \<Rightarrow>
          (let (x, k', b') = before_out msg snd_s rnd k b
           in (SUBST_LUMP msg snd_s s @ x, k', Some (Lump t op n f b' a)))
      | LUMP_ADD_OPT c \<Rightarrow>
          (let (ok, k1, r) = lump_check_opt msg snd_s rnd k c (Lump t op n f b a)
           in if \<not> ok then ([], k1, Some r)
              else let (x, k', b') = before_out msg snd_s rnd k1 b in (x, k', Some (set_before b' r)))
      | _ \<Rightarrow>
          (let (x, k', b') = before_out msg snd_s rnd k b in (x, k', Some (Lump t op n f b' a))))"

fun after_out :: "sip_msg \<Rightarrow> socket_info option \<Rightarrow> (nat \<Rightarrow> bool) \<Rightarrow> nat \<Rightarrow> lump option \<Rightarrow>
    string \<times> nat \<times> lump option" where
  "after_out msg snd_s rnd k None = ([], k, None)"
| "after_out msg snd_s rnd k (Some (Lump t op n f b a)) =
     (case op of
        LUMP_ADD v \<Rightarrow>
          (let (x, k', a') = after_out msg snd_s rnd k a
           in (lump_bytes v n @ x, k', Some (Lump t op n f b a')))
      | LUMP_ADD_SUBST s \<Rightarrow>
          (let (x, k', a') = after_out msg snd_s rnd k a
           in (SUBST_LUMP msg snd_s s @ x, k', Some (Lump t op n f b a')))
      | LUMP_ADD_OPT c \<Rightarrow>
          (let (ok, k1, r) = lump_check_opt msg snd_s rnd k c (Lump t op n f b a)
           in if \<not> ok then ([], k1, Some r)
              else let (x, k', a') = after_out msg snd_s rnd k1 a in (x, k', Some (set_after a' r)))
      | _ \<Rightarrow>
          (let (x, k', a') = after_out msg snd_s rnd k a in (x, k', Some (Lump t op n f b a'))))"

definition main_out :: "sip_msg \<Rightarrow> socket_info option \<Rightarrow> lump_op \<Rightarrow> u32 \<Rightarrow> string" where
  "main_out msg snd_s op n =
     (case op of
        LUMP_ADD v \<Rightarrow> lump_bytes v n
      | LUMP_ADD_SUBST s \<Rightarrow> SUBST_LUMP msg snd_s s
      | _ \<Rightarrow> [])"

text \<open>One turn of the loop: the bytes written, the draws made, the new \<open>s_offset\<close> and the
  lump.  A lump whose offset lies before \<open>s_offset\<close> is ignored together with its chains.\<close>

definition process_lump :: "sip_msg \<Rightarrow> socket_info option \<Rightarrow> (nat \<Rightarrow> bool) \<Rightarrow> nat \<Rightarrow> u32 \<Rightarrow> lump \<Rightarrow>
    string \<times> nat \<times> u32 \<times> lump" where
  "process_lump msg snd_s rnd k s_offset t =
     (let chains = (\<lambda>mid.
            let (xb, k1, b) = before_out msg snd_s rnd k (l_before t);
                (xa, k2, a) = after_out msg snd_s rnd k1 (l_after t)
            in (xb @ mid @ xa, k2, set_after a (set_before b t)));
          edit = (\<lambda>offset skip.
            if s_offset > offset then ([], k, s_offset, t)
            else let (x, k', t') = chains []
                 in (take (unat (offset - s_offset)) (drop (unat s_offset) (m_buf msg)) @ x,
                     k', offset + skip, t'))
      in case l_op t of
           LUMP_NOP offset \<Rightarrow> edit offset 0
         | LUMP_DEL offset \<Rightarrow> edit offset (l_len t)
         | op \<Rightarrow> (let (x, k', t') = chains (main_out msg snd_s op (l_len t)) in (x, k', s_offset, t')))"

fun process_lumps :: "sip_msg \<Rightarrow> socket_info option \<Rightarrow> (nat \<Rightarrow> bool) \<Rightarrow> nat \<Rightarrow> u32 \<Rightarrow> lump list \<Rightarrow>
    string \<times> nat \<times> u32 \<times> lump list" where
  "process_lumps msg snd_s rnd k s_offset [] = ([], k, s_offset, [])"
| "process_lumps msg snd_s rnd k s_offset (t # ts) =
     (let (ok, k1, t1) = (case l_op t of LUMP_ADD_OPT c \<Rightarrow> lump_check_opt msg snd_s rnd k c t
                          | _ \<Rightarrow> (True, k, t))
      in if \<not> ok
         then let (x, k2, s', ts') = process_lumps msg snd_s rnd k1 s_offset ts in (x, k2, s', t1 # ts')
         else let (x1, k2, s1, t2) = process_lump msg snd_s rnd k1 s_offset t1;
                  (x, k3, s', ts') = process_lumps msg snd_s rnd k2 s1 ts
              in (x1 @ x, k3, s', t2 # ts'))"

section \<open>Assembling the outgoing message\<close>

text \<open>
  The end of \<open>build_req_buf_from_sip_req\<close>: \<open>body_delta\<close> is the result of the earlier call
  of \<open>lumps_len\<close> on the body lumps, \<open>mem\<close> says whether \<open>pkg_malloc\<close> succeeds.  The
  result is \<open>returned_len\<close>, the size the buffer has apart from its final zero byte, and the
  bytes written into it from its start.
\<close>

definition build_req_tail :: "bool \<Rightarrow> sip_msg \<Rightarrow> socket_info option \<Rightarrow> (nat \<Rightarrow> bool) \<Rightarrow> nat \<Rightarrow> u32 \<Rightarrow>
    (u32 \<times> string) option" where
  "build_req_tail mem msg send_sock rnd k body_delta =
     (let (delta, k1, add_rm) = lumps_len msg (m_add_rm msg) send_sock rnd k;
          new_len = m_len msg + body_delta + delta;
          new_len = (case m_new_uri msg of
                       Some u \<Rightarrow> new_len - of_nat (length (m_uri msg)) + of_nat (length u)
                     | None \<Rightarrow> new_len)
      in if \<not> mem then None
         else let (out, s_offset) = (case m_new_uri msg of
                       Some u \<Rightarrow> (take (m_uri_offset msg) (m_buf msg) @ u,
                                  of_nat (m_uri_offset msg) + of_nat (length (m_uri msg)))
                     | None \<Rightarrow> ([], 0));
                  (x1, k2, s1, _) = process_lumps msg send_sock rnd k1 s_offset add_rm;
                  (x2, k3, s2, _) = process_lumps msg send_sock rnd k2 s1 (m_body_lumps msg);
                  rest = take (unat (m_len msg - s2)) (drop (unat s2) (m_buf msg))
              in Some (new_len, out @ x1 @ x2 @ rest))"

definition build_res_tail :: "bool \<Rightarrow> sip_msg \<Rightarrow> (nat \<Rightarrow> bool) \<Rightarrow> nat \<Rightarrow> u32 \<Rightarrow> nat \<Rightarrow> nat \<Rightarrow>
    (u32 \<times> string) option" where
  "build_res_tail mem msg rnd k body_delta statuscode status_offset =
     (let (delta, k1, add_rm) = lumps_len msg (m_add_rm msg) None rnd k;
          new_len = m_len msg + body_delta + delta
      in if \<not> mem then None
         else let (x1, k2, s1, _) = process_lumps msg None rnd k1 0 add_rm;
                  (x2, k3, s2, _) = process_lumps msg None rnd k2 s1 (m_body_lumps msg);
                  rest = take (unat (m_len msg - s2)) (drop (unat s2) (m_buf msg));
                  new_buf = x1 @ x2 @ rest
              in Some (new_len,
                   if statuscode = 503 then new_buf[status_offset + 2 := CHR ''0''] else new_buf))"

section \<open>What a chain contributes\<close>

text \<open>The reference meaning of a chain: its texts in order, up to the first condition that
  fails.  It depends on the operations and lengths only.\<close>

definition opn :: "lump \<Rightarrow> lump_op \<times> u32" where
  "opn l = (l_op l, l_len l)"

fun emit :: "sip_msg \<Rightarrow> socket_info option \<Rightarrow> (lump_op \<times> u32) list \<Rightarrow> string" where
  "emit msg snd_s [] = []"
| "emit msg snd_s ((op, n) # r) =
     (case op of
        LUMP_ADD_OPT c \<Rightarrow> if fst (check_cond msg snd_s c) then emit msg snd_s r else []
      | _ \<Rightarrow> main_out msg snd_s op n @ emit msg snd_s r)"

text \<open>A lump whose value has the length it claims and whose condition is deterministic.\<close>

definition step_ok :: "lump_op \<times> u32 \<Rightarrow> bool" where
  "step_ok p =
     (case fst p of
        LUMP_ADD (Some s) \<Rightarrow> unat (snd p) \<le> length s
      | LUMP_ADD None \<Rightarrow> snd p = 0
      | LUMP_ADD_OPT c \<Rightarrow> c \<noteq> COND_IF_RAND
      | _ \<Rightarrow> True)"

abbreviation bops :: "lump option \<Rightarrow> (lump_op \<times> u32) list" where
  "bops b \<equiv> map opn (before_chain b)"

abbreviation aops :: "lump option \<Rightarrow> (lump_op \<times> u32) list" where
  "aops a \<equiv> map opn (after_chain a)"

lemma opn_simps [simp]:
  "opn (Lump t op n f b a) = (op, n)" "opn (set_before b l) = opn l" "opn (set_after a l) = opn l"
  "opn (set_flags f l) = opn l"
  by (simp_all add: opn_def)

lemma lump_check_opt_det:
  assumes "c \<noteq> COND_IF_RAND"
  obtains f where "lump_check_opt msg snd_s rnd k c l =
    (fst (check_cond msg snd_s c), k, set_flags f l)"
proof (cases "snd (check_cond msg snd_s c)")
  case True
  then show ?thesis
    using assms that [of "or (l_flags l) LUMPFLAG_COND_TRUE"]
    by (simp add: lump_check_opt_def case_prod_unfold Let_def)
next
  case False
  moreover have "set_flags (l_flags l) l = l" by (cases l) simp
  ultimately show ?thesis
    using assms that [of "l_flags l"] by (simp add: lump_check_opt_def case_prod_unfold Let_def)
qed

lemma length_main_out:
  "step_ok (op, n) \<Longrightarrow> of_nat (length (main_out msg snd_s op n)) =
     (case op of LUMP_ADD v \<Rightarrow> n | LUMP_ADD_SUBST s \<Rightarrow> SUBST_LUMP_LEN msg snd_s s | _ \<Rightarrow> 0)"
  by (auto simp: main_out_def step_ok_def lump_bytes_def length_SUBST_LUMP min_absorb2
      split: lump_op.split option.split)

text \<open>
  The four loops along a chain (two directions, measuring or writing) differ in the link they
  follow and in what they accumulate.  The locale states what they share: the recursion along
  \<open>rest\<close>, with the accumulated value a homomorphic image \<open>hom\<close> of the text.
\<close>

locale chain_loop =
  fixes msg :: sip_msg and snd_s :: "socket_info option" and rnd :: "nat \<Rightarrow> bool"
    and walk :: "nat \<Rightarrow> lump option \<Rightarrow> 'r \<times> nat \<times> lump option"
    and rest :: "lump \<Rightarrow> lump option"
    and relink :: "lump option \<Rightarrow> lump \<Rightarrow> lump"
    and ops :: "lump option \<Rightarrow> (lump_op \<times> u32) list"
    and hom :: "string \<Rightarrow> 'r" and plus :: "'r \<Rightarrow> 'r \<Rightarrow> 'r"
    and val :: "lump_op \<times> u32 \<Rightarrow> 'r"
  assumes walk_None: "walk k None = (hom [], k, None)"
    and walk_add: "\<forall>c. l_op l \<noteq> LUMP_ADD_OPT c \<Longrightarrow> walk k (rest l) = (m, k', b') \<Longrightarrow>
      walk k (Some l) = (plus (val (opn l)) m, k', Some (relink b' l))"
    and walk_opt: "l_op l = LUMP_ADD_OPT c \<Longrightarrow> lump_check_opt msg snd_s rnd k c l = (ok, k1, r) \<Longrightarrow>
      walk k1 (rest l) = (m, k', b') \<Longrightarrow>
      walk k (Some l) = (if \<not> ok then (hom [], k1, Some r) else (m, k', Some (relink b' r)))"
    and ops_None: "ops None = []"
    and ops_Some: "ops (Some l) = opn l # ops (rest l)"
    and rest_relink: "rest (relink b' l) = b'" "rest (set_flags f l) = rest l"
      "opn (relink b' l) = opn l"
    and chain_induct: "P None \<Longrightarrow> (\<And>l. P (rest l) \<Longrightarrow> P (Some l)) \<Longrightarrow> P b"
    and hom_append: "hom (x @ y) = plus (hom x) (hom y)"
    and hom_main: "step_ok p \<Longrightarrow> val p = hom (main_out msg snd_s (fst p) (snd p))"
begin

lemma walk_ex:
  "list_all step_ok (ops b) \<Longrightarrow>
     \<exists>b'. walk k b = (hom (emit msg snd_s (ops b)), k, b') \<and> ops b' = ops b"
proof (induction b rule: chain_induct)
  case 1
  then show ?case by (simp add: walk_None ops_None)
next
  case (2 l)
  then have ok: "step_ok (opn l)" and "list_all step_ok (ops (rest l))" by (simp_all add: ops_Some)
  with 2 obtain b' where b': "walk k (rest l) = (hom (emit msg snd_s (ops (rest l))), k, b')"
    "ops b' = ops (rest l)" by blast
  show ?case
  proof (cases "\<exists>c. l_op l = LUMP_ADD_OPT c")
    case True
    then obtain c where c: "l_op l = LUMP_ADD_OPT c" by blast
    then have "c \<noteq> COND_IF_RAND" using ok by (simp add: step_ok_def opn_def)
    then obtain f where f: "lump_check_opt msg snd_s rnd k c l =
        (fst (check_cond msg snd_s c), k, set_flags f l)" by (rule lump_check_opt_det)
    have "opn l = (LUMP_ADD_OPT c, l_len l)" using c by (simp add: opn_def)
    then show ?thesis
      using walk_opt [OF c f b' (1)] b' by (simp add: ops_Some rest_relink)
  next
    case False
    then have "emit msg snd_s (opn l # x) = main_out msg snd_s (fst (opn l)) (snd (opn l)) @ emit msg snd_s x"
      for x by (auto simp: opn_def split: lump_op.split)
    then show ?thesis
      using walk_add [OF _ b' (1)] False b' hom_main [OF ok]
      by (simp add: ops_Some rest_relink hom_append)
  qed
qed

lemma walkE:
  assumes "list_all step_ok (ops b)"
  obtains b' where "walk k b = (hom (emit msg snd_s (ops b)), k, b')" "ops b' = ops b"
  using walk_ex [OF assms] by blast

end

lemma before_induct: "P None \<Longrightarrow> (\<And>l. P (l_before l) \<Longrightarrow> P (Some l)) \<Longrightarrow> P b"
  by (induction b rule: before_chain.induct) auto

lemma after_induct: "P None \<Longrightarrow> (\<And>l. P (l_after l) \<Longrightarrow> P (Some l)) \<Longrightarrow> P a"
  by (induction a rule: after_chain.induct) auto

definition size_of :: "string \<Rightarrow> u32" where
  "size_of x = of_nat (length x)"

definition main_size :: "sip_msg \<Rightarrow> socket_info option \<Rightarrow> lump_op \<times> u32 \<Rightarrow> u32" where
  "main_size msg snd_s p = (case fst p of LUMP_ADD v \<Rightarrow> snd p
     | LUMP_ADD_SUBST s \<Rightarrow> SUBST_LUMP_LEN msg snd_s s | _ \<Rightarrow> 0)"

lemma before_loops:
  "\<forall>c. l_op l \<noteq> LUMP_ADD_OPT c \<Longrightarrow> before_len msg snd_s rnd k (l_before l) = (m, k', b') \<Longrightarrow>
     before_len msg snd_s rnd k (Some l) = (main_size msg snd_s (opn l) + m, k', Some (set_before b' l))"
  "\<forall>c. l_op l \<noteq> LUMP_ADD_OPT c \<Longrightarrow> before_out msg snd_s rnd k (l_before l) = (x, k', b') \<Longrightarrow>
     before_out msg snd_s rnd k (Some l) =
       (main_out msg snd_s (fst (opn l)) (snd (opn l)) @ x, k', Some (set_before b' l))"
  by (cases l; auto simp: main_size_def main_out_def split: lump_op.split)+

lemma after_loops:
  "\<forall>c. l_op l \<noteq> LUMP_ADD_OPT c \<Longrightarrow> after_len msg snd_s rnd k (l_after l) = (m, k', a') \<Longrightarrow>
     after_len msg snd_s rnd k (Some l) = (main_size msg snd_s (opn l) + m, k', Some (set_after a' l))"
  "\<forall>c. l_op l \<noteq> LUMP_ADD_OPT c \<Longrightarrow> after_out msg snd_s rnd k (l_after l) = (x, k', a') \<Longrightarrow>
     after_out msg snd_s rnd k (Some l) =
       (main_out msg snd_s (fst (opn l)) (snd (opn l)) @ x, k', Some (set_after a' l))"
  by (cases l; auto simp: main_size_def main_out_def split: lump_op.split)+

lemma opt_loops:
  assumes "l_op l = LUMP_ADD_OPT c" "lump_check_opt msg snd_s rnd k c l = (ok, k1, r)"
  shows "before_len msg snd_s rnd k1 (l_before l) = (m, k', b') \<Longrightarrow> before_len msg snd_s rnd k (Some l) =
      (if \<not> ok then (0, k1, Some r) else (m, k', Some (set_before b' r)))"
    "after_len msg snd_s rnd k1 (l_after l) = (m, k', b') \<Longrightarrow> after_len msg snd_s rnd k (Some l) =
      (if \<not> ok then (0, k1, Some r) else (m, k', Some (set_after b' r)))"
    "before_out msg snd_s rnd k1 (l_before l) = (x, k', b') \<Longrightarrow> before_out msg snd_s rnd k (Some l) =
      (if \<not> ok then ([], k1, Some r) else (x, k', Some (set_before b' r)))"
    "after_out msg snd_s rnd k1 (l_after l) = (x, k', b') \<Longrightarrow> after_out msg snd_s rnd k (Some l) =
      (if \<not> ok then ([], k1, Some r) else (x, k', Some (set_after b' r)))"
  using assms by (cases l; simp)+

lemma flags_links [simp]: "l_before (set_flags f l) = l_before l" "l_after (set_flags f l) = l_after l"
  by simp_all

lemma main_size_eq: "step_ok p \<Longrightarrow> main_size msg snd_s p = size_of (main_out msg snd_s (fst p) (snd p))"
  using length_main_out [of "fst p" "snd p"] by (simp add: main_size_def size_of_def)

interpretation bl: chain_loop msg snd_s rnd "before_len msg snd_s rnd" l_before set_before bops
    size_of "(+)" "main_size msg snd_s" for msg snd_s rnd
  by unfold_locales
    (simp_all add: before_loops opt_loops before_induct main_size_eq, simp_all add: size_of_def)

interpretation al: chain_loop msg snd_s rnd "after_len msg snd_s rnd" l_after set_after aops
    size_of "(+)" "main_size msg snd_s" for msg snd_s rnd
  by unfold_locales
    (simp_all add: after_loops opt_loops after_induct main_size_eq, simp_all add: size_of_def)

interpretation bo: chain_loop msg snd_s rnd "before_out msg snd_s rnd" l_before set_before bops
    "\<lambda>x. x" "(@)" "\<lambda>p. main_out msg snd_s (fst p) (snd p)" for msg snd_s rnd
  by unfold_locales (simp_all add: before_loops opt_loops before_induct)

interpretation ao: chain_loop msg snd_s rnd "after_out msg snd_s rnd" l_after set_after aops
    "\<lambda>x. x" "(@)" "\<lambda>p. main_out msg snd_s (fst p) (snd p)" for msg snd_s rnd
  by unfold_locales (simp_all add: after_loops opt_loops after_induct)

section \<open>Lists without overlaps\<close>

text \<open>
  \<open>next_off\<close> is where reading continues behind a lump, \<open>fixed s ls\<close> says that no lump
  of \<open>ls\<close> starts before that point, \<open>delta\<close> is by how much the list changes the
  length of the message.
\<close>

definition starts_at :: "u32 \<Rightarrow> lump_op \<Rightarrow> bool" where
  "starts_at s op = (case op of LUMP_DEL o' \<Rightarrow> s \<le> o' | LUMP_NOP o' \<Rightarrow> s \<le> o' | _ \<Rightarrow> True)"

definition next_off :: "u32 \<Rightarrow> lump_op \<times> u32 \<Rightarrow> u32" where
  "next_off s p = (case fst p of LUMP_DEL o' \<Rightarrow> o' + snd p | LUMP_NOP o' \<Rightarrow> o' | _ \<Rightarrow> s)"

fun fixed :: "u32 \<Rightarrow> lump list \<Rightarrow> bool" where
  "fixed s [] \<longleftrightarrow> True"
| "fixed s (l # ls) \<longleftrightarrow> starts_at s (l_op l) \<and> fixed (next_off s (opn l)) ls"

fun end_off :: "u32 \<Rightarrow> lump list \<Rightarrow> u32" where
  "end_off s [] = s"
| "end_off s (l # ls) = end_off (next_off s (opn l)) ls"

definition skipped :: "sip_msg \<Rightarrow> socket_info option \<Rightarrow> lump_op \<Rightarrow> bool" where
  "skipped msg snd_s op =
     (case op of LUMP_ADD_OPT c \<Rightarrow> \<not> fst (check_cond msg snd_s c) | _ \<Rightarrow> False)"

definition lump_delta :: "sip_msg \<Rightarrow> socket_info option \<Rightarrow> lump \<Rightarrow> u32" where
  "lump_delta msg snd_s l =
     (if skipped msg snd_s (l_op l) then 0
      else size_of (emit msg snd_s (bops (l_before l))) + size_of (emit msg snd_s (aops (l_after l)))
        + size_of (main_out msg snd_s (l_op l) (l_len l))
        - (case l_op l of LUMP_DEL _ \<Rightarrow> l_len l | _ \<Rightarrow> 0))"

definition delta :: "sip_msg \<Rightarrow> socket_info option \<Rightarrow> lump list \<Rightarrow> u32" where
  "delta msg snd_s ls = (\<Sum>l\<leftarrow>ls. lump_delta msg snd_s l)"

definition lump_ok :: "nat \<Rightarrow> lump \<Rightarrow> bool" where
  "lump_ok n l \<longleftrightarrow> lump_in_range n l \<and> step_ok (opn l) \<and>
     list_all step_ok (bops (l_before l)) \<and> list_all step_ok (aops (l_after l))"

lemma lump_in_range_cong:
  "opn l = opn l' \<Longrightarrow> lump_in_range n l = lump_in_range n l'"
  by (simp add: lump_in_range_def opn_def split: lump_op.split)

text \<open>The repair of one lump.\<close>

lemma unat_sub_u32:
  fixes a b :: u32
  assumes "a \<le> b"
  shows "unat (b - a) = unat b - unat a"
  using assms by (rule unat_sub)

lemma main_len_spec:
  assumes "main_len msg snd_s s op n = (m, s', op', n')"
    and "lump_in_range lim (Lump t op n f b a)" "step_ok (op, n)" "unat s \<le> lim" "lim < 2 ^ 32"
  shows "starts_at s op'" "s' = next_off s (op', n')" "unat s' \<le> lim"
    "lump_in_range lim (Lump t op' n' f b a)" "step_ok (op', n')"
    "skipped msg snd_s op' = skipped msg snd_s op"
    "m = size_of (main_out msg snd_s op' n') - (case op' of LUMP_DEL _ \<Rightarrow> n' | _ \<Rightarrow> 0)"
proof -
  have size: "size_of (main_out msg snd_s op n) = main_size msg snd_s (op, n)"
    using main_size_eq [OF assms (3)] by simp
  have "starts_at s op' \<and> s' = next_off s (op', n') \<and> unat s' \<le> lim \<and>
    lump_in_range lim (Lump t op' n' f b a) \<and> step_ok (op', n') \<and>
    skipped msg snd_s op' = skipped msg snd_s op \<and>
    m = size_of (main_out msg snd_s op' n') - (case op' of LUMP_DEL _ \<Rightarrow> n' | _ \<Rightarrow> 0)"
  proof (cases op)
    case (LUMP_DEL offset)
    then have r: "unat offset + unat n \<le> lim" using assms (2) by (simp add: lump_in_range_def)
    show ?thesis
    proof (cases "offset < s")
      case True
      define d where "d = s - offset"
      have d: "unat d = unat s - unat offset" "unat offset < unat s"
        using unat_sub_u32 [OF less_imp_le [OF True]] True by (simp_all add: d_def word_less_nat_alt)
      define m' where "m' = (if n > d then n - d else 0)"
      have m': "unat s + unat m' \<le> lim"
        using r d assms (4) unat_sub_u32 [of d n]
        by (auto simp: m'_def word_less_nat_alt word_le_nat_alt)
      then have "unat (s + m') \<le> lim" using assms (5) unat_add_u32 [of s m'] by simp
      with m' assms (1) LUMP_DEL True show ?thesis
        by (auto simp: main_len_def Let_def starts_at_def next_off_def lump_in_range_def step_ok_def
            skipped_def main_out_def size_of_def m'_def d_def)
    next
      case False
      have "unat (offset + n) \<le> lim" using r assms (5) unat_add_u32 [of offset n] by simp
      with False r assms (1) LUMP_DEL show ?thesis
        by (auto simp: main_len_def Let_def starts_at_def next_off_def lump_in_range_def step_ok_def
            skipped_def main_out_def size_of_def)
    qed
  qed (use assms size in \<open>auto simp: main_len_def starts_at_def next_off_def lump_in_range_def
      step_ok_def skipped_def main_out_def size_of_def main_size_def split: if_splits\<close>)
  then show "starts_at s op'" "s' = next_off s (op', n')" "unat s' \<le> lim"
    "lump_in_range lim (Lump t op' n' f b a)" "step_ok (op', n')"
    "skipped msg snd_s op' = skipped msg snd_s op"
    "m = size_of (main_out msg snd_s op' n') - (case op' of LUMP_DEL _ \<Rightarrow> n' | _ \<Rightarrow> 0)"
    by blast+
qed

lemma opt_test:
  assumes "step_ok (opn t)"
  obtains f where "(case l_op t of LUMP_ADD_OPT c \<Rightarrow> lump_check_opt msg snd_s rnd k c t | _ \<Rightarrow> (True, k, t))
    = (\<not> skipped msg snd_s (l_op t), k, set_flags f t)"
proof (cases "\<exists>c. l_op t = LUMP_ADD_OPT c")
  case True
  then obtain c where c: "l_op t = LUMP_ADD_OPT c" by blast
  then have "c \<noteq> COND_IF_RAND" using assms by (simp add: step_ok_def opn_def)
  then obtain f where "lump_check_opt msg snd_s rnd k c t = (fst (check_cond msg snd_s c), k, set_flags f t)"
    by (rule lump_check_opt_det)
  with c that show ?thesis by (simp add: skipped_def)
next
  case False
  moreover have "set_flags (l_flags t) t = t" by (cases t) simp
  ultimately show ?thesis using that [of "l_flags t"] by (auto simp: skipped_def split: lump_op.split)
qed

lemma lump_len_spec:
  assumes "lump_ok lim t" "unat s \<le> lim" "lim < 2 ^ 32" "\<not> skipped msg snd_s (l_op t)"
  obtains t' where "lump_len msg snd_s rnd k s t = (lump_delta msg snd_s t', k, next_off s (opn t'), t')"
    "lump_ok lim t'" "starts_at s (l_op t')" "unat (next_off s (opn t')) \<le> lim"
proof -
  from assms (1) have ok: "lump_in_range lim (Lump (l_type t) (l_op t) (l_len t) (l_flags t) b a)"
      "step_ok (l_op t, l_len t)" "list_all step_ok (bops (l_before t))"
      "list_all step_ok (aops (l_after t))" for b a
    using lump_in_range_cong [of "Lump (l_type t) (l_op t) (l_len t) (l_flags t) b a" t lim]
    by (simp_all add: lump_ok_def opn_def)
  obtain b where b: "before_len msg snd_s rnd k (l_before t) =
      (size_of (emit msg snd_s (bops (l_before t))), k, b)" "bops b = bops (l_before t)"
    using bl.walkE [OF ok(3)] .
  obtain a where a: "after_len msg snd_s rnd k (l_after t) =
      (size_of (emit msg snd_s (aops (l_after t))), k, a)" "aops a = aops (l_after t)"
    using al.walkE [OF ok(4)] .
  obtain m s' op' n' where m: "main_len msg snd_s s (l_op t) (l_len t) = (m, s', op', n')"
    by (metis prod_cases4)
  note main = main_len_spec [OF m ok(1) [of b a] ok(2) assms (2,3)]
  show thesis
  proof (rule that [of "Lump (l_type t) op' n' (l_flags t) b a"])
    show "lump_len msg snd_s rnd k s t =
        (lump_delta msg snd_s (Lump (l_type t) op' n' (l_flags t) b a), k,
         next_off s (opn (Lump (l_type t) op' n' (l_flags t) b a)), Lump (l_type t) op' n' (l_flags t) b a)"
      using assms (4) main (2,6,7) by (simp add: lump_len_def a b m lump_delta_def split: lump_op.split)
  qed (use main a b ok in \<open>simp_all add: lump_ok_def\<close>)
qed

text \<open>What \<open>lumps_len\<close> computes, and that the list it leaves has no overlaps.\<close>

lemma lumps_len_loop_spec:
  assumes "list_all (lump_ok lim) ls" "unat s \<le> lim" "lim < 2 ^ 32"
  shows "\<exists>ls'. lumps_len_loop msg snd_s rnd k s ls = (delta msg snd_s ls', k, ls') \<and>
    fixed s ls' \<and> list_all (lump_ok lim) ls'"
  using assms (1,2)
proof (induction ls arbitrary: s)
  case (Cons t ts)
  then have ok: "lump_ok lim t" "step_ok (opn t)" by (simp_all add: lump_ok_def)
  obtain f where f: "(case l_op t of LUMP_ADD_OPT c \<Rightarrow> lump_check_opt msg snd_s rnd k c t | _ \<Rightarrow> (True, k, t))
    = (\<not> skipped msg snd_s (l_op t), k, set_flags f t)" using opt_test [OF ok(2)] .
  have okf: "lump_ok lim (set_flags f t)"
    using ok (1) lump_in_range_cong [of "set_flags f t" t lim] by (simp add: lump_ok_def)
  show ?case
  proof (cases "skipped msg snd_s (l_op t)")
    case True
    obtain ts' where "lumps_len_loop msg snd_s rnd k s ts = (delta msg snd_s ts', k, ts')" "fixed s ts'"
      "list_all (lump_ok lim) ts'" using Cons.IH [of s] Cons.prems by auto
    with True f okf show ?thesis
      by (intro exI [of _ "set_flags f t # ts'"])
        (auto simp: delta_def lump_delta_def skipped_def starts_at_def next_off_def opn_def
          split: lump_op.splits)
  next
    case False
    then have "\<not> skipped msg snd_s (l_op (set_flags f t))" by simp
    from lump_len_spec [OF okf Cons.prems (2) assms (3) this] obtain t' where
      t': "lump_len msg snd_s rnd k s (set_flags f t) =
        (lump_delta msg snd_s t', k, next_off s (opn t'), t')"
      "lump_ok lim t'" "starts_at s (l_op t')" "unat (next_off s (opn t')) \<le> lim" .
    obtain ts' where "lumps_len_loop msg snd_s rnd k (next_off s (opn t')) ts = (delta msg snd_s ts', k, ts')"
      "fixed (next_off s (opn t')) ts'" "list_all (lump_ok lim) ts'"
      using Cons.IH [OF _ t'(4)] Cons.prems (1) by auto
    with False f t' show ?thesis
      by (intro exI [of _ "t' # ts'"]) (simp add: delta_def)
  qed
qed (simp add: delta_def)

text \<open>What \<open>process_lumps\<close> writes for a list without overlaps.\<close>

lemma process_lump_spec:
  assumes "lump_ok (length (m_buf msg)) t" "starts_at s (l_op t)" "length (m_buf msg) < 2 ^ 32"
    "\<not> skipped msg snd_s (l_op t)"
  obtains x t' where "process_lump msg snd_s rnd k s t = (x, k, next_off s (opn t), t')"
    "size_of x = lump_delta msg snd_s t + next_off s (opn t) - s"
    "\<And>o'. lump_offset t = Some o' \<Longrightarrow> x = take (unat (o' - s)) (drop (unat s) (m_buf msg)) @
       emit msg snd_s (bops (l_before t)) @ emit msg snd_s (aops (l_after t))"
proof -
  from assms (1) have ok: "lump_in_range (length (m_buf msg)) t" "step_ok (opn t)"
      "list_all step_ok (bops (l_before t))" "list_all step_ok (aops (l_after t))"
    by (simp_all add: lump_ok_def)
  obtain b where b: "before_out msg snd_s rnd k (l_before t) = (emit msg snd_s (bops (l_before t)), k, b)"
    using bo.walkE [OF ok(3)] .
  obtain a where a: "after_out msg snd_s rnd k (l_after t) = (emit msg snd_s (aops (l_after t)), k, a)"
    using ao.walkE [OF ok(4)] .
  have copy: "size_of (take (unat (o' - s)) (drop (unat s) (m_buf msg))) = o' - s"
    if "s \<le> o'" "unat o' \<le> length (m_buf msg)" for o'
    using that unat_sub_u32 [OF that (1)]
    by (simp add: size_of_def min_absorb2 word_le_nat_alt)
  have range: "unat o' \<le> length (m_buf msg)" "s \<le> o'" if "lump_offset t = Some o'" for o'
    using ok (1) assms (2) that
    by (auto simp: lump_in_range_def starts_at_def lump_offset_def split: lump_op.splits)
  show thesis
  proof (cases "lump_offset t")
    case None
    with a b assms (4) show thesis
      by (intro that [of "emit msg snd_s (bops (l_before t)) @ main_out msg snd_s (l_op t) (l_len t) @
            emit msg snd_s (aops (l_after t))" "set_after a (set_before b t)"])
        (auto simp: process_lump_def lump_offset_def next_off_def opn_def lump_delta_def size_of_def
          split: lump_op.splits)
  next
    case (Some o')
    note r = range [OF Some]
    from Some a b assms (4) copy [OF r(2,1)] r (2) show thesis
      by (intro that [of "take (unat (o' - s)) (drop (unat s) (m_buf msg)) @
            emit msg snd_s (bops (l_before t)) @ emit msg snd_s (aops (l_after t))"
            "set_after a (set_before b t)"])
        (auto simp: process_lump_def lump_offset_def next_off_def opn_def lump_delta_def size_of_def
          main_out_def not_less split: lump_op.splits)
  qed
qed

lemma process_lumps_spec:
  assumes "list_all (lump_ok (length (m_buf msg))) ls" "fixed s ls" "length (m_buf msg) < 2 ^ 32"
  shows "\<exists>x ls'. process_lumps msg snd_s rnd k s ls = (x, k, end_off s ls, ls') \<and>
    size_of x = delta msg snd_s ls + end_off s ls - s"
  using assms (1,2)
proof (induction ls arbitrary: s)
  case (Cons t ts)
  then have ok: "lump_ok (length (m_buf msg)) t" "step_ok (opn t)" by (simp_all add: lump_ok_def)
  obtain f where f: "(case l_op t of LUMP_ADD_OPT c \<Rightarrow> lump_check_opt msg snd_s rnd k c t | _ \<Rightarrow> (True, k, t))
    = (\<not> skipped msg snd_s (l_op t), k, set_flags f t)" using opt_test [OF ok(2)] .
  have okf: "lump_ok (length (m_buf msg)) (set_flags f t)"
    using ok (1) lump_in_range_cong [of "set_flags f t" t] by (simp add: lump_ok_def)
  obtain x ts' where x: "process_lumps msg snd_s rnd k (next_off s (opn t)) ts =
      (x, k, end_off (next_off s (opn t)) ts, ts')"
      "size_of x = delta msg snd_s ts + end_off (next_off s (opn t)) ts - next_off s (opn t)"
    using Cons.IH [of "next_off s (opn t)"] Cons.prems by auto
  show ?case
  proof (cases "skipped msg snd_s (l_op t)")
    case True
    then have "next_off s (opn t) = s"
      by (auto simp: skipped_def next_off_def opn_def split: lump_op.splits)
    with True f x show ?thesis by (simp add: delta_def lump_delta_def)
  next
    case False
    then have *: "\<not> skipped msg snd_s (l_op (set_flags f t))" "starts_at s (l_op (set_flags f t))"
      using Cons.prems (2) by simp_all
    obtain y t' where y: "process_lump msg snd_s rnd k s (set_flags f t) = (y, k, next_off s (opn t), t')"
        "size_of y = lump_delta msg snd_s (set_flags f t) + next_off s (opn t) - s"
      using process_lump_spec [OF okf *(2) assms (3) *(1)] by (metis opn_simps (4))
    moreover have "lump_delta msg snd_s (set_flags f t) = lump_delta msg snd_s t"
      by (simp add: lump_delta_def split: lump_op.split)
    ultimately show ?thesis
      using False f x by (simp add: delta_def) (simp add: size_of_def)
  qed
qed (simp add: delta_def size_of_def)

lemma next_off_le:
  assumes "lump_in_range lim l" "unat s \<le> lim" "lim < 2 ^ 32"
  shows "unat (next_off s (opn l)) \<le> lim"
  using assms unat_add_u32 [of _ "l_len l"]
  by (auto simp: next_off_def opn_def lump_in_range_def split: lump_op.splits)

lemma end_off_le:
  assumes "list_all (lump_in_range lim) ls" "unat s \<le> lim" "lim < 2 ^ 32"
  shows "unat (end_off s ls) \<le> lim"
  using assms (1,2) by (induction ls arbitrary: s) (simp_all add: next_off_le [OF _ _ assms (3)])

lemma fixed_mono:
  assumes "fixed s ls" "\<And>o'. o' \<in> set (offsets ls) \<Longrightarrow> s' \<le> o'"
  shows "fixed s' ls"
  using assms
proof (induction ls arbitrary: s s')
  case (Cons l ls)
  show ?case
  proof (cases "lump_offset l")
    case None
    then have "next_off s (opn l) = s" "next_off s' (opn l) = s'" "starts_at s' (l_op l)"
      by (auto simp: lump_offset_def next_off_def opn_def starts_at_def split: lump_op.splits)
    with Cons.prems None Cons.IH [of s s'] show ?thesis by simp
  next
    case (Some o')
    then have "next_off s (opn l) = next_off s' (opn l)" "starts_at s' (l_op l) = (s' \<le> o')"
      by (auto simp: lump_offset_def next_off_def opn_def starts_at_def split: lump_op.splits)
    with Cons Some show ?thesis by simp
  qed
qed simp

text \<open>
  C4. \<open>lumps_len\<close> and \<open>process_lumps\<close> agree.  For lumps inside the message, whose values
  have the lengths they claim and whose conditions do not depend on \<open>rand()\<close>,
  \<open>lumps_len\<close> leaves a list without overlaps, and writing that list produces exactly the
  announced change: the bytes written and the unread rest of the message together have the
  length of the message plus the result of \<open>lumps_len\<close>, whatever \<open>rand()\<close> returns.
\<close>

theorem lumps_len_process_lumps:
  assumes "list_all (lump_ok (length (m_buf msg))) ls" "length (m_buf msg) < 2 ^ 32"
    and "lumps_len msg ls send_sock rnd k = (new_len, k1, ls')"
    and "process_lumps msg send_sock rnd' k2 0 ls' = (x, k3, s_offset, ls'')"
  shows "of_nat (length (x @ drop (unat s_offset) (m_buf msg))) = m_len msg + new_len \<and>
    unat s_offset \<le> length (m_buf msg) \<and> fixed 0 ls'"
proof -
  obtain l1 where l1: "lumps_len_loop msg send_sock rnd k 0 ls = (delta msg send_sock l1, k, l1)"
    "fixed 0 l1" "list_all (lump_ok (length (m_buf msg))) l1"
    using lumps_len_loop_spec [OF assms (1) _ assms (2), of 0 msg send_sock rnd k] by auto
  then have eq: "new_len = delta msg send_sock ls'" "ls' = l1"
    using assms (3) by (auto simp: lumps_len_def)
  have x: "s_offset = end_off 0 ls'" "size_of x = new_len + s_offset"
    using process_lumps_spec [OF l1(3,2) assms (2), of send_sock rnd' k2] assms (4) eq by auto
  have le: "unat s_offset \<le> length (m_buf msg)"
    unfolding x (1) using l1 (3) eq assms (2)
    by (intro end_off_le) (simp_all add: list_all_iff lump_ok_def)
  have "of_nat (length (drop (unat s_offset) (m_buf msg))) = m_len msg - s_offset"
    using le by (simp add: m_len_def of_nat_diff)
  with x le l1 (2) eq show ?thesis by (simp add: size_of_def)
qed

definition sample_sock :: socket_info where
  "sample_sock = \<lparr>address = \<lparr>af = 2, addr_len = 4, addr = [10, 0, 0, 2]\<rparr>,
     address_str = ''10.0.0.2'', port_no = 5061, port_no_str = ''5061'', proto = 2\<rparr>"

definition sample_lumps :: "lump list" where
  "sample_lumps =
     [Lump 0 (LUMP_DEL 7) 4 0 None None,
      Lump 0 (LUMP_DEL 9) 5 0 None None,
      Lump 0 (LUMP_NOP 14) 0 0 (Some (Lump 0 (LUMP_ADD_SUBST SUBST_SND_ALL) 0 0 None None)) None]"

theorem lumps_len_process_lumps_witness:
  "\<exists>new_len k1 ls' x k3 s_offset ls''.
     lumps_len sample_msg sample_lumps (Some sample_sock) (\<lambda>_. True) 0 = (new_len, k1, ls') \<and>
     process_lumps sample_msg (Some sample_sock) (\<lambda>_. False) 0 0 ls' = (x, k3, s_offset, ls'') \<and>
     of_nat (length (x @ drop (unat s_offset) (m_buf sample_msg))) = m_len sample_msg + new_len"
proof -
  have ok: "list_all (lump_ok (length (m_buf sample_msg))) sample_lumps" "length (m_buf sample_msg) < 2 ^ 32"
    by (simp_all add: sample_lumps_def sample_msg_def lump_ok_def lump_in_range_def step_ok_def)
  obtain m k1 ls' where m: "lumps_len sample_msg sample_lumps (Some sample_sock) (\<lambda>_. True) 0 = (m, k1, ls')"
    using prod_cases3 by blast
  obtain x k3 s l'' where x: "process_lumps sample_msg (Some sample_sock) (\<lambda>_. False) 0 0 ls' = (x, k3, s, l'')"
    using prod_cases4 by blast
  from lumps_len_process_lumps [OF ok m x] m x show ?thesis by blast
qed

section \<open>The buffer of an outgoing message\<close>

text \<open>The repair moves offsets forward only.\<close>

lemma lump_check_opt_op: "lump_check_opt msg snd_s rnd k c l = (ok, k', l') \<Longrightarrow> l_op l' = l_op l"
  by (auto simp: lump_check_opt_def Let_def split: if_splits prod.splits)

lemma lump_len_offset:
  assumes "lump_len msg snd_s rnd k s t = (m, k', s', t')" "lump_offset t' = Some o'"
  shows "\<exists>o''. lump_offset t = Some o'' \<and> o'' \<le> o'"
  using assms
  by (auto simp: lump_len_def lump_offset_def main_len_def Let_def
      split: prod.splits lump_op.splits if_splits)

lemma lumps_len_loop_offsets:
  assumes "lumps_len_loop msg snd_s rnd k s ls = (m, k', ls')" "\<And>o'. o' \<in> set (offsets ls) \<Longrightarrow> u \<le> o'"
  shows "o' \<in> set (offsets ls') \<Longrightarrow> u \<le> o'"
  using assms
proof (induction ls arbitrary: k s m k' ls' o')
  case (Cons t ts)
  obtain ok k1 t1 where t1: "(case l_op t of LUMP_ADD_OPT c \<Rightarrow> lump_check_opt msg snd_s rnd k c t
      | _ \<Rightarrow> (True, k, t)) = (ok, k1, t1)" by (metis prod_cases3)
  then have op: "l_op t1 = l_op t" by (auto split: lump_op.splits simp: lump_check_opt_op)
  have ts: "u \<le> x" if "x \<in> set (offsets ts)" for x
    using Cons.prems (3) that by (simp split: option.splits)
  show ?case
  proof (cases ok)
    case False
    then obtain ts' where ts': "lumps_len_loop msg snd_s rnd k1 s ts = (m, k', ts')" "ls' = t1 # ts'"
      using Cons.prems (2) t1 by (auto split: prod.splits)
    have "lump_offset t1 = lump_offset t" using op by (simp add: lump_offset_def)
    then show ?thesis
      using Cons.IH [OF _ ts'(1) ts] Cons.prems (1,3) ts' (2) by (auto split: option.splits)
  next
    case True
    obtain m1 k2 s1 t2 where l: "lump_len msg snd_s rnd k1 s t1 = (m1, k2, s1, t2)"
      by (metis prod_cases4)
    obtain m2 k3 ts' where ts': "lumps_len_loop msg snd_s rnd k2 s1 ts = (m2, k3, ts')"
      by (metis prod_cases3)
    have ls': "ls' = t2 # ts'" using Cons.prems (2) t1 l ts' True by auto
    have "u \<le> x" if x: "lump_offset t2 = Some x" for x
    proof -
      obtain y where "lump_offset t1 = Some y" "y \<le> x" using lump_len_offset [OF l x] by blast
      moreover from this op have "lump_offset t = Some y" by (simp add: lump_offset_def)
      ultimately show ?thesis using Cons.prems (3) [of y] by simp
    qed
    then show ?thesis
      using Cons.IH [OF _ ts' ts] Cons.prems (1) ls' by (auto split: option.splits)
  qed
qed simp

lemma lump_ok_mono: "lump_ok n l \<Longrightarrow> n \<le> n' \<Longrightarrow> lump_ok n' l"
  by (auto simp: lump_ok_def lump_in_range_def split: lump_op.splits)

lemma lumps_lenE:
  assumes "list_all (lump_ok lim) ls" "lim < 2 ^ 32" "lumps_len msg ls snd_s rnd k = (m, k', ls')"
  shows "m = delta msg snd_s ls'" "fixed 0 ls'" "list_all (lump_ok lim) ls'"
  using lumps_len_loop_spec [OF assms (1) _ assms (2), of 0 msg snd_s rnd k] assms (3)
  by (auto simp: lumps_len_def)

lemma size_of_append: "size_of (x @ y) = size_of x + size_of y"
  by (simp add: size_of_def)

lemma size_of_rest:
  assumes "unat s \<le> length (m_buf msg)" "length (m_buf msg) < 2 ^ 32"
  shows "size_of (take (unat (m_len msg - s)) (drop (unat s) (m_buf msg))) = m_len msg - s"
proof -
  have "unat (m_len msg - s) = length (m_buf msg) - unat s"
    using assms unat_sub_u32 [of s "m_len msg"] by (simp add: word_le_nat_alt unat_m_len)
  then show ?thesis using assms by (simp add: size_of_def m_len_def of_nat_diff)
qed

text \<open>Header lumps that end before the body, body lumps that lie behind the headers and, when
  the request URI is replaced, header lumps behind the URI.\<close>

definition layout_ok :: "sip_msg \<Rightarrow> lump list \<Rightarrow> nat \<Rightarrow> bool" where
  "layout_ok msg body p \<longleftrightarrow>
     length (m_buf msg) < 2 ^ 32 \<and> p \<le> length (m_buf msg) \<and>
     list_all (lump_ok p) (m_add_rm msg) \<and> list_all (lump_ok (length (m_buf msg))) body \<and>
     list_all (\<lambda>o'. p \<le> unat o') (offsets body) \<and>
     (m_new_uri msg \<noteq> None \<longrightarrow> m_uri_offset msg + length (m_uri msg) \<le> p \<and>
        list_all (\<lambda>o'. m_uri_offset msg + length (m_uri msg) \<le> unat o') (offsets (m_add_rm msg)))"

lemma process_both:
  assumes ok: "layout_ok msg body p"
    and body: "lumps_len msg body send_sock rnd0 k0 = (body_delta, k0', m_body_lumps msg)"
    and hdr: "lumps_len msg (m_add_rm msg) send_sock rnd k = (d, k1, add_rm)"
    and s: "unat s \<le> p" "\<And>o'. o' \<in> set (offsets (m_add_rm msg)) \<Longrightarrow> s \<le> o'"
  obtains x1 s1 l1 x2 s2 l2 where
    "process_lumps msg send_sock rnd k2 s add_rm = (x1, k2, s1, l1)"
    "process_lumps msg send_sock rnd k2 s1 (m_body_lumps msg) = (x2, k2, s2, l2)"
    "unat s2 \<le> length (m_buf msg)" "size_of (x1 @ x2) + s = d + body_delta + s2"
proof -
  from ok have len: "length (m_buf msg) < 2 ^ 32" "p \<le> length (m_buf msg)" "p < 2 ^ 32"
    by (simp_all add: layout_ok_def)
  note H = lumps_lenE [OF _ len(3) hdr]
  note B = lumps_lenE [OF _ len(1) body]
  have okH: "list_all (lump_ok p) add_rm" "d = delta msg send_sock add_rm" "fixed 0 add_rm"
    using H ok by (simp_all add: layout_ok_def)
  have okB: "list_all (lump_ok (length (m_buf msg))) (m_body_lumps msg)"
      "body_delta = delta msg send_sock (m_body_lumps msg)" "fixed 0 (m_body_lumps msg)"
    using B ok by (simp_all add: layout_ok_def)
  have okH': "list_all (lump_ok (length (m_buf msg))) add_rm"
    using okH (1) len (2) by (auto simp: list_all_iff intro: lump_ok_mono)
  have f1: "fixed s add_rm"
    using fixed_mono [OF okH(3)] lumps_len_loop_offsets [OF hdr [unfolded lumps_len_def] s(2)] by blast
  define s1 where "s1 = end_off s add_rm"
  have s1: "unat s1 \<le> p"
    unfolding s1_def using okH (1) s (1) len (3)
    by (intro end_off_le) (simp_all add: list_all_iff lump_ok_def)
  have "s1 \<le> o'" if "o' \<in> set (offsets body)" for o'
    using that ok s1 by (auto simp: layout_ok_def list_all_iff word_le_nat_alt)
  then have f2: "fixed s1 (m_body_lumps msg)"
    using fixed_mono [OF okB(3)] lumps_len_loop_offsets [OF body [unfolded lumps_len_def]] by blast
  define s2 where "s2 = end_off s1 (m_body_lumps msg)"
  have s2: "unat s2 \<le> length (m_buf msg)"
    unfolding s2_def using okB (1) s1 len
    by (intro end_off_le) (simp_all add: list_all_iff lump_ok_def)
  from process_lumps_spec [OF okH' f1 len(1), of send_sock rnd k2] obtain x1 l1 where
    "process_lumps msg send_sock rnd k2 s add_rm = (x1, k2, s1, l1)" "size_of x1 = d + s1 - s"
    unfolding s1_def okH (2) by blast
  moreover from process_lumps_spec [OF okB(1) f2 len(1), of send_sock rnd k2] obtain x2 l2 where
    "process_lumps msg send_sock rnd k2 s1 (m_body_lumps msg) = (x2, k2, s2, l2)"
    "size_of x2 = body_delta + s2 - s1"
    unfolding s2_def okB (2) by blast
  ultimately show thesis using that s2 by (simp add: size_of_append)
qed

text \<open>
  C3. The buffer of a forwarded request is filled exactly.  When the header lumps end before
  the body lumps start, and behind the request URI if that is replaced, the end of
  \<open>build_req_buf_from_sip_req\<close> writes \<open>new_len\<close> bytes, no more and no less, into the
  \<open>new_len+1\<close> it allocated, counted as the code counts them, in an \<open>unsigned int\<close>.
\<close>

theorem build_req_exact:
  assumes "layout_ok msg body p"
    and "lumps_len msg body send_sock rnd0 k0 = (body_delta, k0', m_body_lumps msg)"
  shows "\<exists>new_len out. build_req_tail True msg send_sock rnd k body_delta = Some (new_len, out) \<and>
    of_nat (length out) = new_len"
proof -
  define s :: u32 where
    "s = (case m_new_uri msg of Some u \<Rightarrow> of_nat (m_uri_offset msg) + of_nat (length (m_uri msg)) | None \<Rightarrow> 0)"
  obtain d k1 add_rm where hdr: "lumps_len msg (m_add_rm msg) send_sock rnd k = (d, k1, add_rm)"
    by (metis prod_cases3)
  have len: "length (m_buf msg) < 2 ^ 32" "p \<le> length (m_buf msg)"
    using assms (1) by (simp_all add: layout_ok_def)
  have us: "unat s = (if m_new_uri msg = None then 0 else m_uri_offset msg + length (m_uri msg))"
    using assms (1) len unat_of_nat_u32 [of "m_uri_offset msg + length (m_uri msg)"]
    by (auto simp: s_def layout_ok_def simp del: unat_of_nat_u32)
  have "unat s \<le> p" using us assms (1) by (auto simp: layout_ok_def)
  moreover have "s \<le> o'" if "o' \<in> set (offsets (m_add_rm msg))" for o'
    using that us assms (1) by (auto simp: layout_ok_def list_all_iff word_le_nat_alt)
  ultimately obtain x1 s1 l1 x2 s2 l2 where
    p: "process_lumps msg send_sock rnd k1 s add_rm = (x1, k1, s1, l1)"
      "process_lumps msg send_sock rnd k1 s1 (m_body_lumps msg) = (x2, k1, s2, l2)"
      "unat s2 \<le> length (m_buf msg)" "size_of (x1 @ x2) + s = d + body_delta + s2"
    by (rule process_both [OF assms hdr, of s k1])
  have sz: "size_of x1 + size_of x2 = d + body_delta + s2 - s"
    using p (4) by (simp add: size_of_append algebra_simps)
  have uri: "m_uri_offset msg \<le> length (m_buf msg)" if "m_new_uri msg \<noteq> None"
    using assms (1) that by (auto simp: layout_ok_def)
  define rest where "rest = take (unat (m_len msg - s2)) (drop (unat s2) (m_buf msg))"
  have "size_of x1 + size_of x2 + size_of rest = m_len msg + body_delta + d - s"
    unfolding sz rest_def size_of_rest [OF p(3) len(1)] by simp
  then have total: "size_of (x @ x1 @ x2 @ rest) = m_len msg + body_delta + d - s + size_of x" for x
    by (simp add: size_of_append add.assoc [symmetric])
  show ?thesis
  proof (cases "m_new_uri msg")
    case None
    then show ?thesis
      using p (1,2) total [of "[]"]
      by (simp add: build_req_tail_def hdr Let_def s_def size_of_def rest_def del: length_append)
  next
    case (Some u)
    have "size_of (take (m_uri_offset msg) (m_buf msg) @ u) = of_nat (m_uri_offset msg) + of_nat (length u)"
      using uri Some by (simp add: size_of_def min_absorb2)
    with Some show ?thesis
      using p (1,2) total [of "take (m_uri_offset msg) (m_buf msg) @ u"]
      by (simp add: build_req_tail_def hdr Let_def s_def rest_def size_of_def del: length_append)
  qed
qed

definition sample_req :: sip_msg where
  "sample_req = sample_msg\<lparr>m_new_uri := Some ''sip:carol@example.org'',
     m_add_rm := [Lump 0 (LUMP_NOP 14) 0 0 (Some (Lump 0 (LUMP_ADD (Some '' '')) 1 0 None None)) None]\<rparr>"

theorem build_req_exact_witness:
  "\<exists>new_len out. build_req_tail True sample_req (Some sample_sock) (\<lambda>_. True) 0 0 = Some (new_len, out) \<and>
    of_nat (length out) = new_len"
proof (rule build_req_exact [where body = "[]" and p = 22])
  show "layout_ok sample_req [] 22"
    by (simp add: layout_ok_def sample_req_def sample_msg_def lump_ok_def lump_in_range_def step_ok_def
        lump_offset_def)
  show "lumps_len sample_req [] (Some sample_sock) (\<lambda>_. True) 0 = (0, 0, m_body_lumps sample_req)"
    by (simp add: lumps_len_def sample_req_def sample_msg_def)
qed

text \<open>
  C8. A lump with the condition \<open>COND_IF_RAND\<close> defeats the length computation: the condition
  is drawn once when the buffer is measured and again when it is written.  If \<open>rand()\<close> comes
  out low the first time and high the second, the text behind the condition was not counted
  and is written all the same, beyond the end of the buffer.
\<close>

theorem cond_rand_overflow:
  assumes "m_add_rm msg = [Lump t (LUMP_NOP 0) 0 f
      (Some (Lump t (LUMP_ADD_OPT COND_IF_RAND) 0 f
        (Some (Lump t (LUMP_ADD (Some v)) (of_nat (length v)) f None None)) None)) None]"
    and "m_body_lumps msg = []" "m_new_uri msg = None"
    and "length (m_buf msg) < 2 ^ 32" "length v < 2 ^ 32" "\<not> rnd k" "rnd (Suc k)"
  shows "\<exists>new_len out. build_req_tail True msg send_sock rnd k 0 = Some (new_len, out) \<and>
    length out = unat new_len + length v"
proof -
  have "unat (m_len msg) = length (m_buf msg)" using assms (4) by (rule unat_m_len)
  then show ?thesis
    using assms
    by (simp add: build_req_tail_def lumps_len_def lump_len_def main_len_def lump_check_opt_def
        process_lump_def lump_bytes_def Let_def)
qed

theorem cond_rand_overflow_witness:
  "\<exists>new_len out. build_req_tail True (sample_msg\<lparr>m_add_rm := [Lump 0 (LUMP_NOP 0) 0 0
      (Some (Lump 0 (LUMP_ADD_OPT COND_IF_RAND) 0 0
        (Some (Lump 0 (LUMP_ADD (Some ''abc'')) (of_nat (length ''abc'')) 0 None None)) None)) None]\<rparr>)
      None (\<lambda>k. k = 1) 0 0 = Some (new_len, out) \<and>
    length out = unat new_len + length ''abc''"
  by (rule cond_rand_overflow [where t = 0 and f = 0]) (simp_all add: sample_msg_def)

section \<open>Deletions remove exactly their union\<close>

text \<open>The positions a list deletes.\<close>

definition covers :: "lump \<Rightarrow> nat \<Rightarrow> bool" where
  "covers l i = (case l_op l of LUMP_DEL o' \<Rightarrow> unat o' \<le> i \<and> i < unat o' + unat (l_len l) | _ \<Rightarrow> False)"

lemma covers_offset: "covers l i \<Longrightarrow> \<exists>y. lump_offset l = Some y \<and> unat y \<le> i"
  by (cases "l_op l") (auto simp: covers_def lump_offset_def)

definition plain :: "lump \<Rightarrow> bool" where
  "plain l \<longleftrightarrow> lump_offset l \<noteq> None \<and> l_before l = None \<and> l_after l = None"

definition slice :: "nat \<Rightarrow> nat \<Rightarrow> string \<Rightarrow> string" where
  "slice i j xs = take (j - i) (drop i xs)"

lemma filter_upt_slice:
  assumes "i \<le> j" "j \<le> n" "\<And>x. i \<le> x \<Longrightarrow> x < j \<Longrightarrow> P x"
  shows "filter P [i..<n] = [i..<j] @ filter P [j..<n]"
proof -
  have "[i..<n] = [i..<j] @ [j..<n]" using assms (1,2) by (metis le_iff_add upt_add_eq_append)
  moreover have "filter P [i..<j] = [i..<j]" using assms (3) by (simp add: filter_id_conv)
  ultimately show ?thesis by simp
qed

lemma filter_upt_drop:
  assumes "i \<le> j" "j \<le> n" "\<And>x. i \<le> x \<Longrightarrow> x < j \<Longrightarrow> \<not> P x"
  shows "filter P [i..<n] = filter P [j..<n]"
proof -
  have "[i..<n] = [i..<j] @ [j..<n]" using assms (1,2) by (metis le_iff_add upt_add_eq_append)
  moreover have "filter P [i..<j] = []" using assms (3) by (simp add: filter_empty_conv)
  ultimately show ?thesis by simp
qed

lemma map_nth_slice:
  "i \<le> j \<Longrightarrow> j \<le> length xs \<Longrightarrow> map ((!) xs) [i..<j] = slice i j xs"
  by (auto simp: slice_def intro!: nth_equalityI)

text \<open>The end of the zone a lump removes.\<close>

definition zone_end :: "lump \<Rightarrow> nat" where
  "zone_end l = (case l_op l of LUMP_DEL o' \<Rightarrow> unat o' + unat (l_len l) | LUMP_NOP o' \<Rightarrow> unat o' | _ \<Rightarrow> 0)"

lemma main_len_zone:
  assumes "main_len msg snd_s s op n = (m, s1, op1, n1)" "op = LUMP_DEL o' \<or> op = LUMP_NOP o'"
    and "zone_end (Lump t op n f b a) \<le> lim" "unat s \<le> lim" "lim < 2 ^ 32"
  shows "unat s1 = max (unat s) (zone_end (Lump t op n f b a))"
    "op1 = (case op of LUMP_DEL _ \<Rightarrow> LUMP_DEL (max o' s) | _ \<Rightarrow> LUMP_NOP (max o' s))"
    "s1 = (case op of LUMP_DEL _ \<Rightarrow> max o' s + n1 | _ \<Rightarrow> max o' s)"
proof -
  have "unat s1 = max (unat s) (zone_end (Lump t op n f b a)) \<and>
    op1 = (case op of LUMP_DEL _ \<Rightarrow> LUMP_DEL (max o' s) | _ \<Rightarrow> LUMP_NOP (max o' s)) \<and>
    s1 = (case op of LUMP_DEL _ \<Rightarrow> max o' s + n1 | _ \<Rightarrow> max o' s)"
    using assms (2)
  proof
    assume op: "op = LUMP_DEL o'"
    have r: "unat o' + unat n \<le> lim" using assms (3) op by (simp add: zone_end_def)
    show ?thesis
    proof (cases "o' < s")
      case True
      have lt: "unat o' < unat s" using True by (simp add: word_less_nat_alt)
      have d: "unat (s - o') = unat s - unat o'" using unat_sub_u32 [OF less_imp_le [OF True]] .
      have "unat (s + (n - (s - o'))) = unat o' + unat n" if "s - o' < n"
      proof -
        have "unat (n - (s - o')) = unat n - (unat s - unat o')"
          using unat_sub_u32 [OF less_imp_le [OF that]] d by simp
        moreover have "unat s - unat o' < unat n" using that d by (simp add: word_less_nat_alt)
        ultimately show ?thesis using unat_add_u32 [of s "n - (s - o')"] r lt assms (5) by simp
      qed
      moreover have "unat o' + unat n \<le> unat s" if "\<not> s - o' < n"
        using that d lt by (simp add: word_less_nat_alt)
      moreover have "unat s < unat o' + unat n" if "s - o' < n"
        using that d lt by (simp add: word_less_nat_alt)
      ultimately show ?thesis
        using assms (1) op True by (auto simp: main_len_def Let_def zone_end_def max_def)
    next
      case False
      then have "s \<le> o'" by (simp add: not_less)
      then have "max o' s = o'" "unat s \<le> unat o'" by (simp_all add: max.absorb1 word_le_nat_alt)
      with False show ?thesis
        using assms (1,5) op r unat_add_u32 [of o' n] by (auto simp: main_len_def zone_end_def)
    qed
  next
    assume op: "op = LUMP_NOP o'"
    have "max o' s = (if o' < s then s else o')" by (auto simp: max_def)
    moreover have "unat (max o' s) = max (unat o') (unat s)"
      by (simp add: max_def word_le_nat_alt)
    ultimately show ?thesis
      using assms (1) op by (auto simp: main_len_def zone_end_def split: if_splits)
  qed
  then show "unat s1 = max (unat s) (zone_end (Lump t op n f b a))"
    "op1 = (case op of LUMP_DEL _ \<Rightarrow> LUMP_DEL (max o' s) | _ \<Rightarrow> LUMP_NOP (max o' s))"
    "s1 = (case op of LUMP_DEL _ \<Rightarrow> max o' s + n1 | _ \<Rightarrow> max o' s)" by blast+
qed

lemma plain_step:
  assumes "plain t" "lump_offset t = Some o'" "zone_end t \<le> lim" "unat s \<le> lim" "lim < 2 ^ 32"
    and "lump_len msg snd_s rnd k s t = (m, k', s1, t1)"
  shows "unat s1 = max (unat s) (zone_end t)"
    "process_lump msg snd_s rnd' k2 s t1 = (slice (unat s) (unat (max o' s)) (m_buf msg), k2, s1, t1)"
    "lump_offset t1 \<noteq> None"
proof -
  obtain ty op n f where t: "t = Lump ty op n f None None" and op: "op = LUMP_DEL o' \<or> op = LUMP_NOP o'"
    using assms (1,2) by (cases t) (auto simp: plain_def lump_offset_def split: lump_op.splits)
  obtain op1 n1 m1 where m: "main_len msg snd_s s op n = (m1, s1, op1, n1)" "t1 = Lump ty op1 n1 f None None"
    using assms (6) by (auto simp: t lump_len_def split: prod.splits)
  note z = main_len_zone [OF m(1) op assms (3) [unfolded t] assms (4,5)]
  show "unat s1 = max (unat s) (zone_end t)" using z (1) t by simp
  have "unat (max o' s - s) = unat (max o' s) - unat s" by (rule unat_sub_u32) simp
  then show "process_lump msg snd_s rnd' k2 s t1 =
      (slice (unat s) (unat (max o' s)) (m_buf msg), k2, s1, t1)"
    using op z (2,3) by (auto simp: process_lump_def m(2) slice_def max_def not_less)
  show "lump_offset t1 \<noteq> None" using op z (2) m (2) by (auto simp: lump_offset_def)
qed

lemma deletions_loop:
  assumes "list_all plain ls" "list_all (\<lambda>l. zone_end l \<le> length (m_buf msg)) ls"
    and "sorted (offsets ls)" "unat s \<le> length (m_buf msg)" "length (m_buf msg) < 2 ^ 32"
    and "lumps_len_loop msg snd_s rnd k s ls = (m, k1, ls')"
    and "process_lumps msg snd_s rnd' k2 s ls' = (x, k3, s', ls'')"
  shows "x @ drop (unat s') (m_buf msg) =
    map ((!) (m_buf msg)) (filter (\<lambda>i. \<not> list_ex (\<lambda>l. covers l i) ls) [unat s..<length (m_buf msg)])"
  using assms (1-4,6,7)
proof (induction ls arbitrary: s k m k1 ls' x k2 k3 s' ls'')
  case Nil
  then show ?case by (auto simp: map_nth_slice slice_def)
next
  case (Cons t ts)
  obtain o' where o': "lump_offset t = Some o'" using Cons.prems (1) by (auto simp: plain_def)
  have notopt: "(case l_op t of LUMP_ADD_OPT c \<Rightarrow> y c | _ \<Rightarrow> z) = z" for y and z :: 'z
    using o' by (auto simp: lump_offset_def split: lump_op.splits)
  obtain m1 kk s1 t1 where l: "lump_len msg snd_s rnd k s t = (m1, kk, s1, t1)" by (metis prod_cases4)
  obtain m2 kk2 ts' where ls: "lumps_len_loop msg snd_s rnd kk s1 ts = (m2, kk2, ts')"
    by (metis prod_cases3)
  have ls': "ls' = t1 # ts'" using Cons.prems (5) l ls by (auto simp: notopt)
  have pl: "plain t" "zone_end t \<le> length (m_buf msg)" using Cons.prems (1,2) by simp_all
  note st = plain_step [OF pl(1) o' pl(2) Cons.prems (4) assms (5) l]
  have notopt1: "(case l_op t1 of LUMP_ADD_OPT c \<Rightarrow> y c | _ \<Rightarrow> z) = z" for y and z :: 'z
    using st (3) by (auto simp: lump_offset_def split: lump_op.splits)
  obtain x2 k4 s2 ls2 where p: "process_lumps msg snd_s rnd' k2 s1 ts' = (x2, k4, s2, ls2)"
    by (metis prod_cases4)
  have x: "x = slice (unat s) (unat (max o' s)) (m_buf msg) @ x2" "s' = s2"
    using Cons.prems (6) ls' p st (2) by (auto simp: notopt1)
  have s1: "unat s1 \<le> length (m_buf msg)" using st (1) pl (2) Cons.prems (4) by simp
  have sorted: "sorted (offsets ts)" "\<And>y. y \<in> set (offsets ts) \<Longrightarrow> o' \<le> y"
    using Cons.prems (3) o' by auto
  have IH: "x2 @ drop (unat s2) (m_buf msg) =
      map ((!) (m_buf msg)) (filter (\<lambda>i. \<not> list_ex (\<lambda>l. covers l i) ts) [unat s1..<length (m_buf msg)])"
    using Cons.IH [OF _ _ sorted(1) s1 ls p] Cons.prems (1,2) by simp
  let ?P = "\<lambda>i. \<not> list_ex (\<lambda>l. covers l i) (t # ts)"
  have later: "\<not> list_ex (\<lambda>l. covers l i) ts" if "i < unat o'" for i
  proof
    assume "list_ex (\<lambda>l. covers l i) ts"
    then obtain l y where "l \<in> set ts" "lump_offset l = Some y" "unat y \<le> i"
      unfolding list_ex_iff using covers_offset by blast
    moreover from this have "y \<in> set (offsets ts)" by (induction ts) (auto split: option.splits)
    ultimately show False using sorted (2) [of y] that by (simp add: word_le_nat_alt)
  qed
  have covt: "covers t i \<longleftrightarrow> unat o' \<le> i \<and> i < zone_end t" for i
    using o' by (auto simp: covers_def zone_end_def lump_offset_def split: lump_op.splits)
  have oz: "unat o' \<le> zone_end t"
    using o' by (auto simp: zone_end_def lump_offset_def split: lump_op.splits)
  have mx: "unat (max o' s) = max (unat o') (unat s)"
    by (simp add: max_def word_le_nat_alt)
  have le: "unat s \<le> unat (max o' s)" "unat (max o' s) \<le> unat s1" using mx st (1) oz by simp_all
  have "filter ?P [unat s..<length (m_buf msg)] =
      [unat s..<unat (max o' s)] @ filter ?P [unat (max o' s)..<length (m_buf msg)]"
    using le s1 later mx by (intro filter_upt_slice) (auto simp: covt)
  also have "filter ?P [unat (max o' s)..<length (m_buf msg)] = filter ?P [unat s1..<length (m_buf msg)]"
    using le s1 mx st (1) by (intro filter_upt_drop) (auto simp: covt)
  also have "filter ?P [unat s1..<length (m_buf msg)] =
      filter (\<lambda>i. \<not> list_ex (\<lambda>l. covers l i) ts) [unat s1..<length (m_buf msg)]"
    using st (1) by (intro filter_cong) (auto simp: covt)
  finally show ?case
    using IH x le s1 map_nth_slice [of "unat s" "unat (max o' s)" "m_buf msg"] by simp
qed

text \<open>
  C5. Overlapping deletions are handled as a union.  For any list of deletions and anchors
  inside the message, sorted by offset as \<open>del_lump\<close> keeps it, with nothing inserted,
  measuring and then writing the list yields exactly the characters of the message that no
  deletion covers, in their order, whatever zones overlap, nest or repeat.
\<close>

theorem deletions_are_union:
  assumes "lump_list_ok (length (m_buf msg)) ls" "list_all plain ls" "length (m_buf msg) < 2 ^ 32"
    and "lumps_len msg ls send_sock rnd k = (new_len, k1, ls')"
    and "process_lumps msg send_sock rnd' k2 0 ls' = (x, k3, s_offset, ls'')"
  shows "x @ drop (unat s_offset) (m_buf msg) =
    map ((!) (m_buf msg)) (filter (\<lambda>i. \<not> list_ex (\<lambda>l. covers l i) ls) [0..<length (m_buf msg)])"
proof -
  have "list_all (\<lambda>l. zone_end l \<le> length (m_buf msg)) ls"
    using assms (1) unfolding lump_list_ok_def
    by (auto simp: list_all_iff lump_in_range_def zone_end_def split: lump_op.splits)
  then show ?thesis
    using deletions_loop [of ls msg 0 send_sock rnd k new_len k1 ls' rnd' k2 x k3 s_offset ls''] assms
    by (simp add: lump_list_ok_def lumps_len_def)
qed

definition sample_dels :: "lump list" where
  "sample_dels = [Lump 0 (LUMP_DEL 7) 4 0 None None, Lump 0 (LUMP_DEL 9) 5 0 None None]"

theorem deletions_are_union_witness:
  "\<exists>x s_offset k1 k3 new_len ls' ls''.
     lumps_len sample_msg sample_dels None (\<lambda>_. True) 0 = (new_len, k1, ls') \<and>
     process_lumps sample_msg None (\<lambda>_. True) 0 0 ls' = (x, k3, s_offset, ls'') \<and>
     x @ drop (unat s_offset) (m_buf sample_msg) =
       map ((!) (m_buf sample_msg)) (filter (\<lambda>i. \<not> list_ex (\<lambda>l. covers l i) sample_dels)
         [0..<length (m_buf sample_msg)])"
proof -
  have ok: "lump_list_ok (length (m_buf sample_msg)) sample_dels" "list_all plain sample_dels"
      "length (m_buf sample_msg) < 2 ^ 32"
    by (simp_all add: lump_list_ok_def sample_dels_def sample_msg_def plain_def lump_offset_def
        lump_in_range_def)
  obtain m k1 ls' where m: "lumps_len sample_msg sample_dels None (\<lambda>_. True) 0 = (m, k1, ls')"
    using prod_cases3 by blast
  obtain x k3 s l'' where x: "process_lumps sample_msg None (\<lambda>_. True) 0 0 ls' = (x, k3, s, l'')"
    using prod_cases4 by blast
  from deletions_are_union [OF ok m x] m x show ?thesis by blast
qed

section \<open>The order of insertions\<close>



text \<open>The buffer of a relayed reply is filled exactly, too; turning the code 503 into 500 does not
  change the length.\<close>

lemma build_res_exact:
  assumes "layout_ok msg body p"
    and "lumps_len msg body None rnd0 k0 = (body_delta, k0', m_body_lumps msg)"
  shows "\<exists>new_len out. build_res_tail True msg rnd k body_delta code pos = Some (new_len, out) \<and>
    of_nat (length out) = new_len"
proof -
  obtain d k1 add_rm where hdr: "lumps_len msg (m_add_rm msg) None rnd k = (d, k1, add_rm)"
    by (metis prod_cases3)
  have len: "length (m_buf msg) < 2 ^ 32" using assms (1) by (simp add: layout_ok_def)
  have "unat (0 :: u32) \<le> p" "\<And>o'. o' \<in> set (offsets (m_add_rm msg)) \<Longrightarrow> 0 \<le> o'" by simp_all
  from process_both [OF assms hdr this, of k1] obtain x1 s1 l1 x2 s2 l2 where
    p: "process_lumps msg None rnd k1 0 add_rm = (x1, k1, s1, l1)"
      "process_lumps msg None rnd k1 s1 (m_body_lumps msg) = (x2, k1, s2, l2)"
      "unat s2 \<le> length (m_buf msg)" "size_of (x1 @ x2) + 0 = d + body_delta + s2" by blast
  define rest where "rest = take (unat (m_len msg - s2)) (drop (unat s2) (m_buf msg))"
  have "size_of (x1 @ x2) + size_of rest = m_len msg + body_delta + d"
    unfolding rest_def size_of_rest [OF p(3) len] using p (4) by simp
  then show ?thesis
    using p (1,2)
    by (simp add: build_res_tail_def hdr Let_def rest_def size_of_def add.assoc)
qed

end
