(* ===== verification/TcpRead.thy ===== *)
theory TcpRead
  imports Ut
begin

text \<open>
  Reading requests from a TCP connection (\<open>tcp_read.c\<close>): a state machine scans the bytes
  for the end of the headers and for Content-Length, and cuts the stream into requests.

  The buffer of a \<open>tcp_req\<close> is the string of the bytes read so far, so \<open>pos\<close> is its
  length; \<open>start\<close>, \<open>parsed\<close> and \<open>body\<close> are offsets.  The result of the system
  call \<open>read\<close>, after it has been repeated for \<open>EINTR\<close>, is an argument, and so is
  \<open>receive_msg\<close>, to which complete requests are handed.  TLS connections are not
  modelled.
\<close>

section \<open>State\<close>

definition TCP_BUF_SIZE :: nat where "TCP_BUF_SIZE = 65535"

datatype tcp_req_errors = TCP_REQ_INIT | TCP_REQ_OK | TCP_READ_ERROR | TCP_REQ_OVERRUN | TCP_REQ_BAD_LEN

datatype tcp_req_states =
    H_SKIP_EMPTY | H_SKIP | H_LF | H_LFCR | H_BODY | H_STARTWS
  | H_CONT_LEN1 | H_CONT_LEN2 | H_CONT_LEN3 | H_CONT_LEN4 | H_CONT_LEN5
  | H_CONT_LEN6 | H_CONT_LEN7 | H_CONT_LEN8 | H_CONT_LEN9 | H_CONT_LEN10
  | H_CONT_LEN11 | H_CONT_LEN12 | H_CONT_LEN13 | H_L_COLON
  | H_CONT_LEN_BODY | H_CONT_LEN_BODY_PARSE

datatype tcp_conn_states =
  S_CONN_ERROR | S_CONN_BAD | S_CONN_OK | S_CONN_INIT | S_CONN_EOF | S_CONN_ACCEPT | S_CONN_CONNECT

datatype conn_cmds = CONN_DESTROY | CONN_ERROR | CONN_EOF | CONN_RELEASE | CONN_GET_FD | CONN_NEW

record tcp_req =
  r_buf :: string
  r_start :: nat
  r_parsed :: nat
  r_body :: "nat option"
  content_len :: u32
  has_content_len :: bool
  complete :: bool
  bytes_to_go :: u32
  r_error :: tcp_req_errors
  r_state :: tcp_req_states

definition init_tcp_req :: tcp_req where
  "init_tcp_req = \<lparr>r_buf = [], r_start = 0, r_parsed = 0, r_body = None, content_len = 0,
     has_content_len = False, complete = False, bytes_to_go = 0, r_error = TCP_REQ_OK,
     r_state = H_SKIP_EMPTY\<rparr>"

record tcp_connection =
  c_req :: tcp_req
  c_state :: tcp_conn_states

section \<open>Reading\<close>

datatype read_result = Would_block | Failed | Data string

definition tcp_read :: "tcp_connection \<Rightarrow> read_result \<Rightarrow> tcp_connection \<times> int" where
  "tcp_read c rd =
     (let r = c_req c; bytes_free = TCP_BUF_SIZE - length (r_buf r)
      in if bytes_free = 0 then (c\<lparr>c_req := r\<lparr>r_error := TCP_REQ_OVERRUN\<rparr>\<rparr>, - 1)
         else case rd of
           Would_block \<Rightarrow> (c, 0)
         | Failed \<Rightarrow> (c\<lparr>c_req := r\<lparr>r_error := TCP_READ_ERROR\<rparr>\<rparr>, - 1)
         | Data xs \<Rightarrow>
             (let c' = (if xs = [] then c\<lparr>c_state := S_CONN_EOF\<rparr> else c)
              in (c'\<lparr>c_req := r\<lparr>r_buf := r_buf r @ xs\<rparr>\<rparr>, int (length xs))))"

section \<open>The scanner\<close>

definition LF :: char where "LF = CHR 0x0A"
definition CR :: char where "CR = CHR 0x0D"
definition TAB :: char where "TAB = CHR 0x09"

text \<open>The macros \<open>crlf_default_skip_case\<close> and \<open>content_len_beg_case\<close>; the latter yields
  nothing for a character it has no case for.\<close>

definition crlf_default_skip :: "char \<Rightarrow> tcp_req_states" where
  "crlf_default_skip c = (if c = LF then H_LF else H_SKIP)"

definition content_len_beg :: "tcp_req \<Rightarrow> char \<Rightarrow> tcp_req_states option" where
  "content_len_beg r c =
     (if c = CHR '' '' \<or> c = TAB then Some (if \<not> has_content_len r then H_STARTWS else H_SKIP)
      else if c = CHR ''C'' \<or> c = CHR ''c'' then Some (if \<not> has_content_len r then H_CONT_LEN1 else H_SKIP)
      else if c = CHR ''l'' \<or> c = CHR ''L'' then Some (if \<not> has_content_len r then H_L_COLON else H_SKIP)
      else None)"

text \<open>The table of the \<open>change_state_case\<close> lines.\<close>

fun change_state_case :: "tcp_req_states \<Rightarrow> (char \<times> char \<times> tcp_req_states) option" where
  "change_state_case H_CONT_LEN1 = Some (CHR ''O'', CHR ''o'', H_CONT_LEN2)"
| "change_state_case H_CONT_LEN2 = Some (CHR ''N'', CHR ''n'', H_CONT_LEN3)"
| "change_state_case H_CONT_LEN3 = Some (CHR ''T'', CHR ''t'', H_CONT_LEN4)"
| "change_state_case H_CONT_LEN4 = Some (CHR ''E'', CHR ''e'', H_CONT_LEN5)"
| "change_state_case H_CONT_LEN5 = Some (CHR ''N'', CHR ''n'', H_CONT_LEN6)"
| "change_state_case H_CONT_LEN6 = Some (CHR ''T'', CHR ''t'', H_CONT_LEN7)"
| "change_state_case H_CONT_LEN7 = Some (CHR ''-'', CHR ''_'', H_CONT_LEN8)"
| "change_state_case H_CONT_LEN8 = Some (CHR ''L'', CHR ''l'', H_CONT_LEN9)"
| "change_state_case H_CONT_LEN9 = Some (CHR ''E'', CHR ''e'', H_CONT_LEN10)"
| "change_state_case H_CONT_LEN10 = Some (CHR ''N'', CHR ''n'', H_CONT_LEN11)"
| "change_state_case H_CONT_LEN11 = Some (CHR ''G'', CHR ''g'', H_CONT_LEN12)"
| "change_state_case H_CONT_LEN12 = Some (CHR ''T'', CHR ''t'', H_CONT_LEN13)"
| "change_state_case H_CONT_LEN13 = Some (CHR ''H'', CHR ''h'', H_L_COLON)"
| "change_state_case _ = None"

text \<open>
  The end of the headers at position \<open>p\<close>.  The second result says that the loop is left
  with \<open>goto skip\<close>.
\<close>

definition end_of_headers :: "tcp_req \<Rightarrow> nat \<Rightarrow> tcp_req \<times> bool" where
  "end_of_headers r p =
     (let r = r\<lparr>r_state := H_BODY\<rparr>
      in if has_content_len r
         then let r = r\<lparr>r_body := Some (p + 1), bytes_to_go := content_len r\<rparr>
              in if bytes_to_go r = 0 then (r\<lparr>complete := True\<rparr>, True) else (r, False)
         else (r\<lparr>r_error := TCP_REQ_BAD_LEN\<rparr>, False))"

text \<open>One turn of the switch in a state that looks at the single character \<open>c\<close> at \<open>p\<close>.\<close>

definition char_step :: "tcp_req \<Rightarrow> nat \<Rightarrow> char \<Rightarrow> tcp_req \<times> bool" where
  "char_step r p c =
     (case r_state r of
        H_LF \<Rightarrow>
          if c = CR then (r\<lparr>r_state := H_LFCR\<rparr>, False)
          else if c = LF then end_of_headers r p
          else (case content_len_beg r c of
                  Some s \<Rightarrow> (r\<lparr>r_state := s\<rparr>, False)
                | None \<Rightarrow> (r\<lparr>r_state := H_SKIP\<rparr>, False))
      | H_LFCR \<Rightarrow> if c = LF then end_of_headers r p else (r\<lparr>r_state := H_SKIP\<rparr>, False)
      | H_STARTWS \<Rightarrow>
          (case content_len_beg r c of
             Some s \<Rightarrow> (r\<lparr>r_state := s\<rparr>, False)
           | None \<Rightarrow> (r\<lparr>r_state := crlf_default_skip c\<rparr>, False))
      | H_SKIP_EMPTY \<Rightarrow>
          if c \<in> {LF, CR, CHR '' '', TAB} then (r, False)
          else if c \<in> {CHR ''C'', CHR ''c''} then (r\<lparr>r_state := H_CONT_LEN1, r_start := p\<rparr>, False)
          else if c \<in> {CHR ''l'', CHR ''L''} then (r\<lparr>r_state := H_L_COLON, r_start := p\<rparr>, False)
          else (r\<lparr>r_state := H_SKIP, r_start := p\<rparr>, False)
      | H_L_COLON \<Rightarrow>
          if c \<in> {CHR '' '', TAB} then (r, False)
          else if c = CHR '':'' then (r\<lparr>r_state := H_CONT_LEN_BODY\<rparr>, False)
          else (r\<lparr>r_state := crlf_default_skip c\<rparr>, False)
      | H_CONT_LEN_BODY \<Rightarrow>
          if c \<in> {CHR '' '', TAB} then (r, False)
          else if is_digit c
          then (r\<lparr>r_state := H_CONT_LEN_BODY_PARSE, content_len := of_nat (digit_val c)\<rparr>, False)
          else (r\<lparr>r_state := crlf_default_skip c\<rparr>, False)
      | H_CONT_LEN_BODY_PARSE \<Rightarrow>
          if is_digit c
          then (r\<lparr>content_len := content_len r * 10 + of_nat (digit_val c)\<rparr>, False)
          else if c \<in> {CR, CHR '' '', TAB} then (r\<lparr>r_state := H_SKIP, has_content_len := True\<rparr>, False)
          else if c = LF then (r\<lparr>r_state := H_LF, has_content_len := True\<rparr>, False)
          else (r\<lparr>r_state := H_SKIP\<rparr>, False)
      | _ \<Rightarrow>
          (case change_state_case (r_state r) of
             Some (upper, lower, newstate) \<Rightarrow>
               if c = upper \<or> c = lower then (r\<lparr>r_state := newstate\<rparr>, False)
               else (r\<lparr>r_state := crlf_default_skip c\<rparr>, False)
           | None \<Rightarrow> (r, False)))"

text \<open>
  One turn of the loop at position \<open>p\<close> inside the buffer: the request, the new position, and
  whether the loop is left.  \<open>H_BODY\<close> and \<open>H_SKIP\<close> move over many bytes at once.
\<close>

definition scan_step :: "tcp_req \<Rightarrow> nat \<Rightarrow> tcp_req \<times> nat \<times> bool" where
  "scan_step r p =
     (case r_state r of
        H_BODY \<Rightarrow>
          (let remaining = length (r_buf r) - p;
               remaining = (if remaining > unat (bytes_to_go r) then unat (bytes_to_go r) else remaining);
               r' = r\<lparr>bytes_to_go := bytes_to_go r - of_nat remaining\<rparr>;
               p' = p + remaining
           in if bytes_to_go r' = 0 then (r'\<lparr>complete := True\<rparr>, p', True) else (r', p', False))
      | H_SKIP \<Rightarrow>
          (case q_memchr (drop p (r_buf r)) LF of
             Some i \<Rightarrow> (r\<lparr>r_state := H_LF\<rparr>, p + i + 1, False)
           | None \<Rightarrow> (r, length (r_buf r), False))
      | _ \<Rightarrow> (let (r', skip) = char_step r p (r_buf r ! p) in (r', p + 1, skip)))"

lemma char_step_buf [simp]: "r_buf (fst (char_step r p c)) = r_buf r"
  by (cases "r_state r") (simp_all add: char_step_def end_of_headers_def Let_def split: option.split)

lemma q_memchr_less: "q_memchr xs c = Some i \<Longrightarrow> i < length xs"
  by (induction xs arbitrary: i) (auto split: if_splits)

lemma scan_step_progress:
  assumes "scan_step r p = (r', p', False)" and "p < length (r_buf r)"
  shows "r_buf r' = r_buf r \<and> p < p' \<and> p' \<le> length (r_buf r)"
proof -
  have C: "(case char_step r p (r_buf r ! p) of (r', skip) \<Rightarrow> (r', p + 1, skip)) = (r', p', False)
      \<Longrightarrow> ?thesis"
    using assms (2) by (cases "char_step r p (r_buf r ! p)") (auto dest: arg_cong [where f = "\<lambda>s. r_buf (fst s)"])
  show ?thesis
  proof (cases "r_state r")
    case H_BODY
    then show ?thesis
      using assms by (auto simp: scan_step_def Let_def split: if_splits)
  next
    case H_SKIP
    then show ?thesis
      using assms by (auto simp: scan_step_def split: option.splits dest!: q_memchr_less)
  qed (use assms C in \<open>simp_all add: scan_step_def Let_def\<close>)
qed

function scan :: "tcp_req \<Rightarrow> nat \<Rightarrow> tcp_req \<times> nat" where
  "scan r p =
     (if p < length (r_buf r) \<and> r_error r = TCP_REQ_OK
      then case scan_step r p of
             (r', p', skip) \<Rightarrow> if skip then (r', p') else scan r' p'
      else (r, p))"
  by pat_completeness auto
termination
  by (relation "measure (\<lambda>(r, p). length (r_buf r) - p)") (auto dest!: scan_step_progress [OF sym])

declare scan.simps [simp del]

text \<open>
  \<open>tcp_read_headers\<close>: bytes that are left are parsed before anything is read.
\<close>

definition scan_conn :: "tcp_connection \<Rightarrow> tcp_connection" where
  "scan_conn c =
     (let (r, p) = scan (c_req c) (r_parsed (c_req c)) in c\<lparr>c_req := r\<lparr>r_parsed := p\<rparr>\<rparr>)"

definition tcp_read_headers :: "tcp_connection \<Rightarrow> read_result \<Rightarrow> tcp_connection \<times> int" where
  "tcp_read_headers c rd =
     (if r_parsed (c_req c) < length (r_buf (c_req c)) then (scan_conn c, 0)
      else case tcp_read c rd of
             (c, bytes) \<Rightarrow> if bytes \<le> 0 then (c, bytes) else (scan_conn c, bytes))"

section \<open>Requests\<close>

text \<open>Preparing for the next request: the bytes after the parsed ones move to the front.\<close>

definition next_req :: "tcp_req \<Rightarrow> tcp_req" where
  "next_req r = r\<lparr>r_buf := drop (r_parsed r) (r_buf r), r_parsed := 0, r_start := 0, r_body := None,
     r_error := TCP_REQ_OK, r_state := H_SKIP_EMPTY, complete := False, content_len := 0,
     has_content_len := False, bytes_to_go := 0\<rparr>"

definition request_bytes :: "tcp_req \<Rightarrow> string" where
  "request_bytes r = drop (r_start r) (take (r_parsed r) (r_buf r))"

record req_result =
  rr_resp :: conn_cmds
  rr_bytes :: int
  rr_msgs :: "string list"
  rr_conn :: tcp_connection

text \<open>
  \<open>tcp_read_req\<close>.  \<open>recv\<close> is \<open>receive_msg\<close>; the result lists the requests it was
  given.  The turns after the first one find unparsed bytes and do not read again.  \<open>fuel\<close>
  bounds the number of turns.  \<open>read_phase\<close> is the first part of a turn, with the early exits on
  its left side.
\<close>

definition read_phase ::
  "read_result \<Rightarrow> tcp_connection \<Rightarrow> int \<Rightarrow> (conn_cmds \<times> tcp_connection \<times> int) + (tcp_connection \<times> int)" where
  "read_phase rd con total_bytes =
     (if r_error (c_req con) = TCP_REQ_OK
      then case tcp_read_headers con rd of
             (con, bytes) \<Rightarrow>
               if bytes = - 1 then Inl (CONN_ERROR, con, total_bytes)
               else if c_state con = S_CONN_EOF \<and> \<not> complete (c_req con)
               then Inl (CONN_EOF, con, total_bytes + bytes)
               else Inr (con, total_bytes + bytes)
      else Inr (con, total_bytes))"

fun tcp_read_req_loop ::
  "nat \<Rightarrow> (string \<Rightarrow> int) \<Rightarrow> read_result \<Rightarrow> tcp_connection \<Rightarrow> int \<Rightarrow> string list \<Rightarrow> req_result option" where
  "tcp_read_req_loop 0 recv rd con total_bytes msgs = None"
| "tcp_read_req_loop (Suc fuel) recv rd con total_bytes msgs =
     (case read_phase rd con total_bytes of
        Inl (resp, con, total_bytes) \<Rightarrow>
          Some \<lparr>rr_resp = resp, rr_bytes = total_bytes, rr_msgs = msgs, rr_conn = con\<rparr>
      | Inr (con, total_bytes) \<Rightarrow>
          (let req = c_req con
           in if r_error req \<noteq> TCP_REQ_OK
              then Some \<lparr>rr_resp = CONN_ERROR, rr_bytes = total_bytes, rr_msgs = msgs, rr_conn = con\<rparr>
              else if complete req
              then if \<not> has_content_len req
                   then Some \<lparr>rr_resp = CONN_ERROR, rr_bytes = total_bytes, rr_msgs = msgs,
                              rr_conn = con\<lparr>c_req := req\<lparr>r_error := TCP_REQ_BAD_LEN\<rparr>\<rparr>\<rparr>
                   else let m = request_bytes req
                        in if recv m < 0
                           then Some \<lparr>rr_resp = CONN_ERROR, rr_bytes = total_bytes, rr_msgs = msgs @ [m], rr_conn = con\<rparr>
                           else let size = length (r_buf req) - r_parsed req;
                                    con = con\<lparr>c_req := next_req req\<rparr>
                                in if size \<noteq> 0 then tcp_read_req_loop fuel recv rd con total_bytes (msgs @ [m])
                                   else Some \<lparr>rr_resp = (if c_state con = S_CONN_EOF then CONN_EOF else CONN_RELEASE),
                                              rr_bytes = total_bytes, rr_msgs = msgs @ [m], rr_conn = con\<rparr>
              else Some \<lparr>rr_resp = CONN_RELEASE, rr_bytes = total_bytes, rr_msgs = msgs, rr_conn = con\<rparr>))"

definition tcp_read_req ::
  "(string \<Rightarrow> int) \<Rightarrow> tcp_connection \<Rightarrow> read_result \<Rightarrow> req_result option" where
  "tcp_read_req recv con rd = tcp_read_req_loop (TCP_BUF_SIZE + 1) recv rd con 0 []"

section \<open>One byte at a time\<close>

text \<open>
  The reference machine takes one byte at a time and stands still once the request is complete or
  in error.  The loop of the source, with its jumps over bodies and skipped lines, computes the
  same.
\<close>

definition running :: "tcp_req \<Rightarrow> bool" where
  "running r \<longleftrightarrow> \<not> complete r \<and> r_error r = TCP_REQ_OK"

definition byte_step :: "char \<Rightarrow> tcp_req \<times> nat \<Rightarrow> tcp_req \<times> nat" where
  "byte_step c s =
     (case s of (r, p) \<Rightarrow>
        if \<not> running r then s
        else case r_state r of
               H_BODY \<Rightarrow>
                 (let r' = r\<lparr>bytes_to_go := bytes_to_go r - 1\<rparr>
                  in (if bytes_to_go r' = 0 then r'\<lparr>complete := True\<rparr> else r', p + 1))
             | H_SKIP \<Rightarrow> (if c = LF then r\<lparr>r_state := H_LF\<rparr> else r, p + 1)
             | _ \<Rightarrow> (fst (char_step r p c), p + 1))"

abbreviation run :: "string \<Rightarrow> tcp_req \<times> nat \<Rightarrow> tcp_req \<times> nat" where
  "run xs s \<equiv> fold byte_step xs s"

definition scan_ok :: "tcp_req \<Rightarrow> bool" where
  "scan_ok r \<longleftrightarrow> (running r \<longrightarrow> r_state r = H_BODY \<longrightarrow> has_content_len r \<and> 0 < bytes_to_go r)
     \<and> (complete r \<longrightarrow> has_content_len r)"

lemma run_stopped [simp]: "\<not> running r \<Longrightarrow> run xs (r, p) = (r, p)"
  by (induction xs) (simp_all add: byte_step_def)

lemma char_step_skip:
  assumes "running r"
  shows "snd (char_step r p c) = complete (fst (char_step r p c))"
  using assms
  by (cases "r_state r")
    (simp_all add: running_def char_step_def end_of_headers_def Let_def split: option.split)

lemma unat_minus_1_u32: "0 < unat w \<Longrightarrow> unat (w - 1) = unat w - 1" for w :: u32
  using unat_sub [of 1 w] by (simp add: word_le_nat_alt)

lemma run_body:
  assumes "running r" and "r_state r = H_BODY" and "length xs < unat (bytes_to_go r)"
  shows "run xs (r, p) = (r\<lparr>bytes_to_go := bytes_to_go r - of_nat (length xs)\<rparr>, p + length xs)"
  using assms
proof (induction xs arbitrary: r p)
  case (Cons c xs)
  have u: "unat (bytes_to_go r - 1) = unat (bytes_to_go r) - 1"
    using Cons.prems (3) by (intro unat_minus_1_u32) simp
  then have "bytes_to_go r - 1 \<noteq> 0"
    using Cons.prems (3) by auto
  with u show ?case
    using Cons.prems Cons.IH [of "r\<lparr>bytes_to_go := bytes_to_go r - 1\<rparr>" "p + 1"]
    by (simp add: byte_step_def Let_def running_def diff_diff_eq)
qed simp

lemma run_body_end:
  assumes "running r" and "r_state r = H_BODY" and "length xs = unat (bytes_to_go r)" and "xs \<noteq> []"
  shows "run xs (r, p) = (r\<lparr>bytes_to_go := 0, complete := True\<rparr>, p + length xs)"
proof -
  obtain zs c where xs: "xs = zs @ [c]"
    using assms (4) by (metis rev_exhaust)
  have "of_nat (length xs) = bytes_to_go r"
    unfolding assms (3) by simp
  then have "bytes_to_go r = 1 + of_nat (length zs)"
    using xs by simp
  then show ?thesis
    using assms (1-3) run_body [OF assms (1,2), of zs p] xs
    by (simp add: byte_step_def running_def)
qed

lemma run_skip:
  "running r \<Longrightarrow> r_state r = H_SKIP \<Longrightarrow> LF \<notin> set xs \<Longrightarrow> run xs (r, p) = (r, p + length xs)"
  by (induction xs arbitrary: p) (auto simp: byte_step_def)

lemma schar_LF: "schar x = int (uchar LF) \<longleftrightarrow> x = LF"
proof -
  have "int (uchar LF) = schar LF"
    by (simp add: schar_def LF_def char_simps)
  then show ?thesis
    by simp
qed

lemma q_memchr_LF_None: "q_memchr xs LF = None \<longleftrightarrow> LF \<notin> set xs"
  by (induction xs) (auto simp: schar_LF)

lemma q_memchr_LF_Some:
  "q_memchr xs LF = Some i \<Longrightarrow> i < length xs \<and> take (Suc i) xs = take i xs @ [LF] \<and> LF \<notin> set (take i xs)"
  by (induction xs arbitrary: i) (auto simp: schar_LF split: if_splits)

lemma char_step_ok:
  assumes "running r" and "r_state r \<noteq> H_BODY"
  shows "scan_ok (fst (char_step r p c))"
  using assms
  by (cases "r_state r")
    (simp_all add: running_def scan_ok_def char_step_def end_of_headers_def Let_def
      word_greater_zero_iff content_len_beg_def crlf_default_skip_def)

lemma scan_step_char:
  assumes "r_state r \<noteq> H_BODY" and "r_state r \<noteq> H_SKIP"
  shows "scan_step r p = (fst (char_step r p (r_buf r ! p)), p + 1, snd (char_step r p (r_buf r ! p)))"
  using assms by (cases "r_state r") (simp_all add: scan_step_def split_beta)

lemma byte_step_char:
  assumes "running r" and "r_state r \<noteq> H_BODY" and "r_state r \<noteq> H_SKIP"
  shows "byte_step c (r, p) = (fst (char_step r p c), p + 1)"
  using assms by (cases "r_state r") (simp_all add: byte_step_def)

lemma byte_step_ok:
  assumes "scan_ok r"
  shows "scan_ok (fst (byte_step c (r, p)))"
proof (cases "running r \<and> r_state r \<noteq> H_BODY \<and> r_state r \<noteq> H_SKIP")
  case True
  then show ?thesis
    by (simp add: byte_step_char char_step_ok)
next
  case False
  then show ?thesis
    using assms
    by (auto simp: byte_step_def scan_ok_def running_def Let_def word_greater_zero_iff split: if_splits)
qed

lemma run_ok: "scan_ok r \<Longrightarrow> scan_ok (fst (run xs (r, p)))"
proof (induction xs arbitrary: r p)
  case (Cons c xs)
  then show ?case
    using byte_step_ok [of r c p] by (cases "byte_step c (r, p)") simp
qed simp

lemma scan_step_run:
  assumes "running r" and "scan_ok r" and "p < length (r_buf r)" and "scan_step r p = (r', p', skip)"
  shows "run (take (p' - p) (drop p (r_buf r))) (r, p) = (r', p') \<and> skip = complete r'"
proof -
  consider "r_state r = H_BODY" | "r_state r = H_SKIP" | "r_state r \<noteq> H_BODY" "r_state r \<noteq> H_SKIP"
    by blast
  then show ?thesis
  proof cases
    case 1
    let ?n = "length (r_buf r) - p"
    have go: "0 < unat (bytes_to_go r)"
      using assms (1,2) 1 by (simp add: scan_ok_def word_less_nat_alt)
    show ?thesis
    proof (cases "unat (bytes_to_go r) \<le> ?n")
      case True
      then have "(if ?n > unat (bytes_to_go r) then unat (bytes_to_go r) else ?n) = unat (bytes_to_go r)"
        by simp
      then have "scan_step r p =
          (r\<lparr>bytes_to_go := 0, complete := True\<rparr>, p + unat (bytes_to_go r), True)"
        using 1 unfolding scan_step_def Let_def by simp
      then show ?thesis
        using True assms 1 go run_body_end [of r "take (unat (bytes_to_go r)) (drop p (r_buf r))" p]
        by auto
    next
      case False
      have "bytes_to_go r - of_nat ?n \<noteq> 0"
      proof
        assume "bytes_to_go r - of_nat ?n = 0"
        then have "bytes_to_go r = of_nat ?n" by simp
        then have "unat (bytes_to_go r) \<le> ?n" by (metis unat_of_nat mod_less_eq_dividend)
        with False show False by simp
      qed
      with False show ?thesis
        using assms 1 run_body [of r "drop p (r_buf r)" p]
        by (auto simp: scan_step_def Let_def running_def)
    qed
  next
    case 2
    show ?thesis
    proof (cases "q_memchr (drop p (r_buf r)) LF")
      case None
      then have "LF \<notin> set (drop p (r_buf r))"
        by (rule q_memchr_LF_None [THEN iffD1])
      with None show ?thesis
        using assms 2 run_skip [of r "drop p (r_buf r)" p]
        by (auto simp: scan_step_def running_def)
    next
      case (Some i)
      have "running r \<Longrightarrow> run (take i (drop p (r_buf r)) @ [LF]) (r, p) = (r\<lparr>r_state := H_LF\<rparr>, p + i + 1)"
        using q_memchr_LF_Some [OF Some] 2 run_skip [of r "take i (drop p (r_buf r))" p]
        by (simp add: byte_step_def)
      with Some show ?thesis
        using assms 2 q_memchr_LF_Some [OF Some] by (auto simp: scan_step_def running_def)
    qed
  next
    case 3
    then show ?thesis
      using assms char_step_skip [OF assms (1)]
      by (auto simp: scan_step_char byte_step_char take_Suc_conv_app_nth)
  qed
qed

lemma scan_step_after: "scan_step r p = (r', p', skip) \<Longrightarrow> r_buf r' = r_buf r"
  by (cases "r_state r = H_BODY \<or> r_state r = H_SKIP")
    (auto simp: scan_step_char, auto simp: scan_step_def Let_def split: if_splits option.splits)

theorem scan_run:
  assumes "running r" and "scan_ok r"
  shows "scan r p = run (drop p (r_buf r)) (r, p)"
  using assms
proof (induction r p rule: scan.induct)
  case (1 r p)
  show ?case
  proof (cases "p < length (r_buf r)")
    case True
    obtain r' p' skip where s: "scan_step r p = (r', p', skip)"
      by (metis prod_cases3)
    let ?xs = "take (p' - p) (drop p (r_buf r))" and ?ys = "drop (p' - p) (drop p (r_buf r))"
    have x: "run ?xs (r, p) = (r', p')" and skip: "skip = complete r'"
      using scan_step_run [OF 1 (2,3) True s] by simp_all
    have ok: "scan_ok r'"
      using run_ok [OF 1 (3), of ?xs p] x by simp
    have whole: "run (drop p (r_buf r)) (r, p) = run ?ys (r', p')"
      using x by (metis append_take_drop_id fold_append comp_apply)
    have e: "r_error r = TCP_REQ_OK"
      using 1 (2) by (simp add: running_def)
    show ?thesis
    proof (cases "running r'")
      case r: True
      then have ns: "skip = False"
        by (simp add: skip running_def)
      have "p < p'"
        using scan_step_progress [of r p r' p'] s ns True by simp
      then have "?ys = drop p' (r_buf r')"
        using scan_step_after [OF s] by simp
      moreover have "scan r' p' = run (drop p' (r_buf r')) (r', p')"
        using 1 (1) [OF _ s [symmetric]] True e ns r ok by simp
      ultimately show ?thesis
        using whole s ns True e by (simp add: scan.simps [of r p])
    next
      case r: False
      then have "skip \<or> scan r' p' = (r', p')"
        by (auto simp: skip running_def scan.simps [of r' p'])
      then show ?thesis
        using whole s True e r by (auto simp: scan.simps [of r p])
    qed
  qed (simp add: scan.simps)
qed

section \<open>The stream of requests\<close>

text \<open>
  A connection between two calls of \<open>tcp_read_req\<close>: everything read has been parsed, and the
  request is neither complete nor in error.
\<close>

definition idle :: "tcp_req \<Rightarrow> bool" where
  "idle r \<longleftrightarrow> running r \<and> scan_ok r \<and> r_parsed r = length (r_buf r) \<and> r_start r \<le> r_parsed r"

text \<open>
  What a connection does with one more byte, in terms of the byte machine: the byte is stored and
  parsed; a complete request is handed on and the next one begins.  The last component says that
  the connection has failed.
\<close>

definition feed_byte ::
  "(string \<Rightarrow> int) \<Rightarrow> char \<Rightarrow> tcp_req \<times> string list \<times> bool \<Rightarrow> tcp_req \<times> string list \<times> bool" where
  "feed_byte recv c s =
     (case s of (r, ms, failed) \<Rightarrow>
        if failed then s
        else (case byte_step c (r, r_parsed r) of (r', p) \<Rightarrow>
               let r' = r'\<lparr>r_buf := r_buf r @ [c], r_parsed := p\<rparr>
               in if r_error r' \<noteq> TCP_REQ_OK then (r', ms, True)
                  else if complete r'
                  then (let m = request_bytes r'
                        in if recv m < 0 then (r', ms @ [m], True) else (next_req r', ms @ [m], False))
                  else (r', ms, False)))"

abbreviation feed :: "(string \<Rightarrow> int) \<Rightarrow> string \<Rightarrow> tcp_req \<times> string list \<times> bool \<Rightarrow> tcp_req \<times> string list \<times> bool" where
  "feed recv xs s \<equiv> fold (feed_byte recv) xs s"

abbreviation set_buf :: "string \<Rightarrow> nat \<Rightarrow> tcp_req \<Rightarrow> tcp_req" where
  "set_buf b q r \<equiv> r\<lparr>r_buf := b, r_parsed := q\<rparr>"

lemma char_step_set_buf:
  "char_step (set_buf b q r) p c = (set_buf b q (fst (char_step r p c)), snd (char_step r p c))"
  by (cases "r_state r")
    (simp_all add: char_step_def end_of_headers_def Let_def content_len_beg_def split: option.split)

lemma running_set_buf [simp]: "running (set_buf b q r) = running r"
  by (simp add: running_def)

lemma scan_ok_set_buf [simp]: "scan_ok (set_buf b q r) = scan_ok r"
  by (simp add: scan_ok_def running_def)

lemma byte_step_set_buf:
  "byte_step c (set_buf b q r, p) = (set_buf b q (fst (byte_step c (r, p))), snd (byte_step c (r, p)))"
proof (cases "running r \<and> r_state r \<noteq> H_BODY \<and> r_state r \<noteq> H_SKIP")
  case True
  then show ?thesis
    by (simp add: byte_step_char char_step_set_buf)
next
  case False
  then show ?thesis
    by (auto simp: byte_step_def Let_def)
qed

lemma run_set_buf:
  "run xs (set_buf b q r, p) = (set_buf b q (fst (run xs (r, p))), snd (run xs (r, p)))"
proof (induction xs arbitrary: r p)
  case (Cons c xs)
  show ?case
    using Cons.IH [of "fst (byte_step c (r, p))" "snd (byte_step c (r, p))"]
    by (simp add: byte_step_set_buf)
qed simp

lemma byte_step_pos: "running (fst s) \<Longrightarrow> snd (byte_step c s) = snd s + 1"
  by (cases s; cases "r_state (fst s)") (simp_all add: byte_step_def Let_def)

lemma byte_step_running: "running (fst (byte_step c s)) \<Longrightarrow> running (fst s)"
  by (cases s) (auto simp: byte_step_def split: if_splits)

lemma set_buf_twice: "set_buf b q (set_buf b' q' r) = set_buf b q r"
  by simp

lemma byte_step_start:
  "r_start r \<le> p \<Longrightarrow> r_start (fst (byte_step c (r, p))) \<le> snd (byte_step c (r, p))"
proof (cases "running r \<and> r_state r \<noteq> H_BODY \<and> r_state r \<noteq> H_SKIP")
  case True
  assume "r_start r \<le> p"
  with True show ?thesis
    by (cases "r_state r")
      (simp_all add: byte_step_char char_step_def end_of_headers_def Let_def split: option.split)
next
  case False
  assume "r_start r \<le> p"
  with False show ?thesis
    by (auto simp: byte_step_def Let_def)
qed

text \<open>
  Parsing a piece of the stream either leaves the request running, or stops at one of its bytes.
\<close>

lemma run_cases:
  assumes "running r"
  obtains (more) "running (fst (run xs (r, p)))" and "snd (run xs (r, p)) = p + length xs"
  | (stop) ys c zs where "xs = ys @ c # zs" and "running (fst (run ys (r, p)))"
      and "snd (run ys (r, p)) = p + length ys"
      and "\<not> running (fst (byte_step c (run ys (r, p))))"
      and "run xs (r, p) = byte_step c (run ys (r, p))"
proof -
  have "(running (fst (run xs (r, p))) \<and> snd (run xs (r, p)) = p + length xs) \<or>
      (\<exists>ys c zs. xs = ys @ c # zs \<and> running (fst (run ys (r, p))) \<and> snd (run ys (r, p)) = p + length ys
        \<and> \<not> running (fst (byte_step c (run ys (r, p)))) \<and> run xs (r, p) = byte_step c (run ys (r, p)))"
  proof (induction xs rule: rev_induct)
    case (snoc x xs)
    then show ?case
    proof (elim disjE exE conjE)
      assume a: "running (fst (run xs (r, p)))" "snd (run xs (r, p)) = p + length xs"
      show ?thesis
      proof (cases "running (fst (byte_step x (run xs (r, p))))")
        case True
        then show ?thesis
          using a byte_step_pos [of "run xs (r, p)" x] by simp
      next
        case False
        then show ?thesis
          using a by (intro disjI2 exI [of _ xs] exI [of _ x] exI [of _ "[]"]) simp
      qed
    next
      fix ys c zs
      assume a: "xs = ys @ c # zs" "running (fst (run ys (r, p)))" "snd (run ys (r, p)) = p + length ys"
        "\<not> running (fst (byte_step c (run ys (r, p))))" "run xs (r, p) = byte_step c (run ys (r, p))"
      have "run [x] (byte_step c (run ys (r, p))) = byte_step c (run ys (r, p))"
        using a (4) run_stopped by (metis prod.collapse)
      then have "run (xs @ [x]) (r, p) = byte_step c (run ys (r, p))"
        using a (5) by simp
      with a show ?thesis
        by (intro disjI2 exI [of _ ys] exI [of _ c] exI [of _ "zs @ [x]"]) simp
    qed
  qed (use assms in simp)
  then show ?thesis
    using more stop by blast
qed

lemma run_start: "r_start r \<le> p \<Longrightarrow> r_start (fst (run xs (r, p))) \<le> snd (run xs (r, p))"
proof (induction xs arbitrary: r p)
  case (Cons c xs)
  then show ?case
    using byte_step_start [OF Cons.prems, of c] Cons.IH [of "fst (byte_step c (r, p))" "snd (byte_step c (r, p))"]
    by simp
qed simp

definition close_req :: "(string \<Rightarrow> int) \<Rightarrow> string list \<Rightarrow> tcp_req \<Rightarrow> tcp_req \<times> string list \<times> bool" where
  "close_req recv ms r =
     (if r_error r \<noteq> TCP_REQ_OK then (r, ms, True)
      else if complete r
      then (let m = request_bytes r
            in if recv m < 0 then (r, ms @ [m], True) else (next_req r, ms @ [m], False))
      else (r, ms, False))"

lemma feed_byte_eq:
  "feed_byte recv c (set_buf b q r, ms, False)
    = close_req recv ms (set_buf (b @ [c]) (snd (byte_step c (r, q))) (fst (byte_step c (r, q))))"
  by (simp add: feed_byte_def byte_step_set_buf close_req_def Let_def)

lemma feed_running:
  assumes "running r" and "running (fst (run xs (r, r_parsed r)))"
  shows "feed recv xs (r, ms, False)
    = (set_buf (r_buf r @ xs) (r_parsed r + length xs) (fst (run xs (r, r_parsed r))), ms, False)"
  using assms (2)
proof (induction xs rule: rev_induct)
  case (snoc x xs)
  let ?q = "r_parsed r + length xs"
  have run: "running (fst (run xs (r, r_parsed r)))"
    using snoc.prems byte_step_running by auto
  then obtain r1 where s: "run xs (r, r_parsed r) = (r1, ?q)" and "running r1"
    using run_cases [OF assms (1), of xs "r_parsed r"] by (metis prod.collapse)
  then show ?case
    using snoc byte_step_pos [of "(r1, ?q)" x] by (simp add: feed_byte_eq close_req_def) (simp add: running_def)
qed simp

lemma feed_stop:
  assumes "running r" and "running (fst (run ys (r, r_parsed r)))"
    and "\<not> running (fst (byte_step c (run ys (r, r_parsed r))))"
  shows "feed recv (ys @ [c]) (r, ms, False)
    = close_req recv ms (set_buf (r_buf r @ ys @ [c]) (r_parsed r + length ys + 1)
        (fst (byte_step c (run ys (r, r_parsed r)))))"
proof -
  let ?q = "r_parsed r + length ys"
  obtain r1 where s: "run ys (r, r_parsed r) = (r1, ?q)" and "running r1"
    using run_cases [OF assms (1), of ys "r_parsed r"] assms (2) by (metis prod.collapse)
  then show ?thesis
    using feed_running [OF assms (1,2)] byte_step_pos [of "(r1, ?q)" c] by (simp add: feed_byte_eq)
qed

lemma feed_failed [simp]: "feed recv xs (r, ms, True) = (r, ms, True)"
  by (induction xs) (simp_all add: feed_byte_def)

text \<open>The buffer with the unparsed bytes \<open>xs\<close> behind an idle request.\<close>

abbreviation with_data :: "tcp_req \<Rightarrow> string \<Rightarrow> tcp_req" where
  "with_data r xs \<equiv> r\<lparr>r_buf := r_buf r @ xs\<rparr>"

lemma scan_conn_with_data:
  assumes "idle r"
  shows "scan_conn (c\<lparr>c_req := with_data r xs\<rparr>)
    = c\<lparr>c_req := set_buf (r_buf r @ xs) (snd (run xs (r, r_parsed r))) (fst (run xs (r, r_parsed r)))\<rparr>"
proof -
  have "running (with_data r xs)" and "scan_ok (with_data r xs)"
    using assms by (simp_all add: idle_def running_def scan_ok_def)
  then have "scan (with_data r xs) (r_parsed r) = run xs (with_data r xs, r_parsed r)"
    using assms scan_run [of "with_data r xs" "r_parsed r"] by (simp add: idle_def)
  also have "\<dots> = (set_buf (r_buf r @ xs) (r_parsed r) (fst (run xs (r, r_parsed r))), snd (run xs (r, r_parsed r)))"
    using run_set_buf [where b = "r_buf r @ xs" and q = "r_parsed r" and r = r] by simp
  finally show ?thesis
    by (simp add: scan_conn_def)
qed

definition in_bounds :: "nat \<Rightarrow> tcp_req \<Rightarrow> bool" where
  "in_bounds n r \<longleftrightarrow> r_start r \<le> r_parsed r \<and> r_parsed r \<le> length (r_buf r) \<and> length (r_buf r) \<le> n"

lemma idle_next_req: "r_parsed r = length (r_buf r) \<Longrightarrow> idle (next_req r)"
  by (simp add: idle_def next_req_def running_def scan_ok_def)

lemma next_req_set_buf:
  "r_parsed r = length (r_buf r) \<Longrightarrow> next_req (set_buf (r_buf r @ zs) (r_parsed r) r) = with_data (next_req r) zs"
  by (simp add: next_req_def)

lemma request_bytes_set_buf:
  "r_parsed r = length (r_buf r) \<Longrightarrow> request_bytes (set_buf (r_buf r @ zs) (r_parsed r) r) = request_bytes r"
  by (simp add: request_bytes_def)

lemma read_phase_unparsed:
  assumes "idle r" and "xs \<noteq> []" and "c_state c \<noteq> S_CONN_EOF"
  shows "read_phase rd (c\<lparr>c_req := with_data r xs\<rparr>) n = Inr (scan_conn (c\<lparr>c_req := with_data r xs\<rparr>), n)"
  using assms
  by (simp add: read_phase_def tcp_read_headers_def scan_conn_with_data) (simp add: idle_def running_def)

text \<open>What a turn does with the bytes that make the request stop, against \<open>feed_byte\<close>.\<close>

lemma loop_stop:
  assumes "idle r" and "c_state con \<noteq> S_CONN_EOF"
    and "xs = ys @ c # zs" and "running (fst (run ys (r, r_parsed r)))"
    and "\<not> running (fst (byte_step c (run ys (r, r_parsed r))))"
    and "run xs (r, r_parsed r) = byte_step c (run ys (r, r_parsed r))"
    and "R = set_buf (r_buf r @ ys @ [c]) (r_parsed r + length ys + 1) (fst (byte_step c (run ys (r, r_parsed r))))"
  shows "idle (next_req R) \<and> in_bounds (length (r_buf r @ xs)) (set_buf (r_buf R @ zs) (r_parsed R) R)
    \<and> feed recv xs (r, ms, False) = feed recv zs (close_req recv ms R)
    \<and> tcp_read_req_loop (Suc fuel) recv rd (con\<lparr>c_req := with_data r xs\<rparr>) n ms =
       (case close_req recv ms R of (_, ms', failed) \<Rightarrow>
          if failed then Some \<lparr>rr_resp = CONN_ERROR, rr_bytes = n, rr_msgs = ms',
                               rr_conn = con\<lparr>c_req := set_buf (r_buf R @ zs) (r_parsed R) R\<rparr>\<rparr>
          else if zs \<noteq> [] then tcp_read_req_loop fuel recv rd (con\<lparr>c_req := with_data (next_req R) zs\<rparr>) n ms'
          else Some \<lparr>rr_resp = CONN_RELEASE, rr_bytes = n, rr_msgs = ms', rr_conn = con\<lparr>c_req := next_req R\<rparr>\<rparr>)"
proof -
  let ?q = "r_parsed r + length ys"
  have r: "running r" "scan_ok r" "r_parsed r = length (r_buf r)" "r_start r \<le> r_parsed r"
    using assms (1) by (simp_all add: idle_def)
  obtain r1 where s: "run ys (r, r_parsed r) = (r1, ?q)" and r1: "running r1"
    using run_cases [OF r (1), of ys "r_parsed r"] assms (4) by (metis prod.collapse)
  obtain r2 where s2: "byte_step c (r1, ?q) = (r2, ?q + 1)"
    using byte_step_pos [of "(r1, ?q)" c] r1 by (cases "byte_step c (r1, ?q)") simp
  have R: "R = set_buf (r_buf r @ ys @ [c]) (?q + 1) r2"
    using assms (7) s s2 by simp
  have st: "r_start r2 \<le> ?q + 1" and ok: "scan_ok r2"
    using run_start [OF r (4), of xs] run_ok [OF r (2), of xs "r_parsed r"] assms (6) s s2 by simp_all
  have stop: "\<not> running r2"
    using assms (5) s s2 by simp
  have RQ: "r_parsed R = length (r_buf R)"
    using R r (3) by simp
  have eq: "set_buf (r_buf r @ xs) (?q + 1) r2 = set_buf (r_buf R @ zs) (r_parsed R) R"
    using R assms (3) by simp
  have sc: "scan_conn (con\<lparr>c_req := with_data r xs\<rparr>) = con\<lparr>c_req := set_buf (r_buf R @ zs) (r_parsed R) R\<rparr>"
    using scan_conn_with_data [OF assms (1), of xs con] assms (6) s s2 eq by simp
  have f: "feed recv xs (r, ms, False) = feed recv zs (close_req recv ms R)"
    using feed_stop [OF r (1) assms (4,5)] assms (3,7) by simp
  have b: "in_bounds (length (r_buf r @ xs)) (set_buf (r_buf R @ zs) (r_parsed R) R)"
    using R st r (3) assms (3) by (simp add: in_bounds_def)
  have flags: "r_error R = r_error r2" "complete R = complete r2" "has_content_len R = has_content_len r2"
    using R by simp_all
  have rp: "read_phase rd (con\<lparr>c_req := with_data r xs\<rparr>) n
      = Inr (con\<lparr>c_req := set_buf (r_buf R @ zs) (r_parsed R) R\<rparr>, n)"
    using read_phase_unparsed [of r xs con rd n] sc assms (1-3) by simp
  have hc: "complete R \<Longrightarrow> has_content_len R"
    using ok flags by (simp add: scan_ok_def)
  have rc: "r_error R = TCP_REQ_OK \<Longrightarrow> complete R"
    using stop flags by (simp add: running_def)
  have "tcp_read_req_loop (Suc fuel) recv rd (con\<lparr>c_req := with_data r xs\<rparr>) n ms =
       (case close_req recv ms R of (_, ms', failed) \<Rightarrow>
          if failed then Some \<lparr>rr_resp = CONN_ERROR, rr_bytes = n, rr_msgs = ms',
                               rr_conn = con\<lparr>c_req := set_buf (r_buf R @ zs) (r_parsed R) R\<rparr>\<rparr>
          else if zs \<noteq> [] then tcp_read_req_loop fuel recv rd (con\<lparr>c_req := with_data (next_req R) zs\<rparr>) n ms'
          else Some \<lparr>rr_resp = CONN_RELEASE, rr_bytes = n, rr_msgs = ms', rr_conn = con\<lparr>c_req := next_req R\<rparr>\<rparr>)"
    using rp hc rc RQ assms (2) next_req_set_buf [OF RQ, of zs] request_bytes_set_buf [OF RQ, of zs]
    by (auto simp: close_req_def Let_def)
  with f b idle_next_req [OF RQ] show ?thesis
    by blast
qed

definition drained ::
  "nat \<Rightarrow> tcp_connection \<Rightarrow> int \<Rightarrow> tcp_req \<times> string list \<times> bool \<Rightarrow> req_result option \<Rightarrow> bool" where
  "drained lim con n s res =
     (case (s, res) of
        ((r, ms, failed), Some x) \<Rightarrow>
          rr_bytes x = n \<and> rr_msgs x = ms \<and> rr_resp x = (if failed then CONN_ERROR else CONN_RELEASE)
          \<and> in_bounds lim (c_req (rr_conn x)) \<and> c_state (rr_conn x) = c_state con
          \<and> (\<not> failed \<longrightarrow> rr_conn x = con\<lparr>c_req := r\<rparr> \<and> idle r)
      | (_, None) \<Rightarrow> False)"

lemma drained_mono: "drained m con n s res \<Longrightarrow> m \<le> m' \<Longrightarrow> drained m' con n s res"
  by (auto simp: drained_def in_bounds_def split: prod.splits option.splits)

lemma drained_set_req [simp]: "drained m (con\<lparr>c_req := r\<rparr>) n s res = drained m con n s res"
  by (auto simp: drained_def split: prod.splits option.splits)

lemma loop_drain:
  assumes "idle r" and "xs \<noteq> []" and "length xs \<le> fuel" and "c_state con \<noteq> S_CONN_EOF"
  shows "drained (length (r_buf r @ xs)) con n (feed recv xs (r, ms, False))
    (tcp_read_req_loop fuel recv rd (con\<lparr>c_req := with_data r xs\<rparr>) n ms)"
  using assms
proof (induction fuel arbitrary: r xs ms)
  case (Suc fuel)
  have r: "running r" "scan_ok r" "r_parsed r = length (r_buf r)" "r_start r \<le> r_parsed r"
    using Suc.prems (1) by (simp_all add: idle_def)
  from r (1) show ?case
  proof (cases rule: run_cases [where xs = xs and p = "r_parsed r"])
    case more
    let ?R = "set_buf (r_buf r @ xs) (r_parsed r + length xs) (fst (run xs (r, r_parsed r)))"
    have "idle ?R"
      using more r run_ok [OF r (2), of xs "r_parsed r"] run_start [OF r (4), of xs]
      by (simp add: idle_def)
    then show ?thesis
      using more read_phase_unparsed [OF Suc.prems (1,2,4)] scan_conn_with_data [OF Suc.prems (1), of xs con]
        feed_running [OF r (1) more (1)]
      by (auto simp: drained_def idle_def running_def in_bounds_def)
  next
    case (stop ys c zs)
    define R where "R = set_buf (r_buf r @ ys @ [c]) (r_parsed r + length ys + 1)
      (fst (byte_step c (run ys (r, r_parsed r))))"
    note s = loop_stop [OF Suc.prems (1,4) stop (1,2,4,5) R_def]
    obtain R' ms' failed where cl: "close_req recv ms R = (R', ms', failed)"
      by (metis prod_cases3)
    have nx: "\<not> failed \<Longrightarrow> R' = next_req R"
      using cl stop (4) by (auto simp: close_req_def R_def running_def Let_def split: if_splits)
    have idle: "idle (next_req R)" and bounds: "in_bounds (length (r_buf r @ xs)) (set_buf (r_buf R @ zs) (r_parsed R) R)"
      using s by blast+
    have z: "r_buf (next_req R) = []"
      using r (3) by (simp add: R_def next_req_def)
    show ?thesis
    proof (cases "failed \<or> zs = []")
      case True
      then show ?thesis
        using s [of recv ms fuel rd n] cl nx idle bounds z
        by (auto simp: drained_def in_bounds_def idle_def simp del: tcp_read_req_loop.simps)
    next
      case False
      have "length zs \<le> fuel"
        using Suc.prems (3) stop (1) by simp
      with False have "drained (length (r_buf (next_req R) @ zs)) con n (feed recv zs (next_req R, ms', False))
          (tcp_read_req_loop fuel recv rd (con\<lparr>c_req := with_data (next_req R) zs\<rparr>) n ms')"
        using Suc.IH [OF idle _ _ Suc.prems (4)] by simp
      then have "drained (length (r_buf r @ xs)) con n (feed recv zs (next_req R, ms', False))
          (tcp_read_req_loop fuel recv rd (con\<lparr>c_req := with_data (next_req R) zs\<rparr>) n ms')"
        by (rule drained_mono) (simp add: z stop (1))
      with False show ?thesis
        using s [of recv ms fuel rd n] cl nx by (simp del: tcp_read_req_loop.simps)
    qed
  qed
qed simp

lemma feed_msgs:
  "feed recv xs (r, ms, f) =
     (case feed recv xs (r, [], f) of (r', ms', f') \<Rightarrow> (r', ms @ ms', f'))"
proof (induction xs arbitrary: r ms f)
  case (Cons c xs)
  have close: "close_req recv ms r' = (case close_req recv [] r' of (r'', ms', f') \<Rightarrow> (r'', ms @ ms', f'))" for ms r'
    by (simp add: close_req_def Let_def)
  have step: "feed_byte recv c (r, ms, f) = (case feed_byte recv c (r, [], f) of (r', ms', f') \<Rightarrow> (r', ms @ ms', f'))" for ms
  proof (cases f)
    case False
    have r: "r = set_buf (r_buf r) (r_parsed r) r"
      by simp
    show ?thesis
      using False by (subst (1 2) r) (simp only: feed_byte_eq close [of ms])
  qed (simp add: feed_byte_def)
  obtain r' ms' f' where o: "feed_byte recv c (r, [], f) = (r', ms', f')"
    by (metis prod_cases3)
  show ?case
    using step [of ms] o Cons.IH [of r' "ms @ ms'" f'] Cons.IH [of r' ms' f']
    by (simp add: split_beta)
qed simp

definition conn_ok :: "tcp_connection \<Rightarrow> bool" where
  "conn_ok con \<longleftrightarrow> idle (c_req con) \<and> length (r_buf (c_req con)) \<le> TCP_BUF_SIZE \<and> c_state con \<noteq> S_CONN_EOF"

text \<open>\<open>read\<close> returns at most as many bytes as it is asked for.\<close>

definition read_ok :: "tcp_connection \<Rightarrow> read_result \<Rightarrow> bool" where
  "read_ok con rd \<longleftrightarrow>
     (case rd of Data xs \<Rightarrow> length (r_buf (c_req con)) + length xs \<le> TCP_BUF_SIZE | _ \<Rightarrow> True)"

lemma loop_read:
  assumes "conn_ok con" and "read_ok con (Data xs)" and "xs \<noteq> []"
  shows "tcp_read_req_loop (Suc fuel) recv (Data xs) con n ms =
    tcp_read_req_loop (Suc fuel) recv (Data xs) (con\<lparr>c_req := with_data (c_req con) xs\<rparr>) (n + int (length xs)) ms"
proof -
  have "length (r_buf (c_req con)) < TCP_BUF_SIZE"
    using assms (2,3) by (cases xs) (simp_all add: read_ok_def)
  then have "read_phase (Data xs) con n = read_phase (Data xs) (con\<lparr>c_req := with_data (c_req con) xs\<rparr>) (n + int (length xs))"
    using assms read_phase_unparsed [of "c_req con" xs con "Data xs" "n + int (length xs)"]
    by (simp add: read_phase_def tcp_read_headers_def tcp_read_def conn_ok_def read_ok_def idle_def running_def
        scan_conn_with_data Let_def)
  then show ?thesis
    by simp
qed

lemma tcp_read_req_drained:
  assumes "conn_ok con" and "read_ok con (Data xs)" and "xs \<noteq> []"
  shows "drained (length (r_buf (c_req con) @ xs)) con (int (length xs)) (feed recv xs (c_req con, [], False))
    (tcp_read_req recv con (Data xs))"
proof -
  have "drained (length (r_buf (c_req con) @ xs)) con (int (length xs)) (feed recv xs (c_req con, [], False))
      (tcp_read_req_loop (TCP_BUF_SIZE + 1) recv (Data xs) (con\<lparr>c_req := with_data (c_req con) xs\<rparr>) (int (length xs)) [])"
    using assms by (intro loop_drain) (simp_all add: conn_ok_def read_ok_def)
  then show ?thesis
    using loop_read [OF assms, of TCP_BUF_SIZE recv 0 "[]"]
    by (simp add: tcp_read_req_def del: tcp_read_req_loop.simps)
qed

text \<open>
  C18. Reading a piece of the stream refines the byte machine: \<open>tcp_read_req\<close> returns, hands on
  exactly the requests the byte machine finds, in order, reports an error exactly when it fails,
  counts the bytes, and otherwise leaves the connection in the byte machine's state.
\<close>

theorem tcp_read_req_refines:
  assumes "conn_ok con" and "read_ok con (Data xs)" and "xs \<noteq> []"
  shows "case feed recv xs (c_req con, [], False) of (r, ms, failed) \<Rightarrow>
    \<exists>x. tcp_read_req recv con (Data xs) = Some x \<and> rr_msgs x = ms \<and> rr_bytes x = int (length xs)
      \<and> (if failed then rr_resp x = CONN_ERROR
         else rr_resp x = CONN_RELEASE \<and> rr_conn x = con\<lparr>c_req := r\<rparr> \<and> conn_ok (rr_conn x))"
  using tcp_read_req_drained [OF assms, of recv] assms (1,2)
  by (auto simp: drained_def conn_ok_def in_bounds_def read_ok_def split: prod.splits option.splits)

definition sample_conn :: tcp_connection where
  "sample_conn = \<lparr>c_req = init_tcp_req, c_state = S_CONN_OK\<rparr>"

definition sample_bytes :: string where
  "sample_bytes = ''A'' @ [CR, LF] @ ''l:2'' @ [CR, LF, CR, LF] @ ''xyB''"

lemma sample_conn_ok: "conn_ok sample_conn"
  by (simp add: conn_ok_def sample_conn_def init_tcp_req_def idle_def running_def scan_ok_def)

lemma sample_read_ok: "length xs \<le> 100 \<Longrightarrow> read_ok sample_conn (Data xs)"
  by (simp add: read_ok_def sample_conn_def init_tcp_req_def TCP_BUF_SIZE_def)

theorem tcp_read_req_refines_witness:
  "\<exists>x. tcp_read_req (\<lambda>_. 0) sample_conn (Data sample_bytes) = Some x
    \<and> rr_msgs x = [take 12 sample_bytes] \<and> rr_resp x = CONN_RELEASE"
proof -
  have "fst (snd (feed (\<lambda>_. 0) sample_bytes (c_req sample_conn, [], False))) = [take 12 sample_bytes]
      \<and> \<not> snd (snd (feed (\<lambda>_. 0) sample_bytes (c_req sample_conn, [], False)))"
    by code_simp
  then show ?thesis
    using tcp_read_req_refines [of sample_conn sample_bytes "\<lambda>_. 0"] sample_conn_ok
      sample_read_ok [of sample_bytes]
    by (auto simp: sample_bytes_def split: prod.splits)
qed

text \<open>
  C17. TCP segmentation does not matter: when two pieces of the stream are read one after the
  other, the requests handed on, the verdict and the state of the connection are those of reading
  both pieces at once.
\<close>

theorem segmentation_irrelevant:
  assumes "conn_ok con" and "read_ok con (Data (xs @ ys))" and "xs \<noteq> []" and "ys \<noteq> []"
    and "tcp_read_req recv con (Data xs) = Some x" and "rr_resp x = CONN_RELEASE"
  shows "\<exists>y z. tcp_read_req recv (rr_conn x) (Data ys) = Some y
    \<and> tcp_read_req recv con (Data (xs @ ys)) = Some z
    \<and> rr_msgs z = rr_msgs x @ rr_msgs y \<and> rr_resp z = rr_resp y
    \<and> rr_bytes z = rr_bytes x + rr_bytes y
    \<and> (rr_resp y = CONN_RELEASE \<longrightarrow> rr_conn z = rr_conn y)"
proof -
  obtain r ms failed where f: "feed recv xs (c_req con, [], False) = (r, ms, failed)"
    by (metis prod_cases3)
  have "read_ok con (Data xs)"
    using assms (2) by (simp add: read_ok_def)
  from tcp_read_req_drained [OF assms (1) this assms (3), of recv]
  have x: "failed = False" "rr_msgs x = ms" "rr_bytes x = int (length xs)" "rr_conn x = con\<lparr>c_req := r\<rparr>"
      "conn_ok (rr_conn x)" "read_ok (rr_conn x) (Data ys)"
    using f assms (1,2,5,6) by (auto simp: drained_def conn_ok_def in_bounds_def read_ok_def split: if_splits)
  obtain r' ms' failed' where g: "feed recv ys (r, [], False) = (r', ms', failed')"
    by (metis prod_cases3)
  have h: "feed recv (xs @ ys) (c_req con, [], False) = (r', ms @ ms', failed')"
    using f g x (1) feed_msgs [of recv ys r ms False] by simp
  have "drained (length (r_buf r @ ys)) (rr_conn x) (int (length ys)) (r', ms', failed') (tcp_read_req recv (rr_conn x) (Data ys))"
    using tcp_read_req_drained [OF x (5,6) assms (4), of recv] g x (4) by simp
  moreover have "drained (length (r_buf (c_req con) @ xs @ ys)) con (int (length (xs @ ys))) (r', ms @ ms', failed') (tcp_read_req recv con (Data (xs @ ys)))"
    using tcp_read_req_drained [OF assms (1,2), of recv] h assms (3) by simp
  ultimately show ?thesis
    using x (2-4) by (auto simp: drained_def split: option.splits)
qed

theorem segmentation_irrelevant_witness:
  "\<exists>x y z. tcp_read_req (\<lambda>_. 0) sample_conn (Data (take 9 sample_bytes)) = Some x
    \<and> tcp_read_req (\<lambda>_. 0) (rr_conn x) (Data (drop 9 sample_bytes)) = Some y
    \<and> tcp_read_req (\<lambda>_. 0) sample_conn (Data sample_bytes) = Some z
    \<and> rr_msgs z = rr_msgs x @ rr_msgs y"
proof -
  let ?xs = "take 9 sample_bytes" and ?ys = "drop 9 sample_bytes"
  have n: "?xs \<noteq> []" "?ys \<noteq> []" "length ?xs \<le> 100" "length (?xs @ ?ys) \<le> 100"
    by (simp_all add: sample_bytes_def)
  have "\<not> snd (snd (feed (\<lambda>_. 0) ?xs (c_req sample_conn, [], False)))"
    by code_simp
  then obtain x where x: "tcp_read_req (\<lambda>_. 0) sample_conn (Data ?xs) = Some x" "rr_resp x = CONN_RELEASE"
    using tcp_read_req_drained [OF sample_conn_ok sample_read_ok [OF n (3)] n (1), of "\<lambda>_. 0"]
    by (auto simp: drained_def split: prod.splits option.splits)
  have "?xs @ ?ys = sample_bytes"
    by (rule append_take_drop_id)
  then show ?thesis
    using segmentation_irrelevant [OF sample_conn_ok sample_read_ok [OF n (4)] n (1,2) x] x (1) by metis
qed

text \<open>
  C38. Every call returns, whatever \<open>read\<close> does, with at most one turn per buffered byte, and
  keeps the offsets inside the buffer: the start of the request, the parsed position, where a
  terminating zero is written for \<open>receive_msg\<close>, and the end of the data are in this order and
  at most \<open>TCP_BUF_SIZE\<close>, the last index of the array.  After a release the connection can be
  read again.
\<close>

theorem tcp_read_req_safe:
  assumes "conn_ok con" and "read_ok con rd"
  shows "\<exists>x. tcp_read_req recv con rd = Some x \<and> in_bounds TCP_BUF_SIZE (c_req (rr_conn x))
    \<and> (rr_resp x = CONN_RELEASE \<longrightarrow> conn_ok (rr_conn x))
    \<and> rr_resp x \<in> {CONN_RELEASE, CONN_ERROR, CONN_EOF}"
proof (cases "\<exists>xs. rd = Data xs \<and> xs \<noteq> []")
  case True
  then obtain xs where rd: "rd = Data xs" "xs \<noteq> []"
    by blast
  then show ?thesis
    using tcp_read_req_drained [of con xs recv] assms
    by (auto simp: drained_def conn_ok_def in_bounds_def read_ok_def split: prod.splits option.splits)
next
  case False
  then show ?thesis
    using assms
    by (cases rd)
      (auto simp: tcp_read_req_def read_phase_def tcp_read_headers_def tcp_read_def conn_ok_def idle_def
        running_def in_bounds_def Let_def)
qed

theorem tcp_read_req_safe_witness:
  "\<exists>x. tcp_read_req (\<lambda>_. - 1) sample_conn (Data sample_bytes) = Some x
    \<and> in_bounds TCP_BUF_SIZE (c_req (rr_conn x))"
  using tcp_read_req_safe [OF sample_conn_ok sample_read_ok, of sample_bytes "\<lambda>_. - 1"]
  by (auto simp: sample_bytes_def)

section \<open>Framing\<close>

text \<open>
  The shape of a request on the wire.  A line that sets the length is the name, in full or in its
  short form, possibly after white space, then a colon and digits, with white space between.
\<close>

definition ws :: "string \<Rightarrow> bool" where
  "ws w \<longleftrightarrow> set w \<subseteq> {CHR '' '', TAB}"

fun matches :: "(char \<times> char) list \<Rightarrow> string \<Rightarrow> bool" where
  "matches [] cs = True"
| "matches (p # ps) [] = False"
| "matches ((u, l) # ps) (c # cs) = ((c = u \<or> c = l) \<and> matches ps cs)"

definition name_tail :: "(char \<times> char) list" where
  "name_tail = zip ''ONTENT-LENGTH'' ''ontent_length''"

definition colon_next :: "string \<Rightarrow> bool" where
  "colon_next cs = (case dropWhile (\<lambda>c. c \<in> {CHR '' '', TAB}) cs of c # _ \<Rightarrow> c = CHR '':'' | [] \<Rightarrow> False)"

fun names_length :: "string \<Rightarrow> bool" where
  "names_length [] = False"
| "names_length (c # cs) =
     (if c \<in> {CHR '' '', TAB} then names_length cs
      else if c \<in> {CHR ''C'', CHR ''c''} then matches name_tail cs \<and> colon_next (drop 13 cs)
      else if c \<in> {CHR ''l'', CHR ''L''} then colon_next cs
      else False)"

definition plain_line :: "string \<Rightarrow> bool" where
  "plain_line l \<longleftrightarrow> l \<noteq> [] \<and> l \<noteq> [CR] \<and> LF \<notin> set l"

abbreviation at :: "tcp_req_states \<Rightarrow> tcp_req \<Rightarrow> tcp_req" where
  "at s r \<equiv> r\<lparr>r_state := s\<rparr>"

lemma run_Cons: "run (c # cs) s = run cs (byte_step c s)"
  by simp

lemma byte_skip: "running r \<Longrightarrow> r_state r = H_SKIP \<Longrightarrow> LF \<notin> set cs \<Longrightarrow> run (cs @ [LF]) (r, p) = (at H_LF r, p + length cs + 1)"
  by (simp add: run_skip byte_step_def)

lemma running_at [simp]: "running (at s r) = running r"
  by (simp add: running_def)

lemma at_id: "r_state r = s \<Longrightarrow> at s r = r"
  by (cases r) simp

lemma byte_default:
  assumes "running r" and "LF \<notin> set (c # cs)" and "byte_step c (r, p) = (at H_SKIP r, p + 1)"
  shows "run ((c # cs) @ [LF]) (r, p) = (at H_LF r, p + length (c # cs) + 1)"
  using assms byte_skip [of "at H_SKIP r" cs "p + 1"] by simp

lemma run_colon:
  assumes "running r" and "r_state r = H_L_COLON" and "LF \<notin> set cs" and "\<not> colon_next cs"
  shows "run (cs @ [LF]) (r, p) = (at H_LF r, p + length cs + 1)"
  using assms
proof (induction cs arbitrary: p)
  case Nil
  then show ?case
    by (simp add: byte_step_def char_step_def crlf_default_skip_def LF_def TAB_def)
next
  case (Cons c cs)
  show ?case
  proof (cases "c \<in> {CHR '' '', TAB}")
    case True
    then have "byte_step c (r, p) = (r, p + 1)"
      using Cons.prems by (simp add: byte_step_def char_step_def)
    then show ?thesis
      using True Cons by (simp add: colon_next_def)
  next
    case False
    then have "byte_step c (r, p) = (at H_SKIP r, p + 1)"
      using Cons.prems by (auto simp: byte_step_def char_step_def crlf_default_skip_def colon_next_def)
    then show ?thesis
      using byte_default [of r c cs p] Cons.prems by simp
  qed
qed

text \<open>The states that spell the name, along the table.\<close>

fun path :: "tcp_req_states \<Rightarrow> (char \<times> char) list \<Rightarrow> bool" where
  "path s [] = (s = H_L_COLON)"
| "path s ((u, l) # ps) =
     (case change_state_case s of Some (u', l', s') \<Rightarrow> u' = u \<and> l' = l \<and> path s' ps | None \<Rightarrow> False)"

lemma path_name_tail: "path H_CONT_LEN1 name_tail"
  by (simp add: name_tail_def)

lemma length_name_tail: "length name_tail = 13"
  by (simp add: name_tail_def)

lemma byte_step_table:
  assumes "running r" and "change_state_case (r_state r) = Some (u, l, s')"
  shows "byte_step c (r, p) =
    (if c = u \<or> c = l then at s' r else at (crlf_default_skip c) r, p + 1)"
proof -
  have "r_state r \<noteq> H_BODY" and "r_state r \<noteq> H_SKIP"
    using assms (2) by auto
  moreover have "char_step r p c = (case change_state_case (r_state r) of
      Some (upper, lower, newstate) \<Rightarrow>
        if c = upper \<or> c = lower then (at newstate r, False) else (at (crlf_default_skip c) r, False)
    | None \<Rightarrow> (r, False))"
    using assms (2) by (cases "r_state r"; simp only: change_state_case.simps option.simps; simp add: char_step_def)
  ultimately show ?thesis
    using assms by (simp add: byte_step_char)
qed

lemma change_state_case_LF: "change_state_case s = Some (u, l, s') \<Longrightarrow> u \<noteq> LF \<and> l \<noteq> LF"
  by (cases s) (auto simp: LF_def)

lemma run_name:
  assumes "running r" and "path (r_state r) ps" and "matches ps cs"
  shows "run cs (r, p) = run (drop (length ps) cs) (at H_L_COLON r, p + length ps)"
  using assms
proof (induction ps arbitrary: cs r p)
  case (Cons u ps)
  obtain a b where u: "u = (a, b)"
    by (cases u)
  obtain c cs' where cs: "cs = c # cs'"
    using Cons.prems u by (cases cs) simp_all
  obtain s' where t: "change_state_case (r_state r) = Some (a, b, s')" and "path s' ps"
    using Cons.prems u by (auto split: option.splits)
  then show ?case
    using Cons.prems Cons.IH [of "at s' r" cs' "p + 1"] u cs byte_step_table [OF Cons.prems (1) t, of c p]
    by simp
qed (simp add: at_id)

lemma run_no_name:
  assumes "running r" and "path (r_state r) ps" and "\<not> (matches ps cs \<and> colon_next (drop (length ps) cs))"
    and "LF \<notin> set cs"
  shows "run (cs @ [LF]) (r, p) = (at H_LF r, p + length cs + 1)"
  using assms
proof (induction ps arbitrary: cs r p)
  case Nil
  then show ?case
    using run_colon by simp
next
  case (Cons u ps)
  obtain a b where u: "u = (a, b)"
    by (cases u)
  obtain s' where t: "change_state_case (r_state r) = Some (a, b, s')" and s': "path s' ps"
    using Cons.prems u by (auto split: option.splits)
  note step = byte_step_table [OF Cons.prems (1) t]
  have LF: "a \<noteq> LF" "b \<noteq> LF"
    using change_state_case_LF [OF t] by simp_all
  show ?case
  proof (cases cs)
    case Nil
    then show ?thesis
      using step [of LF p] LF by (simp add: crlf_default_skip_def)
  next
    case cs: (Cons c cs')
    show ?thesis
    proof (cases "c = a \<or> c = b")
      case True
      then show ?thesis
        using Cons.prems Cons.IH [of "at s' r" cs' "p + 1"] u cs step [of c p] s' by simp
    next
      case False
      then show ?thesis
        using byte_default [of r c cs' p] Cons.prems (1,4) step [of c p] cs
        by (auto simp: crlf_default_skip_def)
    qed
  qed
qed

text \<open>How a line begins, and lines that do not name the length.\<close>

lemma line_begin_step:
  assumes "running r" and "r_state r = H_STARTWS \<or> r_state r = H_LF \<and> c \<noteq> CR" and "c \<noteq> LF"
  shows "byte_step c (r, p) = (at (case content_len_beg r c of Some s \<Rightarrow> s | None \<Rightarrow> H_SKIP) r, p + 1)"
  using assms
  by (auto simp: byte_step_def char_step_def crlf_default_skip_def split: option.split)

lemma beg_unnamed:
  assumes "running r" and "LF \<notin> set (c # cs)" and "\<not> has_content_len r" and "\<not> names_length (c # cs)"
    and "byte_step c (r, p) = (at (case content_len_beg r c of Some s \<Rightarrow> s | None \<Rightarrow> H_SKIP) r, p + 1)"
    and "\<And>q. run (cs @ [LF]) (at H_STARTWS r, q) = (at H_LF r, q + length cs + 1) \<or> c \<notin> {CHR '' '', TAB}"
  shows "run ((c # cs) @ [LF]) (r, p) = (at H_LF r, p + length (c # cs) + 1)"
proof -
  consider "c \<in> {CHR '' '', TAB}" | "c \<in> {CHR ''C'', CHR ''c''}" | "c \<in> {CHR ''l'', CHR ''L''}"
    | "c \<notin> {CHR '' '', TAB, CHR ''C'', CHR ''c'', CHR ''l'', CHR ''L''}"
    by blast
  then show ?thesis
  proof cases
    case 1
    then have "content_len_beg r c = Some H_STARTWS"
      using assms (3) by (simp add: content_len_beg_def)
    then show ?thesis
      using 1 assms (5) assms (6) [of "p + 1"] by simp
  next
    case 2
    then have "content_len_beg r c = Some H_CONT_LEN1"
      using assms (3) by (auto simp: content_len_beg_def TAB_def)
    moreover have "\<not> (matches name_tail cs \<and> colon_next (drop (length name_tail) cs))"
      using assms (4) 2 by (auto simp: length_name_tail TAB_def)
    ultimately show ?thesis
      using assms (1,2,5) run_no_name [of "at H_CONT_LEN1 r" name_tail cs "p + 1"] path_name_tail
      by simp
  next
    case 3
    then have "content_len_beg r c = Some H_L_COLON" and "\<not> colon_next cs"
      using assms (3,4) by (auto simp: content_len_beg_def TAB_def)
    then show ?thesis
      using assms (1,2,5) run_colon [of "at H_L_COLON r" cs "p + 1"] by simp
  next
    case 4
    then show ?thesis
      using byte_default [OF assms (1,2)] assms (5) by (simp add: content_len_beg_def)
  qed
qed

lemma run_startws:
  assumes "running r" and "r_state r = H_STARTWS" and "LF \<notin> set cs" and "\<not> has_content_len r"
    and "\<not> names_length cs"
  shows "run (cs @ [LF]) (r, p) = (at H_LF r, p + length cs + 1)"
  using assms (3,5)
proof (induction cs arbitrary: p)
  case Nil
  then show ?case
    using assms (1,2) by (simp add: byte_step_def char_step_def content_len_beg_def crlf_default_skip_def LF_def TAB_def)
next
  case (Cons c cs)
  have "byte_step c (r, p) = (at (case content_len_beg r c of Some s \<Rightarrow> s | None \<Rightarrow> H_SKIP) r, p + 1)"
    using line_begin_step [of r c p] assms (1,2) Cons.prems (1) by auto
  moreover have "run (cs @ [LF]) (at H_STARTWS r, q) = (at H_LF r, q + length cs + 1) \<or> c \<notin> {CHR '' '', TAB}" for q
    using Cons assms (2) by (auto simp: at_id)
  ultimately show ?case
    using beg_unnamed [OF assms (1) Cons.prems (1) assms (4) Cons.prems (2)] by blast
qed

lemma run_line_CR:
  assumes "running r" and "r_state r = H_LF" and "plain_line (CR # cs)"
  shows "run ((CR # cs) @ [LF]) (r, p) = (at H_LF r, p + length (CR # cs) + 1)"
proof -
  obtain d ds where cs: "cs = d # ds"
    using assms (3) by (cases cs) (simp_all add: plain_line_def)
  have "d \<noteq> LF" "LF \<notin> set ds"
    using assms (3) cs by (auto simp: plain_line_def)
  then show ?thesis
    using assms (1,2) cs byte_skip [of "at H_SKIP r" ds "p + 2"]
    by (simp add: byte_step_def char_step_def CR_def LF_def running_def)
qed

text \<open>Lines that do not name the length, or come after it, leave the request as it is.\<close>

lemma run_line:
  assumes "running r" and "r_state r = H_LF" and "plain_line l" and "has_content_len r \<or> \<not> names_length l"
  shows "run (l @ [LF]) (r, p) = (r, p + length l + 1)"
proof -
  obtain c cs where l: "l = c # cs" and n: "LF \<notin> set (c # cs)"
    using assms (3) by (cases l) (simp_all add: plain_line_def)
  have "run (l @ [LF]) (r, p) = (at H_LF r, p + length l + 1)"
  proof (cases "c = CR")
    case True
    then show ?thesis
      using run_line_CR assms l by simp
  next
    case False
    then have step: "byte_step c (r, p) = (at (case content_len_beg r c of Some s \<Rightarrow> s | None \<Rightarrow> H_SKIP) r, p + 1)"
      using line_begin_step [of r c p] assms (1,2) n by auto
    show ?thesis
    proof (cases "has_content_len r")
      case True
      then show ?thesis
        using byte_default [OF assms (1) n] step l by (auto simp: content_len_beg_def split: if_splits)
    next
      case False
      have "run (cs @ [LF]) (at H_STARTWS r, q) = (at H_LF r, q + length cs + 1) \<or> c \<notin> {CHR '' '', TAB}" for q
        using run_startws [of "at H_STARTWS r" cs q] assms (1,4) False l n by auto
      then show ?thesis
        using beg_unnamed [OF assms (1) n False _ step] assms (4) False l by blast
    qed
  qed
  then show ?thesis
    using at_id [OF assms (2)] by simp
qed

lemma run_lines:
  assumes "running r" and "r_state r = H_LF" and "\<forall>l \<in> set ls. plain_line l \<and> (has_content_len r \<or> \<not> names_length l)"
  shows "run (concat (map (\<lambda>l. l @ [LF]) ls)) (r, p) = (r, p + length (concat (map (\<lambda>l. l @ [LF]) ls)))"
  using assms (3)
proof (induction ls arbitrary: p)
  case (Cons l ls)
  have "run (concat (map (\<lambda>l. l @ [LF]) (l # ls))) (r, p)
      = run (concat (map (\<lambda>l. l @ [LF]) ls)) (run (l @ [LF]) (r, p))"
    by simp
  also have "run (l @ [LF]) (r, p) = (r, p + length l + 1)"
    using run_line [OF assms (1,2), of l p] Cons.prems by simp
  finally show ?case
    using Cons by simp
qed simp

definition length_name :: "string \<Rightarrow> bool" where
  "length_name n \<longleftrightarrow>
     (case n of [] \<Rightarrow> False
      | c # cs \<Rightarrow> (c \<in> {CHR ''l'', CHR ''L''} \<and> cs = [])
          \<or> (c \<in> {CHR ''C'', CHR ''c''} \<and> length cs = 13 \<and> matches name_tail cs))"

lemma run_ws_stay:
  assumes "\<And>c q. c \<in> {CHR '' '', TAB} \<Longrightarrow> byte_step c (r, q) = (r, q + 1)" and "ws w"
  shows "run w (r, p) = (r, p + length w)"
  using assms (2)
proof (induction w arbitrary: p)
  case (Cons c w)
  then show ?case
    using assms (1) [of c p] by (simp add: ws_def)
qed simp

lemma run_leading_ws:
  assumes "running r" and "r_state r = H_LF" and "\<not> has_content_len r" and "ws w"
  shows "\<exists>s \<in> {H_LF, H_STARTWS}. run w (r, p) = (at s r, p + length w)"
proof (cases w)
  case Nil
  then show ?thesis
    using assms (2) by (simp add: at_id)
next
  case (Cons c w')
  have c: "c \<in> {CHR '' '', TAB}" and w': "ws w'"
    using assms (4) Cons by (simp_all add: ws_def)
  have "byte_step d (at H_STARTWS r, q) = (at H_STARTWS r, q + 1)" if "d \<in> {CHR '' '', TAB}" for d q
  proof -
    have "d \<noteq> LF" using that by (auto simp: LF_def TAB_def)
    then show ?thesis
      using that assms (1,3) line_begin_step [of "at H_STARTWS r" d q] by (simp add: content_len_beg_def)
  qed
  then have "run w' (at H_STARTWS r, p + 1) = (at H_STARTWS r, p + 1 + length w')"
    using run_ws_stay [of "at H_STARTWS r" w'] w' by blast
  moreover have "c \<noteq> LF" "c \<noteq> CR" using c by (auto simp: LF_def TAB_def CR_def)
  ultimately show ?thesis
    using Cons c assms line_begin_step [of r c p] by (simp add: content_len_beg_def)
qed

lemma run_length_name:
  assumes "running r" and "r_state r \<in> {H_LF, H_STARTWS}" and "\<not> has_content_len r" and "length_name n"
  shows "run n (r, p) = (at H_L_COLON r, p + length n)"
proof -
  obtain c cs where n: "n = c # cs"
    using assms (4) by (cases n) (simp_all add: length_name_def)
  have c: "c \<in> {CHR ''l'', CHR ''L'', CHR ''C'', CHR ''c''}"
    using assms (4) n by (auto simp: length_name_def)
  then have "c \<noteq> LF" "c \<noteq> CR"
    by (auto simp: LF_def CR_def)
  then have step: "byte_step c (r, p) = (at (case content_len_beg r c of Some s \<Rightarrow> s | None \<Rightarrow> H_SKIP) r, p + 1)"
    using line_begin_step [of r c p] assms (1,2) by auto
  show ?thesis
  proof (cases "c \<in> {CHR ''C'', CHR ''c''}")
    case True
    then have "content_len_beg r c = Some H_CONT_LEN1" and "length cs = 13" and "matches name_tail cs"
      using assms (3,4) n by (auto simp: content_len_beg_def TAB_def length_name_def)
    then show ?thesis
      using step n assms (1) path_name_tail run_name [of "at H_CONT_LEN1 r" name_tail cs "p + 1"]
      by (simp add: length_name_tail)
  next
    case False
    then have "content_len_beg r c = Some H_L_COLON" and "cs = []"
      using assms (3,4) n c by (auto simp: content_len_beg_def TAB_def length_name_def)
    then show ?thesis
      using step n by simp
  qed
qed

lemma run_digits:
  assumes "running r" and "r_state r = H_CONT_LEN_BODY_PARSE" and "content_len r = of_nat v" and "list_all is_digit ds"
  shows "run ds (r, p) = (r\<lparr>content_len := of_nat (dec_acc v ds)\<rparr>, p + length ds)"
  using assms
proof (induction ds arbitrary: r v p)
  case (Cons d ds)
  have "byte_step d (r, p) = (r\<lparr>content_len := of_nat (v * 10 + digit_val d)\<rparr>, p + 1)"
    using Cons.prems by (simp add: byte_step_def char_step_def)
  then show ?case
    using Cons.prems Cons.IH [of "r\<lparr>content_len := of_nat (v * 10 + digit_val d)\<rparr>" "v * 10 + digit_val d" "p + 1"]
    by (simp add: running_def)
qed (simp add: at_id)

lemma digit_not_ws: "is_digit c \<Longrightarrow> c \<notin> {CHR '' '', TAB, LF, CR, CHR '':''}"
  by (auto simp: is_digit_def TAB_def LF_def CR_def char_simps)

lemma run_value:
  assumes "running r" and "r_state r = H_CONT_LEN_BODY" and "list_all is_digit ds" and "ds \<noteq> []"
  shows "run ds (r, p) = (r\<lparr>r_state := H_CONT_LEN_BODY_PARSE, content_len := of_nat (dec_value ds)\<rparr>, p + length ds)"
proof -
  obtain d ds' where ds: "ds = d # ds'"
    using assms (4) by (cases ds) simp_all
  have "byte_step d (r, p) =
      (r\<lparr>r_state := H_CONT_LEN_BODY_PARSE, content_len := of_nat (digit_val d)\<rparr>, p + 1)"
    using assms ds digit_not_ws [of d] by (simp add: byte_step_def char_step_def)
  then show ?thesis
    using assms ds run_digits [of "r\<lparr>r_state := H_CONT_LEN_BODY_PARSE, content_len := of_nat (digit_val d)\<rparr>" "digit_val d" ds' "p + 1"]
    by (simp add: running_def dec_value_def)
qed

definition line_tail :: "string \<Rightarrow> bool" where
  "line_tail t \<longleftrightarrow> LF \<notin> set t \<and> (t \<noteq> [] \<longrightarrow> hd t \<in> {CR, CHR '' '', TAB})"

lemma run_tail:
  assumes "running r" and "r_state r = H_CONT_LEN_BODY_PARSE" and "line_tail t"
  shows "run (t @ [LF]) (r, p) = (r\<lparr>r_state := H_LF, has_content_len := True\<rparr>, p + length t + 1)"
proof (cases t)
  case Nil
  have "\<not> is_digit LF" "LF \<notin> {CR, CHR '' '', TAB}"
    using digit_not_ws [of LF] by (auto simp: LF_def CR_def TAB_def)
  then show ?thesis
    using Nil assms by (simp add: byte_step_def char_step_def)
next
  case (Cons c t')
  have c: "c \<in> {CR, CHR '' '', TAB}" and t': "LF \<notin> set t'"
    using assms (3) Cons by (simp_all add: line_tail_def)
  have "byte_step c (r, p) = (r\<lparr>r_state := H_SKIP, has_content_len := True\<rparr>, p + 1)"
    using c digit_not_ws [of c] assms (1,2) by (auto simp: byte_step_def char_step_def)
  then show ?thesis
    using Cons t' assms (1) byte_skip [of "r\<lparr>r_state := H_SKIP, has_content_len := True\<rparr>" t' "p + 1"]
    by (simp add: running_def)
qed

lemma run_length_line:
  assumes "running r" and "r_state r = H_LF" and "\<not> has_content_len r"
    and "ws w0" and "length_name n" and "ws w1" and "ws w2"
    and "list_all is_digit ds" and "ds \<noteq> []" and "line_tail t"
  shows "run (w0 @ n @ w1 @ '':'' @ w2 @ ds @ t @ [LF]) (r, p) =
    (r\<lparr>has_content_len := True, content_len := of_nat (dec_value ds)\<rparr>,
     p + length (w0 @ n @ w1 @ '':'' @ w2 @ ds @ t @ [LF]))"
proof -
  obtain s where s: "s \<in> {H_LF, H_STARTWS}" and 1: "run w0 (r, p) = (at s r, p + length w0)"
    using run_leading_ws [OF assms (1-4)] by blast
  have 2: "run n (at s r, q) = (at H_L_COLON r, q + length n)" for q
    using run_length_name [of "at s r" n q] s assms by simp
  have 3: "run w1 (at H_L_COLON r, q) = (at H_L_COLON r, q + length w1)" for q
    using assms (1) by (intro run_ws_stay assms (6)) (simp add: byte_step_def char_step_def)
  have 4: "run '':'' (at H_L_COLON r, q) = (at H_CONT_LEN_BODY r, q + 1)" for q
    using assms (1) by (simp add: byte_step_def char_step_def TAB_def)
  have 5: "run w2 (at H_CONT_LEN_BODY r, q) = (at H_CONT_LEN_BODY r, q + length w2)" for q
    using assms (1) by (intro run_ws_stay assms (7)) (simp add: byte_step_def char_step_def)
  have 6: "run ds (at H_CONT_LEN_BODY r, q)
      = (r\<lparr>r_state := H_CONT_LEN_BODY_PARSE, content_len := of_nat (dec_value ds)\<rparr>, q + length ds)" for q
    using run_value [of "at H_CONT_LEN_BODY r" ds q] assms by simp
  have 7: "run (t @ [LF]) (r\<lparr>r_state := H_CONT_LEN_BODY_PARSE, content_len := of_nat (dec_value ds)\<rparr>, q)
      = (r\<lparr>has_content_len := True, content_len := of_nat (dec_value ds)\<rparr>, q + length t + 1)" for q
    using run_tail [of "r\<lparr>r_state := H_CONT_LEN_BODY_PARSE, content_len := of_nat (dec_value ds)\<rparr>" t q]
      assms (1,2,10) by (cases r) (simp add: running_def)
  show ?thesis
    using 7 [of "p + length w0 + length n + length w1 + 1 + length w2 + length ds"]
    by (simp only: fold_append comp_apply 1 2 3 4 5 6) (simp add: 7 add.assoc)
qed

text \<open>
  A request as a peer may send it: empty lines, the first line, other headers, the header with the
  length, more headers (which may name the length again), the empty line and the body.
\<close>

record wire_req =
  w_empty :: string
  w_first :: string
  w_before :: "string list"
  w_indent :: string
  w_name :: string
  w_gap1 :: string
  w_gap2 :: string
  w_digits :: string
  w_tail :: string
  w_after :: "string list"
  w_body :: string

definition lines :: "string list \<Rightarrow> string" where
  "lines ls = concat (map (\<lambda>l. l @ [LF]) ls)"

definition length_line :: "wire_req \<Rightarrow> string" where
  "length_line w = w_indent w @ w_name w @ w_gap1 w @ '':'' @ w_gap2 w @ w_digits w @ w_tail w @ [LF]"

definition payload :: "wire_req \<Rightarrow> string" where
  "payload w = w_first w @ [LF] @ lines (w_before w) @ length_line w @ lines (w_after w) @ [CR, LF] @ w_body w"

definition wire_ok :: "wire_req \<Rightarrow> bool" where
  "wire_ok w \<longleftrightarrow>
     set (w_empty w) \<subseteq> {LF, CR, CHR '' '', TAB}
     \<and> plain_line (w_first w) \<and> hd (w_first w) \<notin> {CR, CHR '' '', TAB} \<and> \<not> names_length (w_first w)
     \<and> list_all (\<lambda>l. plain_line l \<and> \<not> names_length l) (w_before w)
     \<and> ws (w_indent w) \<and> length_name (w_name w) \<and> ws (w_gap1 w) \<and> ws (w_gap2 w)
     \<and> list_all is_digit (w_digits w) \<and> w_digits w \<noteq> [] \<and> line_tail (w_tail w)
     \<and> list_all plain_line (w_after w)
     \<and> length (w_body w) = dec_value (w_digits w) mod 2 ^ 32"

lemma run_empty:
  assumes "running r" and "r_state r = H_SKIP_EMPTY" and "set es \<subseteq> {LF, CR, CHR '' '', TAB}"
  shows "run es (r, p) = (r, p + length es)"
  using assms (3)
proof (induction es arbitrary: p)
  case (Cons c es)
  then have "byte_step c (r, p) = (r, p + 1)"
    using assms (1,2) by (simp add: byte_step_def char_step_def)
  then show ?case
    using Cons by simp
qed simp

lemma run_first:
  assumes "running r" and "r_state r = H_SKIP_EMPTY" and "\<not> has_content_len r"
    and "plain_line l" and "hd l \<notin> {CR, CHR '' '', TAB}" and "\<not> names_length l"
  shows "run (l @ [LF]) (r, p) = (r\<lparr>r_state := H_LF, r_start := p\<rparr>, p + length l + 1)"
proof -
  obtain c cs where l: "l = c # cs"
    using assms (4) by (cases l) (simp_all add: plain_line_def)
  have c: "c \<notin> {LF, CR, CHR '' '', TAB}"
    using assms (4,5) l by (auto simp: plain_line_def)
  let ?r = "r\<lparr>r_state := H_LF, r_start := p\<rparr>"
  have "running ?r"
    using assms (1) by (simp add: running_def)
  then have "byte_step c (?r, p) = (at (case content_len_beg ?r c of Some s \<Rightarrow> s | None \<Rightarrow> H_SKIP) ?r, p + 1)"
    using line_begin_step [of ?r c p] c by simp
  moreover have "byte_step c (r, p) = \<dots>"
    using c assms (1-3) by (simp add: byte_step_def char_step_def content_len_beg_def)
  ultimately have "run (l @ [LF]) (r, p) = run (l @ [LF]) (?r, p)"
    by (simp add: l)
  also have "\<dots> = (?r, p + length l + 1)"
    using run_line [of ?r l p] \<open>running ?r\<close> assms (4,6) by simp
  finally show ?thesis .
qed

lemma run_end_of_headers:
  assumes "running r" and "r_state r = H_LF" and "has_content_len r"
  shows "run [CR, LF] (r, p) =
    (r\<lparr>r_state := H_BODY, r_body := Some (p + 2), bytes_to_go := content_len r,
       complete := (content_len r = 0)\<rparr>, p + 2)"
  using assms
  by (cases r) (simp add: byte_step_def char_step_def end_of_headers_def Let_def running_def CR_def LF_def)

lemma run_end:
  assumes "running r" and "r_state r = H_LF" and "has_content_len r" and "length b = unat (content_len r)"
  shows "run ([CR, LF] @ b) (r, p) =
    (r\<lparr>r_state := H_BODY, r_body := Some (p + 2), bytes_to_go := 0, complete := True\<rparr>, p + 2 + length b)"
proof (cases "b = []")
  case True
  then have "content_len r = 0"
    using assms (4) by (simp add: word_unat_eq_iff)
  then show ?thesis
    using True run_end_of_headers [OF assms (1-3)] by simp
next
  case False
  then have "content_len r \<noteq> 0"
    using assms (4) by auto
  have "run ([CR, LF] @ b) (r, p) = run b (run [CR, LF] (r, p))"
    by simp
  with \<open>content_len r \<noteq> 0\<close> show ?thesis
    using run_end_of_headers [OF assms (1-3), of p] False assms
      run_body_end [of "r\<lparr>r_state := H_BODY, r_body := Some (p + 2), bytes_to_go := content_len r, complete := False\<rparr>" b "p + 2"]
    by (simp add: running_def del: fold.simps)
qed

lemma run_wire:
  assumes "wire_ok w"
  shows "\<exists>R. run (w_empty w @ payload w) (init_tcp_req, 0) = (R, length (w_empty w @ payload w))
    \<and> complete R \<and> r_error R = TCP_REQ_OK \<and> r_start R = length (w_empty w)"
proof -
  let ?r0 = init_tcp_req and ?p0 = "length (w_empty w)"
  have i: "running ?r0" "r_state ?r0 = H_SKIP_EMPTY" "\<not> has_content_len ?r0"
    by (simp_all add: init_tcp_req_def running_def)
  let ?r1 = "?r0\<lparr>r_state := H_LF, r_start := ?p0\<rparr>"
  have r1: "running ?r1" "r_state ?r1 = H_LF" "\<not> has_content_len ?r1"
    using i by (simp_all add: running_def)
  let ?r2 = "?r1\<lparr>has_content_len := True, content_len := of_nat (dec_value (w_digits w))\<rparr>"
  have r2: "running ?r2" "r_state ?r2 = H_LF" "has_content_len ?r2"
    using i by (simp_all add: running_def)
  have 1: "run (w_empty w) (?r0, 0) = (?r0, ?p0)"
    using run_empty [OF i (1,2)] assms by (simp add: wire_ok_def)
  have 2: "run (w_first w @ [LF]) (?r0, ?p0) = (?r1, ?p0 + length (w_first w @ [LF]))"
    using run_first [OF i] assms by (simp add: wire_ok_def)
  have 3: "run (lines (w_before w)) (?r1, q) = (?r1, q + length (lines (w_before w)))" for q
    using run_lines [OF r1 (1,2), of "w_before w" q] assms by (simp add: wire_ok_def lines_def list_all_iff)
  have 4: "run (length_line w) (?r1, q) = (?r2, q + length (length_line w))" for q
    unfolding length_line_def by (rule run_length_line [OF r1]) (use assms in \<open>simp_all add: wire_ok_def\<close>)
  have 5: "run (lines (w_after w)) (?r2, q) = (?r2, q + length (lines (w_after w)))" for q
    using run_lines [OF r2 (1,2), of "w_after w" q] assms by (simp add: wire_ok_def lines_def list_all_iff)
  have "length (w_body w) = unat (content_len ?r2)"
    using assms by (simp add: wire_ok_def unat_of_nat)
  note 6 = run_end [OF r2 this]
  define F E where "F = w_first w @ [LF]" and "E = [CR, LF] @ w_body w"
  have whole: "w_empty w @ payload w = w_empty w @ F @ lines (w_before w) @ length_line w @ lines (w_after w) @ E"
    by (simp add: payload_def F_def E_def)
  show ?thesis
    unfolding whole fold_append comp_apply 1 2 [folded F_def] 3 4 5 6 [folded E_def]
    by (simp add: init_tcp_req_def E_def)
qed

text \<open>The byte machine consumes a whole request and hands it on.\<close>

lemma feed_wire:
  assumes "wire_ok w" and "0 \<le> recv (payload w)"
  shows "feed recv (w_empty w @ payload w) (init_tcp_req, ms, False) = (init_tcp_req, ms @ [payload w], False)"
proof -
  let ?xs = "w_empty w @ payload w"
  obtain R where R: "run ?xs (init_tcp_req, 0) = (R, length ?xs)" "complete R" "r_error R = TCP_REQ_OK"
      "r_start R = length (w_empty w)"
    using run_wire [OF assms (1)] by blast
  have i: "running init_tcp_req" and p: "r_parsed init_tcp_req = 0" "r_buf init_tcp_req = []"
    by (simp_all add: init_tcp_req_def running_def)
  from i show ?thesis
  proof (cases rule: run_cases [where xs = ?xs and p = 0])
    case more
    then show ?thesis
      using R by (simp add: running_def)
  next
    case (stop ys c zs)
    have "byte_step c (run ys (init_tcp_req, 0)) = (R, length ?xs)"
      using stop (5) R (1) by simp
    then have "length ?xs = length ys + 1"
      using byte_step_pos [OF stop (2), of c] stop (3) by simp
    then have zs: "zs = []" and l: "length ys + 1 = length (ys @ [c])"
      using stop (1) by simp_all
    have "feed recv ?xs (init_tcp_req, ms, False) = close_req recv ms (set_buf ?xs (length ?xs) R)"
      using feed_stop [of init_tcp_req ys c recv ms] stop zs i p \<open>byte_step c _ = _\<close> by simp
    also have "\<dots> = (init_tcp_req, ms @ [payload w], False)"
      using R assms (2)
      by (simp add: close_req_def request_bytes_def next_req_def init_tcp_req_def Let_def)
    finally show ?thesis .
  qed
qed

definition wire :: "wire_req list \<Rightarrow> string" where
  "wire reqs = concat (map (\<lambda>w. w_empty w @ payload w) reqs)"

lemma feed_wires:
  assumes "list_all (\<lambda>w. wire_ok w \<and> 0 \<le> recv (payload w)) reqs"
  shows "feed recv (wire reqs) (init_tcp_req, ms, False) = (init_tcp_req, ms @ map payload reqs, False)"
  using assms
proof (induction reqs arbitrary: ms)
  case (Cons w reqs)
  then have "feed recv (w_empty w @ payload w) (init_tcp_req, ms, False) = (init_tcp_req, ms @ [payload w], False)"
    using feed_wire [of w recv ms] by simp
  with Cons show ?case
    by (simp add: wire_def)
qed (simp add: wire_def)

text \<open>
  C12. Every sequence of well-formed requests that fits the buffer is handed to
  \<open>receive_msg\<close> exactly: one call per request, in order, without the empty lines before it and
  with its whole body; the connection is then as new.  The length may be announced by any
  spelling of the name; of several announcements the first one counts, and it counts modulo
  $2^{32}$.
\<close>

theorem requests_delivered:
  assumes "list_all (\<lambda>w. wire_ok w \<and> 0 \<le> recv (payload w)) reqs" and "reqs \<noteq> []"
    and "length (wire reqs) \<le> TCP_BUF_SIZE" and "c_req con = init_tcp_req" and "c_state con \<noteq> S_CONN_EOF"
  shows "tcp_read_req recv con (Data (wire reqs)) =
    Some \<lparr>rr_resp = CONN_RELEASE, rr_bytes = int (length (wire reqs)), rr_msgs = map payload reqs, rr_conn = con\<rparr>"
proof -
  have "conn_ok con" "read_ok con (Data (wire reqs))"
    using assms (3-5) by (simp_all add: conn_ok_def read_ok_def idle_def running_def scan_ok_def init_tcp_req_def)
  moreover have "wire reqs \<noteq> []"
    using assms (2) by (cases reqs) (simp_all add: wire_def payload_def)
  ultimately have "drained (length (r_buf (c_req con) @ wire reqs)) con (int (length (wire reqs)))
      (feed recv (wire reqs) (c_req con, [], False)) (tcp_read_req recv con (Data (wire reqs)))"
    by (rule tcp_read_req_drained)
  then show ?thesis
    using feed_wires [OF assms (1), of "[]"] assms (4)
    by (auto simp: drained_def split: option.splits)
qed

definition sample_wire :: wire_req where
  "sample_wire = \<lparr>w_empty = [CR, LF], w_first = ''INVITE sip:a'' @ [CR],
     w_before = [''Call-ID: 1'' @ [CR], ''Contact: c'' @ [CR]], w_indent = '' '',
     w_name = ''cOnTent_Length'', w_gap1 = '' '', w_gap2 = [], w_digits = ''4294967298'', w_tail = [CR],
     w_after = [''l: 99'' @ [CR]], w_body = ''xy''\<rparr>"

theorem requests_delivered_witness:
  "tcp_read_req (\<lambda>_. 0) sample_conn (Data (wire [sample_wire, sample_wire])) =
    Some \<lparr>rr_resp = CONN_RELEASE, rr_bytes = int (length (wire [sample_wire, sample_wire])),
      rr_msgs = [payload sample_wire, payload sample_wire], rr_conn = sample_conn\<rparr>"
proof -
  have "length (w_body sample_wire) = dec_value (w_digits sample_wire) mod 2 ^ 32"
    by (simp add: sample_wire_def dec_value_def digit_val_def char_simps)
  moreover have "set (w_empty sample_wire) \<subseteq> {LF, CR, CHR '' '', TAB} \<and> plain_line (w_first sample_wire)
      \<and> hd (w_first sample_wire) \<notin> {CR, CHR '' '', TAB} \<and> \<not> names_length (w_first sample_wire)
      \<and> list_all (\<lambda>l. plain_line l \<and> \<not> names_length l) (w_before sample_wire)
      \<and> list_all plain_line (w_after sample_wire)"
    by code_simp
  moreover have "ws (w_indent sample_wire) \<and> length_name (w_name sample_wire) \<and> ws (w_gap1 sample_wire)
      \<and> ws (w_gap2 sample_wire) \<and> list_all is_digit (w_digits sample_wire) \<and> w_digits sample_wire \<noteq> []
      \<and> line_tail (w_tail sample_wire)"
    by code_simp
  ultimately have "wire_ok sample_wire"
    by (simp add: wire_ok_def)
  moreover have "length (wire [sample_wire, sample_wire]) \<le> 200"
    by (simp add: wire_def payload_def sample_wire_def lines_def length_line_def)
  ultimately show ?thesis
    using requests_delivered [of "\<lambda>_. 0" "[sample_wire, sample_wire]" sample_conn]
    by (simp add: sample_conn_def TCP_BUF_SIZE_def)
qed

text \<open>
  C39. Bytes between requests are never given back: a peer that only sends empty lines, as for
  keeping a connection open, is disconnected with an overrun once \<open>TCP_BUF_SIZE\<close> of them have
  been read, whatever comes next.
\<close>

theorem keepalives_overrun:
  assumes "set es \<subseteq> {LF, CR, CHR '' '', TAB}" and "length es = TCP_BUF_SIZE"
    and "c_req con = init_tcp_req" and "c_state con \<noteq> S_CONN_EOF"
  shows "\<exists>x y. tcp_read_req recv con (Data es) = Some x \<and> rr_resp x = CONN_RELEASE \<and> rr_msgs x = []
    \<and> tcp_read_req recv (rr_conn x) rd = Some y \<and> rr_resp y = CONN_ERROR
    \<and> r_error (c_req (rr_conn y)) = TCP_REQ_OVERRUN"
proof -
  have ok: "conn_ok con" "read_ok con (Data es)" and ne: "es \<noteq> []"
    using assms (2-4)
    by (auto simp: conn_ok_def read_ok_def idle_def running_def scan_ok_def init_tcp_req_def TCP_BUF_SIZE_def)
  let ?r = "set_buf es TCP_BUF_SIZE init_tcp_req"
  have "run es (init_tcp_req, 0) = (init_tcp_req, length es)"
    using run_empty [of init_tcp_req es 0] assms (1) by (simp add: init_tcp_req_def running_def)
  then have "feed recv es (c_req con, [], False) = (?r, [], False)"
    using feed_running [of init_tcp_req es recv "[]"] assms (2,3) by (simp add: init_tcp_req_def running_def)
  then obtain x where x: "tcp_read_req recv con (Data es) = Some x" "rr_resp x = CONN_RELEASE" "rr_msgs x = []"
      "c_req (rr_conn x) = ?r"
    using tcp_read_req_drained [OF ok ne, of recv] by (auto simp: drained_def split: option.splits)
  have "\<exists>y. tcp_read_req recv (rr_conn x) rd = Some y \<and> rr_resp y = CONN_ERROR
      \<and> r_error (c_req (rr_conn y)) = TCP_REQ_OVERRUN"
    using x (4) assms (2)
    by (simp add: tcp_read_req_def read_phase_def tcp_read_headers_def tcp_read_def init_tcp_req_def)
  with x show ?thesis
    by blast
qed

theorem keepalives_overrun_witness:
  "\<exists>x y. tcp_read_req (\<lambda>_. 0) sample_conn (Data (replicate TCP_BUF_SIZE LF)) = Some x \<and> rr_resp x = CONN_RELEASE
    \<and> tcp_read_req (\<lambda>_. 0) (rr_conn x) Would_block = Some y \<and> rr_resp y = CONN_ERROR"
proof -
  have "set (replicate TCP_BUF_SIZE LF) \<subseteq> {LF, CR, CHR '' '', TAB}"
    by (simp add: set_replicate_conv_if)
  then show ?thesis
    using keepalives_overrun [of "replicate TCP_BUF_SIZE LF" sample_conn "\<lambda>_. 0" Would_block]
    by (auto simp: sample_conn_def)
qed

end
