(* ===== verification/DlgTimer.thy ===== *)
theory DlgTimer
  imports Prelude "HOL-Library.Monad_Syntax"
begin

text \<open>
  The timer list of the dialog module (\<open>modules/dialog/dlg_timer.c\<close>): a circular doubly
  linked list, sorted by timeout, through links that are embedded in the dialogs.

  The links live in an explicit store, a partial map from addresses to nodes, with 0 for the null
  pointer.  Every access to an address outside the store is the result \<open>None\<close>: the
  process crashes.  \<open>first\<close> is the address of the list head \<open>d_timer->first\<close>.  Each
  function runs under the timer lock, so the functions are the atomic steps.
\<close>

section \<open>The store\<close>

record dlg_tl =
  tl_next :: nat
  tl_prev :: nat
  tl_timeout :: u32

type_synonym tl_heap = "nat \<rightharpoonup> dlg_tl"

definition set_next :: "tl_heap \<Rightarrow> nat \<Rightarrow> nat \<Rightarrow> tl_heap option" where
  "set_next h p v = (case h p of None \<Rightarrow> None | Some c \<Rightarrow> Some (h(p \<mapsto> c\<lparr>tl_next := v\<rparr>)))"

definition set_prev :: "tl_heap \<Rightarrow> nat \<Rightarrow> nat \<Rightarrow> tl_heap option" where
  "set_prev h p v = (case h p of None \<Rightarrow> None | Some c \<Rightarrow> Some (h(p \<mapsto> c\<lparr>tl_prev := v\<rparr>)))"

definition set_timeout :: "tl_heap \<Rightarrow> nat \<Rightarrow> u32 \<Rightarrow> tl_heap option" where
  "set_timeout h p v = (case h p of None \<Rightarrow> None | Some c \<Rightarrow> Some (h(p \<mapsto> c\<lparr>tl_timeout := v\<rparr>)))"

section \<open>The operations\<close>

text \<open>\<open>init_dlg_timer\<close>: the head of an empty list points to itself.\<close>

definition init_dlg_timer :: "tl_heap \<Rightarrow> nat \<Rightarrow> tl_heap" where
  "init_dlg_timer h first = h(first \<mapsto> \<lparr>tl_next = first, tl_prev = first, tl_timeout = 0\<rparr>)"

text \<open>The search of \<open>insert_dlg_timer_unsafe\<close>, from the end of the list.\<close>

partial_function (option) find_place :: "tl_heap \<Rightarrow> nat \<Rightarrow> u32 \<Rightarrow> nat \<Rightarrow> nat option" where
  "find_place h first timeout ptr =
     (if ptr = first then Some ptr
      else case h ptr of
             None \<Rightarrow> None
           | Some c \<Rightarrow> if tl_timeout c \<le> timeout then Some ptr
                      else find_place h first timeout (tl_prev c))"

definition insert_dlg_timer_unsafe :: "nat \<Rightarrow> tl_heap \<Rightarrow> nat \<Rightarrow> tl_heap option" where
  "insert_dlg_timer_unsafe first h t =
     do { f \<leftarrow> h first;
          c \<leftarrow> h t;
          ptr \<leftarrow> find_place h first (tl_timeout c) (tl_prev f);
          h \<leftarrow> set_prev h t ptr;
          p \<leftarrow> h ptr;
          h \<leftarrow> set_next h t (tl_next p);
          c \<leftarrow> h t;
          h \<leftarrow> set_next h (tl_prev c) t;
          c \<leftarrow> h t;
          set_prev h (tl_next c) t }"

definition insert_dlg_timer :: "nat \<Rightarrow> u32 \<Rightarrow> tl_heap \<Rightarrow> nat \<Rightarrow> u32 \<Rightarrow> (tl_heap \<times> int) option" where
  "insert_dlg_timer first ticks h t interval =
     do { c \<leftarrow> h t;
          if tl_next c \<noteq> 0 \<or> tl_prev c \<noteq> 0 then Some (h, - 1)
          else do { h \<leftarrow> set_timeout h t (ticks + interval);
                    h \<leftarrow> insert_dlg_timer_unsafe first h t;
                    Some (h, 0) } }"

definition remove_dlg_timer_unsafe :: "tl_heap \<Rightarrow> nat \<Rightarrow> tl_heap option" where
  "remove_dlg_timer_unsafe h t =
     do { c \<leftarrow> h t;
          h \<leftarrow> set_next h (tl_prev c) (tl_next c);
          c \<leftarrow> h t;
          set_prev h (tl_next c) (tl_prev c) }"

definition remove_dlg_timer :: "tl_heap \<Rightarrow> nat \<Rightarrow> (tl_heap \<times> int) option" where
  "remove_dlg_timer h t =
     do { c \<leftarrow> h t;
          if tl_prev c = 0 then Some (h, - 1)
          else do { h \<leftarrow> remove_dlg_timer_unsafe h t;
                    h \<leftarrow> set_next h t 0;
                    h \<leftarrow> set_prev h t 0;
                    h \<leftarrow> set_timeout h t 0;
                    Some (h, 0) } }"

definition update_dlg_timer :: "nat \<Rightarrow> u32 \<Rightarrow> tl_heap \<Rightarrow> nat \<Rightarrow> u32 \<Rightarrow> (tl_heap \<times> int) option" where
  "update_dlg_timer first ticks h t timeout =
     do { c \<leftarrow> h t;
          if tl_next c \<noteq> 0 \<and> tl_prev c = 0 then Some (h, - 1)
          else do { h \<leftarrow> (if tl_next c \<noteq> 0 then remove_dlg_timer_unsafe h t else Some h);
                    h \<leftarrow> set_timeout h t (ticks + timeout);
                    h \<leftarrow> insert_dlg_timer_unsafe first h t;
                    Some (h, 0) } }"

text \<open>The loop of \<open>get_expired_dlgs\<close>, which clears the back links of the expired nodes.\<close>

partial_function (option) cut_expired :: "nat \<Rightarrow> u32 \<Rightarrow> tl_heap \<Rightarrow> nat \<Rightarrow> (tl_heap \<times> nat) option" where
  "cut_expired first time h t =
     (if t = first then Some (h, t)
      else case h t of
             None \<Rightarrow> None
           | Some c \<Rightarrow>
               if tl_timeout c \<le> time
               then cut_expired first time (h(t \<mapsto> c\<lparr>tl_prev := 0\<rparr>)) (tl_next c)
               else Some (h, t))"

definition get_expired_dlgs :: "nat \<Rightarrow> tl_heap \<Rightarrow> u32 \<Rightarrow> (tl_heap \<times> nat) option" where
  "get_expired_dlgs first h time =
     do { f \<leftarrow> h first;
          if tl_next f = first then Some (h, 0)
          else do { n \<leftarrow> h (tl_next f);
                    if tl_timeout n > time then Some (h, 0)
                    else do { (h, t) \<leftarrow> cut_expired first time h (tl_next f);
                              f \<leftarrow> h first;
                              n \<leftarrow> h (tl_next f);
                              if t = first \<and> tl_prev n \<noteq> 0 then Some (h, 0)
                              else do { c \<leftarrow> h t;
                                        h \<leftarrow> set_next h (tl_prev c) 0;
                                        h \<leftarrow> set_next h first t;
                                        h \<leftarrow> set_prev h t first;
                                        Some (h, tl_next f) } } } }"

text \<open>
  \<open>dlg_timer_routine\<close>.  The handler works on the store and on a state of its own.  Taking a
  node off the expired ones is a step between two calls of the handler, without the lock.
\<close>

definition pop_expired :: "tl_heap \<Rightarrow> nat \<Rightarrow> (tl_heap \<times> nat) option" where
  "pop_expired h t =
     do { c \<leftarrow> h t;
          h \<leftarrow> set_next h t 0;
          Some (h, tl_next c) }"

partial_function (option) fire_expired ::
  "(nat \<Rightarrow> tl_heap \<times> 's \<Rightarrow> (tl_heap \<times> 's) option) \<Rightarrow> tl_heap \<times> 's \<Rightarrow> nat \<Rightarrow> (tl_heap \<times> 's) option" where
  "fire_expired hdl s t =
     (if t = 0 then Some s
      else do { (h, t') \<leftarrow> pop_expired (fst s) t;
                s \<leftarrow> hdl t (h, snd s);
                fire_expired hdl s t' })"

definition dlg_timer_routine ::
  "nat \<Rightarrow> (nat \<Rightarrow> tl_heap \<times> 's \<Rightarrow> (tl_heap \<times> 's) option) \<Rightarrow> tl_heap \<times> 's \<Rightarrow> u32 \<Rightarrow> (tl_heap \<times> 's) option" where
  "dlg_timer_routine first hdl s ticks =
     do { (h, t) \<leftarrow> get_expired_dlgs first (fst s) ticks;
          fire_expired hdl (h, snd s) t }"

section \<open>The list in the store\<close>

fun linked :: "(nat \<Rightarrow> nat) \<Rightarrow> (nat \<Rightarrow> nat) \<Rightarrow> nat list \<Rightarrow> bool" where
  "linked n p (a # b # us) = (n a = b \<and> p b = a \<and> linked n p (b # us))"
| "linked n p _ = True"

abbreviation nx :: "tl_heap \<Rightarrow> nat \<Rightarrow> nat" where
  "nx h a \<equiv> tl_next (the (h a))"

abbreviation pv :: "tl_heap \<Rightarrow> nat \<Rightarrow> nat" where
  "pv h a \<equiv> tl_prev (the (h a))"

abbreviation tmo :: "tl_heap \<Rightarrow> nat \<Rightarrow> u32" where
  "tmo h a \<equiv> tl_timeout (the (h a))"

definition timer_list :: "nat \<Rightarrow> tl_heap \<Rightarrow> nat list \<Rightarrow> bool" where
  "timer_list first h xs \<longleftrightarrow>
     distinct (first # xs) \<and> 0 \<notin> set (first # xs) \<and> set (first # xs) \<subseteq> dom h
     \<and> linked (nx h) (pv h) (first # xs @ [first]) \<and> sorted (map (tmo h) xs)"

lemma linked_append:
  "us \<noteq> [] \<Longrightarrow> vs \<noteq> [] \<Longrightarrow>
    linked n p (us @ vs) \<longleftrightarrow> linked n p us \<and> n (last us) = hd vs \<and> p (hd vs) = last us \<and> linked n p vs"
proof (induction us)
  case (Cons a us)
  then show ?case by (cases us; cases vs) auto
qed simp

lemma linked_cong:
  "(\<And>a. a \<in> set (butlast us) \<Longrightarrow> n a = n' a) \<Longrightarrow> (\<And>a. a \<in> set (tl us) \<Longrightarrow> p a = p' a) \<Longrightarrow>
    linked n p us = linked n' p' us"
  by (induction n p us rule: linked.induct) auto

lemmas tl_store = set_next_def set_prev_def set_timeout_def

lemma find_place_list:
  assumes "linked (nx h) (pv h) (first # ys @ zs)" and "distinct (first # ys @ zs)" and "set (ys @ zs) \<subseteq> dom h"
    and "ys \<noteq> [] \<Longrightarrow> tmo h (last ys) \<le> k" and "\<And>z. z \<in> set zs \<Longrightarrow> k < tmo h z"
  shows "find_place h first k (last (first # ys @ zs)) = Some (last (first # ys))"
  using assms (1-3,5)
proof (induction zs rule: rev_induct)
  case Nil
  then show ?case
    using assms (4) by (cases ys rule: rev_cases) (auto simp: find_place.simps [of _ _ _ "last _"] find_place.simps)
next
  case (snoc z zs)
  have l: "linked (nx h) (pv h) (first # ys @ zs)" and z: "pv h z = last (first # ys @ zs)"
    using snoc.prems (1) linked_append [of "first # ys @ zs" "[z]" "nx h" "pv h"] by simp_all
  have "z \<noteq> first" and "\<not> tmo h z \<le> k" and "h z \<noteq> None"
    using snoc.prems by (auto simp: not_le)
  then have "find_place h first k z = find_place h first k (pv h z)"
    by (subst find_place.simps) auto
  also have "\<dots> = Some (last (first # ys))"
    using snoc.IH l snoc.prems z by simp
  finally show ?case
    by simp
qed

text \<open>Linking a node between two neighbours, and unlinking it.\<close>

lemma insert_unsafe_eq:
  assumes "h first = Some f" and "h t = Some c" and "find_place h first (tl_timeout c) (tl_prev f) = Some a"
    and "h a = Some ca" and "b = tl_next ca" and "h b = Some cb" and "t \<noteq> a" and "t \<noteq> b"
  shows "\<exists>h'. insert_dlg_timer_unsafe first h t = Some h' \<and> dom h' = dom h
    \<and> nx h' = (nx h)(t := b, a := t) \<and> pv h' = (pv h)(t := a, b := t) \<and> tmo h' = tmo h
    \<and> (\<forall>y. y \<notin> {a, b, t} \<longrightarrow> h' y = h y)"
proof -
  have "insert_dlg_timer_unsafe first h t =
      set_prev (h(t \<mapsto> c\<lparr>tl_prev := a, tl_next := b\<rparr>, a \<mapsto> ca\<lparr>tl_next := t\<rparr>)) b t"
    using assms by (simp add: insert_dlg_timer_unsafe_def tl_store)
  moreover obtain d where d: "(h(t \<mapsto> c\<lparr>tl_prev := a, tl_next := b\<rparr>, a \<mapsto> ca\<lparr>tl_next := t\<rparr>)) b = Some d"
      "tl_next d = (if b = a then t else tl_next cb)" "tl_timeout d = tl_timeout cb"
    using assms by (cases "b = a") auto
  ultimately show ?thesis
    using assms
    by (intro exI [of _ "h(t \<mapsto> c\<lparr>tl_prev := a, tl_next := b\<rparr>, a \<mapsto> ca\<lparr>tl_next := t\<rparr>, b \<mapsto> d\<lparr>tl_prev := t\<rparr>)"])
      (auto simp: tl_store fun_eq_iff)
qed

lemma remove_unsafe_eq:
  assumes "h t = Some c" and "a = tl_prev c" and "b = tl_next c" and "h a = Some ca" and "h b = Some cb"
    and "t \<noteq> a" and "t \<noteq> b"
  shows "\<exists>h'. remove_dlg_timer_unsafe h t = Some h' \<and> dom h' = dom h
    \<and> nx h' = (nx h)(a := b) \<and> pv h' = (pv h)(b := a) \<and> tmo h' = tmo h
    \<and> (\<forall>y. y \<notin> {a, b} \<longrightarrow> h' y = h y)"
proof -
  have "remove_dlg_timer_unsafe h t = set_prev (h(a \<mapsto> ca\<lparr>tl_next := b\<rparr>)) b a"
    using assms by (simp add: remove_dlg_timer_unsafe_def tl_store)
  moreover obtain d where d: "(h(a \<mapsto> ca\<lparr>tl_next := b\<rparr>)) b = Some d"
      "tl_next d = (if b = a then b else tl_next cb)" "tl_timeout d = tl_timeout cb"
    using assms by (cases "b = a") auto
  ultimately show ?thesis
    using assms
    by (intro exI [of _ "h(a \<mapsto> ca\<lparr>tl_next := b\<rparr>, b \<mapsto> d\<lparr>tl_prev := a\<rparr>)"]) (auto simp: tl_store fun_eq_iff)
qed

text \<open>The neighbours of a place in the list.\<close>

lemma linked_split:
  "linked n p (first # ys @ zs @ [first]) \<longleftrightarrow>
     linked n p (first # ys) \<and> n (last (first # ys)) = hd (zs @ [first]) \<and> p (hd (zs @ [first])) = last (first # ys)
     \<and> linked n p (zs @ [first])"
  using linked_append [of "first # ys" "zs @ [first]" n p] by simp

lemma linked_insert:
  assumes "linked n p (first # (ys @ zs) @ [first])" and "distinct (first # ys @ t # zs)"
    and "a = last (first # ys)" and "b = hd (zs @ [first])"
  shows "linked (n(t := b, a := t)) (p(t := a, b := t)) (first # (ys @ t # zs) @ [first])"
proof -
  let ?n = "n(t := b, a := t)" and ?p = "p(t := a, b := t)"
  have d1: "x \<noteq> a \<and> x \<noteq> t" if "x \<in> set (butlast (first # ys))" for x
  proof -
    have "first # ys = butlast (first # ys) @ [a]"
      using assms (3) append_butlast_last_id [of "first # ys"] by simp
    then have "distinct (butlast (first # ys) @ [a])"
      using assms (2) by (metis distinct_append append_Cons)
    then have "x \<noteq> a" using that by auto
    moreover have "x \<in> set (first # ys)" using that by (rule in_set_butlastD)
    ultimately show ?thesis using assms (2) by auto
  qed
  have d2: "x \<noteq> b \<and> x \<noteq> t" if "x \<in> set ys" for x
    using that assms (2,4) by (cases zs) auto
  have d3: "x \<noteq> a \<and> x \<noteq> t" if "x \<in> set zs" for x
    using that assms (2,3) by (cases ys rule: rev_cases) auto
  have d4: "x \<noteq> b \<and> x \<noteq> t" if "x \<in> set (tl (zs @ [first]))" for x
    using that assms (2,4) by (cases zs) auto
  have "linked ?n ?p (first # ys)"
    using assms (1) d1 d2 linked_cong [of "first # ys" n ?n p ?p] by (simp add: linked_split)
  moreover have "linked ?n ?p (zs @ [first])"
    using assms (1) d3 d4 linked_cong [of "zs @ [first]" n ?n p ?p] by (simp add: linked_split)
  moreover have "t \<noteq> a" "t \<noteq> b"
    using assms (2-4) by (cases ys rule: rev_cases; cases zs; auto)+
  ultimately show ?thesis
    using assms (3,4) linked_append [of "[t]" "zs @ [first]" ?n ?p] linked_split [of ?n ?p first ys "t # zs"]
    by simp
qed

lemma linked_remove:
  assumes "linked n p (first # (ys @ t # zs) @ [first])" and "distinct (first # ys @ t # zs)"
    and "a = last (first # ys)" and "b = hd (zs @ [first])"
  shows "linked (n(a := b)) (p(b := a)) (first # (ys @ zs) @ [first])"
proof -
  let ?n = "n(a := b)" and ?p = "p(b := a)"
  have d1: "x \<noteq> a" if "x \<in> set (butlast (first # ys))" for x
  proof -
    have "first # ys = butlast (first # ys) @ [a]"
      using assms (3) append_butlast_last_id [of "first # ys"] by simp
    then have "distinct (butlast (first # ys) @ [a])"
      using assms (2) by (metis distinct_append append_Cons)
    then show ?thesis using that by auto
  qed
  have d2: "x \<noteq> b" if "x \<in> set ys" for x
    using that assms (2,4) by (cases zs) auto
  have d3: "x \<noteq> a" if "x \<in> set zs" for x
    using that assms (2,3) by (cases ys rule: rev_cases) auto
  have d4: "x \<noteq> b" if "x \<in> set (tl (zs @ [first]))" for x
    using that assms (2,4) by (cases zs) auto
  have "linked n p (first # ys)" and "linked n p (zs @ [first])"
    using assms (1) linked_append [of "[t]" "zs @ [first]" n p] linked_split [of n p first ys "t # zs"] by simp_all
  then have "linked ?n ?p (first # ys)" and "linked ?n ?p (zs @ [first])"
    using d1 d2 d3 d4 linked_cong [of "first # ys" n ?n p ?p] linked_cong [of "zs @ [first]" n ?n p ?p] by simp_all
  then show ?thesis
    using assms (3,4) by (simp add: linked_split)
qed

section \<open>The abstract timer list\<close>

text \<open>
  A timer list is a list of nodes with their timeouts.  A new node goes behind all nodes that do not
  expire after it.
\<close>

definition sp_insert :: "nat \<times> u32 \<Rightarrow> (nat \<times> u32) list \<Rightarrow> (nat \<times> u32) list" where
  "sp_insert x ts = takeWhile (\<lambda>y. snd y \<le> snd x) ts @ x # dropWhile (\<lambda>y. snd y \<le> snd x) ts"

definition sp_remove :: "nat \<Rightarrow> (nat \<times> u32) list \<Rightarrow> (nat \<times> u32) list" where
  "sp_remove t ts = filter (\<lambda>y. fst y \<noteq> t) ts"

definition timers :: "tl_heap \<Rightarrow> nat list \<Rightarrow> (nat \<times> u32) list" where
  "timers h xs = map (\<lambda>x. (x, tmo h x)) xs"

text \<open>The store represents \<open>ts\<close>: a list for these nodes, and no links in the other nodes.\<close>

definition unlinked :: "dlg_tl \<Rightarrow> bool" where
  "unlinked c \<longleftrightarrow> tl_next c = 0 \<and> tl_prev c = 0"

definition represents :: "nat \<Rightarrow> tl_heap \<Rightarrow> (nat \<times> u32) list \<Rightarrow> bool" where
  "represents first h ts \<longleftrightarrow>
     timer_list first h (map fst ts) \<and> ts = timers h (map fst ts) \<and> h 0 = None
     \<and> (\<forall>x c. h x = Some c \<longrightarrow> x \<notin> set (first # map fst ts) \<longrightarrow> unlinked c)"

lemma fst_timers [simp]: "map fst (timers h xs) = xs"
  by (simp add: timers_def comp_def)

lemma snd_timers: "map snd (timers h xs) = map (tmo h) xs"
  by (simp add: timers_def comp_def)

lemma timers_cong: "(\<And>x. x \<in> set xs \<Longrightarrow> tmo h x = tmo h' x) \<Longrightarrow> timers h xs = timers h' xs"
  by (simp add: timers_def)

text \<open>Where a node goes, split at its neighbours.\<close>

lemma sp_insert_split:
  assumes "sorted (map (tmo h) xs)"
  obtains ys zs where "xs = ys @ zs" and "sp_insert (t, k) (timers h xs) = timers h ys @ (t, k) # timers h zs"
    and "ys \<noteq> [] \<Longrightarrow> tmo h (last ys) \<le> k" and "\<And>z. z \<in> set zs \<Longrightarrow> k < tmo h z"
    and "\<And>y. y \<in> set ys \<Longrightarrow> tmo h y \<le> k"
proof -
  let ?P = "\<lambda>x. tmo h x \<le> k"
  let ?ys = "takeWhile ?P xs" and ?zs = "dropWhile ?P xs"
  have y: "tmo h y \<le> k" if "y \<in> set ?ys" for y
    using that by (rule set_takeWhileD [THEN conjunct2])
  have z: "k < tmo h z" if "z \<in> set ?zs" for z
  proof (cases ?zs)
    case Nil
    show ?thesis using that unfolding Nil by simp
  next
    case (Cons w ws)
    have "\<not> ?P w"
      using Cons hd_dropWhile [of ?P xs] by auto
    moreover have "sorted (map (tmo h) ?zs)"
      using assms by (metis map_append sorted_append takeWhile_dropWhile_id)
    ultimately show ?thesis
      using that Cons by auto
  qed
  have "sp_insert (t, k) (timers h xs) = timers h ?ys @ (t, k) # timers h ?zs"
    by (simp add: sp_insert_def timers_def takeWhile_map dropWhile_map comp_def)
  then show ?thesis
    using that [of ?ys ?zs] y z by (metis last_in_set takeWhile_dropWhile_id)
qed

lemma last_in: "last (first # ys) \<in> set (first # ys)"
  by (rule last_in_set) simp

lemma hd_in: "hd (zs @ [first]) \<in> set (first # zs)"
  by (cases zs) auto

text \<open>Linking a node whose timeout is set.\<close>

lemma insert_unsafe_list:
  assumes "timer_list first h xs" and "t \<notin> set (first # xs)" and "t \<noteq> 0" and "h t = Some c"
  shows "\<exists>h'. insert_dlg_timer_unsafe first h t = Some h' \<and> tmo h' = tmo h \<and> dom h' = dom h
    \<and> (\<forall>y. y \<notin> set (first # t # xs) \<longrightarrow> h' y = h y)
    \<and> timer_list first h' (map fst (sp_insert (t, tl_timeout c) (timers h xs)))
    \<and> timers h' (map fst (sp_insert (t, tl_timeout c) (timers h xs))) = sp_insert (t, tl_timeout c) (timers h xs)
    \<and> set (map fst (sp_insert (t, tl_timeout c) (timers h xs))) = insert t (set xs)"
proof -
  let ?k = "tl_timeout c"
  have srt: "sorted (map (tmo h) xs)" and ln: "linked (nx h) (pv h) (first # xs @ [first])"
    and ds: "distinct (first # xs)" and dm: "set (first # xs) \<subseteq> dom h" and nz: "0 \<notin> set (first # xs)"
    using assms (1) by (simp_all add: timer_list_def)
  from srt obtain ys zs where xs: "xs = ys @ zs" and sp: "sp_insert (t, ?k) (timers h xs) = timers h ys @ (t, ?k) # timers h zs"
    and ys: "ys \<noteq> [] \<Longrightarrow> tmo h (last ys) \<le> ?k" and zs: "\<And>z. z \<in> set zs \<Longrightarrow> ?k < tmo h z"
    and ys2: "\<And>y. y \<in> set ys \<Longrightarrow> tmo h y \<le> ?k"
    by (rule sp_insert_split [where t = t and k = ?k]) blast
  define a b where "a = last (first # ys)" and "b = hd (zs @ [first])"
  have ab: "nx h a = b" and lx: "linked (nx h) (pv h) (first # xs)" and pf: "pv h first = last (first # xs)"
    using ln linked_split [of "nx h" "pv h" first ys zs] linked_append [of "first # xs" "[first]" "nx h" "pv h"]
    by (simp_all add: xs a_def b_def)
  have ai: "a \<in> set (first # xs)" and bi: "b \<in> set (first # xs)"
    using last_in [of first ys] hd_in [of zs first] by (auto simp: a_def b_def xs)
  obtain f ca cb where f: "h first = Some f" and ca: "h a = Some ca" and cb: "h b = Some cb"
    using dm ai bi by (metis domD list.set_intros(1) subsetD)
  have fp: "find_place h first ?k (tl_prev f) = Some a"
    using find_place_list [of h first ys zs ?k] lx ds dm ys zs pf f by (simp add: xs a_def)
  have ta: "t \<noteq> a" "t \<noteq> b"
    using ai bi assms (2) by auto
  obtain h' where h': "insert_dlg_timer_unsafe first h t = Some h'" "dom h' = dom h"
      "nx h' = (nx h)(t := b, a := t)" "pv h' = (pv h)(t := a, b := t)" "tmo h' = tmo h"
      "\<And>y. y \<notin> {a, b, t} \<Longrightarrow> h' y = h y"
    using insert_unsafe_eq [OF f assms (4) fp ca _ cb ta] ab ca by auto
  have fstsp: "map fst (sp_insert (t, ?k) (timers h xs)) = ys @ t # zs"
    using sp by simp
  have "linked (nx h') (pv h') (first # (ys @ t # zs) @ [first])"
    unfolding h' (3,4) using ln ds assms (2)
    by (intro linked_insert) (auto simp: xs a_def b_def)
  moreover have "sorted (map (tmo h') (ys @ t # zs))"
    using srt ys2 zs assms (4) by (fastforce simp: h' (5) xs sorted_append)
  ultimately have "timer_list first h' (ys @ t # zs)"
    using ds assms dm nz by (auto simp: timer_list_def h' (2) xs)
  moreover have "timers h' (ys @ t # zs) = timers h ys @ (t, ?k) # timers h zs"
    using assms (4) fun_cong [OF h' (5)] by (simp add: timers_def)
  moreover have "h' y = h y" if "y \<notin> set (first # t # xs)" for y
  proof -
    have "y \<notin> {a, b, t}" using that ai bi by auto
    then show ?thesis by (rule h' (6))
  qed
  ultimately show ?thesis
    using h' sp fstsp by (auto simp: xs)
qed

lemma represents_frame:
  assumes "represents first h ts" and "timer_list first h' (map fst ts')" and "ts' = timers h' (map fst ts')"
    and "h' 0 = None" and "set (map fst ts') \<subseteq> insert t (set (map fst ts))"
    and "\<And>y. y \<notin> set (first # t # map fst ts) \<Longrightarrow> h' y = h y"
    and "\<And>y c. y \<in> insert t (set (map fst ts)) \<Longrightarrow> y \<notin> set (map fst ts') \<Longrightarrow> y \<noteq> first \<Longrightarrow> h' y = Some c \<Longrightarrow> unlinked c"
  shows "represents first h' ts'"
proof -
  have "unlinked c" if "h' x = Some c" "x \<notin> set (first # map fst ts')" for x c
  proof (cases "x \<in> insert t (set (map fst ts))")
    case True
    then show ?thesis using that assms (7) by simp
  next
    case False
    then have "h x = Some c" using that assms (6) by simp
    then show ?thesis using False that assms (1) by (auto simp: represents_def)
  qed
  then show ?thesis
    using assms (2-4) by (auto simp: represents_def)
qed

lemma representsD:
  assumes "represents first h ts"
  shows "timer_list first h (map fst ts)" and "ts = timers h (map fst ts)" and "h 0 = None" and "0 \<notin> set (map fst ts)"
    and "first \<notin> set (map fst ts)" and "first \<noteq> 0"
  using assms by (auto simp: represents_def timer_list_def)

lemma represents_unlinked:
  "represents first h ts \<Longrightarrow> h t = Some c \<Longrightarrow> t \<notin> set (first # map fst ts) \<Longrightarrow> tl_next c = 0 \<and> tl_prev c = 0"
  by (auto simp: represents_def unlinked_def)

text \<open>A node that is in the list has a list before and behind it.\<close>

lemma timer_list_neighbours:
  assumes "timer_list first h (ys @ t # zs)"
  obtains c ca cb where "h t = Some c" and "tl_prev c = last (first # ys)" and "tl_next c = hd (zs @ [first])"
    and "h (last (first # ys)) = Some ca" and "h (hd (zs @ [first])) = Some cb"
    and "t \<noteq> last (first # ys)" and "t \<noteq> hd (zs @ [first])" and "tl_prev c \<noteq> 0" and "tl_next c \<noteq> 0"
proof -
  let ?a = "last (first # ys)" and ?b = "hd (zs @ [first])"
  have dm: "set (first # ys @ t # zs) \<subseteq> dom h" and ds: "distinct (first # ys @ t # zs)"
    and nz: "0 \<notin> set (first # ys @ t # zs)"
    and ln: "linked (nx h) (pv h) (first # ys @ (t # zs) @ [first])"
    using assms by (simp_all add: timer_list_def)
  have ai: "?a \<in> set (first # ys)" and bi: "?b \<in> set (first # zs)"
    by (rule last_in, rule hd_in)
  have "pv h t = ?a" and "nx h t = ?b"
    using ln linked_append [of "[t]" "zs @ [first]" "nx h" "pv h"] by (simp_all only: linked_split) simp_all
  moreover have "t \<in> dom h" "?a \<in> dom h" "?b \<in> dom h"
    using dm ai bi by auto
  then obtain c ca cb where "h t = Some c" "h ?a = Some ca" "h ?b = Some cb"
    by blast
  moreover have "t \<noteq> ?a" "t \<noteq> ?b" "?a \<noteq> 0" "?b \<noteq> 0"
    using ai bi ds nz by auto
  ultimately show ?thesis
    using that by simp
qed

lemma timer_list_cong:
  assumes "\<And>y. y \<in> set (first # xs) \<Longrightarrow> h' y = h y"
  shows "timer_list first h' xs = timer_list first h xs"
proof -
  have l: "linked (nx h') (pv h') (first # xs @ [first]) = linked (nx h) (pv h) (first # xs @ [first])"
    using assms by (intro linked_cong) (auto dest: in_set_butlastD)
  have m: "map (tmo h') xs = map (tmo h) xs"
    using assms by simp
  have d: "set (first # xs) \<subseteq> dom h' \<longleftrightarrow> set (first # xs) \<subseteq> dom h"
    using assms by (auto simp: dom_def subset_iff)
  show ?thesis
    by (simp only: timer_list_def l m d)
qed

lemma timer_list_upd: "t \<notin> set (first # xs) \<Longrightarrow> timer_list first (h(t \<mapsto> c)) xs = timer_list first h xs"
  by (rule timer_list_cong) auto

lemma remove_unsafe_list:
  assumes "timer_list first h (ys @ t # zs)"
  shows "\<exists>h'. remove_dlg_timer_unsafe h t = Some h' \<and> timer_list first h' (ys @ zs) \<and> tmo h' = tmo h
    \<and> dom h' = dom h \<and> h' t = h t \<and> (\<forall>y. y \<notin> set (first # ys @ t # zs) \<longrightarrow> h' y = h y)"
proof -
  define a b where "a = last (first # ys)" and "b = hd (zs @ [first])"
  obtain c ca cb where c: "h t = Some c" "tl_prev c = a" "tl_next c = b" "h a = Some ca" "h b = Some cb"
      "t \<noteq> a" "t \<noteq> b"
    using timer_list_neighbours [OF assms] by (metis a_def b_def)
  obtain h' where h': "remove_dlg_timer_unsafe h t = Some h'" "dom h' = dom h" "nx h' = (nx h)(a := b)"
      "pv h' = (pv h)(b := a)" "tmo h' = tmo h" "\<And>y. y \<notin> {a, b} \<Longrightarrow> h' y = h y"
    using remove_unsafe_eq [OF c (1) c (2,3) [symmetric] c (4-7)] by blast
  have "linked (nx h') (pv h') (first # (ys @ zs) @ [first])"
    unfolding h' (3,4) using assms by (intro linked_remove [where t = t]) (auto simp: timer_list_def a_def b_def)
  then have "timer_list first h' (ys @ zs)"
    using assms h' (2,5) by (auto simp: timer_list_def sorted_append)
  moreover have "h' y = h y" if "y \<notin> set (first # ys @ t # zs)" for y
  proof -
    have "y \<notin> {a, b}" using that last_in [of first ys] hd_in [of zs first] by (auto simp: a_def b_def)
    then show ?thesis by (rule h' (6))
  qed
  moreover have "h' t = h t"
    using c (6,7) by (intro h' (6)) simp
  ultimately show ?thesis
    using h' (1,2,5) by blast
qed

lemma sp_remove_split:
  assumes "distinct (map fst ts)" and "t \<in> set (map fst ts)"
  obtains ys zs where "map fst ts = ys @ t # zs" and "map fst (sp_remove t ts) = ys @ zs"
proof -
  obtain us k vs where ts: "ts = us @ (t, k) # vs"
    using assms (2) by (auto dest: split_list)
  have "filter (\<lambda>y. fst y \<noteq> t) us = us" and "filter (\<lambda>y. fst y \<noteq> t) vs = vs"
    using assms (1) by (auto simp: ts intro!: filter_True)
  then have "sp_remove t ts = us @ vs"
    by (simp add: ts sp_remove_def)
  then show ?thesis
    using that [of "map fst us" "map fst vs"] ts by simp
qed

lemma sp_remove_timers: "ts = timers h (map fst ts) \<Longrightarrow> sp_remove t ts = timers h (map fst (sp_remove t ts))"
  by (induction ts) (auto simp: sp_remove_def timers_def)

lemma set_sp_remove: "set (map fst (sp_remove t ts)) = set (map fst ts) - {t}"
  by (auto simp: sp_remove_def)

lemma set_sp_insert: "set (map fst (sp_insert (t, k) ts)) = insert t (set (map fst ts))"
proof -
  have "set ts = set (takeWhile (\<lambda>y. snd y \<le> k) ts) \<union> set (dropWhile (\<lambda>y. snd y \<le> k) ts)"
    by (metis set_append takeWhile_dropWhile_id)
  then have "set (sp_insert (t, k) ts) = insert (t, k) (set ts)"
    by (simp add: sp_insert_def)
  then show ?thesis by simp
qed

text \<open>Setting a timeout and linking, for a node outside the list.\<close>

lemma insert_represents:
  assumes "represents first h ts" and "h t = Some c" and "t \<notin> set (first # map fst ts)"
  shows "\<exists>h'. (set_timeout h t k \<bind> (\<lambda>h. insert_dlg_timer_unsafe first h t)) = Some h'
    \<and> represents first h' (sp_insert (t, k) ts) \<and> dom h' = dom h"
proof -
  note r = representsD [OF assms (1)]
  let ?h = "h(t \<mapsto> c\<lparr>tl_timeout := k\<rparr>)" and ?xs = "map fst ts"
  have "timer_list first ?h ?xs"
    using r (1) timer_list_upd [of t first ?xs h] assms (3) by simp
  moreover have t0: "t \<noteq> 0"
    using assms (2) r (3) by (metis option.distinct (1))
  moreover have "timers ?h ?xs = timers h ?xs"
    by (rule timers_cong) (use assms (3) in auto)
  then have ts: "timers ?h ?xs = ts"
    using r (2) by simp
  ultimately obtain h' where h': "insert_dlg_timer_unsafe first ?h t = Some h'" "dom h' = dom ?h"
      "\<And>y. y \<notin> set (first # t # ?xs) \<Longrightarrow> h' y = ?h y"
      "timer_list first h' (map fst (sp_insert (t, k) ts))"
      "timers h' (map fst (sp_insert (t, k) ts)) = sp_insert (t, k) ts"
    using insert_unsafe_list [of first ?h ?xs t "c\<lparr>tl_timeout := k\<rparr>"] assms (3) by auto
  have "dom h' = dom h"
    using h' (2) assms (2) by auto
  then have "h' 0 = None"
    using r (3) by (metis domIff)
  then have "represents first h' (sp_insert (t, k) ts)"
    using h' assms (1) set_sp_insert [of t k ts] by (intro represents_frame [OF assms (1) h' (4), where t = t]) auto
  then show ?thesis
    using h' (1,2) assms (2) by (auto simp: set_timeout_def)
qed

lemma remove_unsafe_represents:
  assumes "represents first h ts" and "t \<in> set (map fst ts)"
  shows "\<exists>h'. remove_dlg_timer_unsafe h t = Some h' \<and> dom h' = dom h
    \<and> (\<forall>k. represents first (h'(t \<mapsto> \<lparr>tl_next = 0, tl_prev = 0, tl_timeout = k\<rparr>)) (sp_remove t ts))
    \<and> timer_list first h' (map fst (sp_remove t ts)) \<and> tmo h' = tmo h \<and> h' t = h t
    \<and> (\<forall>y. y \<notin> set (first # map fst ts) \<longrightarrow> h' y = h y)"
proof -
  note r = representsD [OF assms (1)]
  have "distinct (map fst ts)"
    using r (1) by (simp add: timer_list_def)
  then obtain ys zs where ts: "map fst ts = ys @ t # zs" "map fst (sp_remove t ts) = ys @ zs"
    using assms (2) by (rule sp_remove_split)
  obtain h' where h': "remove_dlg_timer_unsafe h t = Some h'" "timer_list first h' (ys @ zs)" "tmo h' = tmo h"
      "dom h' = dom h" "h' t = h t" "\<And>y. y \<notin> set (first # ys @ t # zs) \<Longrightarrow> h' y = h y"
    using remove_unsafe_list [of first h ys t zs] r (1) ts by auto
  have "represents first (h'(t \<mapsto> \<lparr>tl_next = 0, tl_prev = 0, tl_timeout = k\<rparr>)) (sp_remove t ts)"
      (is "represents first ?h _") for k
  proof (rule represents_frame [OF assms (1), where t = t])
    have "t \<notin> set (first # ys @ zs)"
      using r (1) ts by (auto simp: timer_list_def)
    then show "timer_list first ?h (map fst (sp_remove t ts))"
      using h' (2) ts timer_list_upd [of t first "ys @ zs" h'] by simp
    show "sp_remove t ts = timers ?h (map fst (sp_remove t ts))"
      using sp_remove_timers [OF r (2), of t] set_sp_remove [of t ts] fun_cong [OF h' (3)]
      by (subst timers_cong [of _ ?h h]) auto
    have "t \<noteq> 0" "h' 0 = None"
      using h' (4) r (3,4) assms (2) by (metis, metis domIff)
    then show "?h 0 = None"
      by simp
  qed (use ts h' set_sp_remove [of t ts] in \<open>auto simp: unlinked_def\<close>)
  then show ?thesis
    using h' ts by auto
qed

text \<open>Moving a node of the list.\<close>

lemma update_represents:
  assumes "represents first h ts" and "t \<in> set (map fst ts)"
  shows "\<exists>h' h''. remove_dlg_timer_unsafe h t = Some h' \<and> represents first h'' (sp_insert (t, k) (sp_remove t ts))
    \<and> (set_timeout h' t k \<bind> (\<lambda>h. insert_dlg_timer_unsafe first h t)) = Some h'' \<and> dom h'' = dom h"
proof -
  note r = representsD [OF assms (1)]
  let ?ts = "sp_remove t ts"
  obtain h1 where h1: "remove_dlg_timer_unsafe h t = Some h1" "dom h1 = dom h"
      "timer_list first h1 (map fst ?ts)" "tmo h1 = tmo h" "h1 t = h t"
      "\<And>y. y \<notin> set (first # map fst ts) \<Longrightarrow> h1 y = h y"
    using remove_unsafe_represents [OF assms] by blast
  have "t \<in> dom h" and t: "t \<noteq> 0" "t \<noteq> first"
    using r (1) assms (2) by (auto simp: timer_list_def)
  then obtain c where c: "h1 t = Some c"
    using h1 (5) by auto
  let ?h = "h1(t \<mapsto> c\<lparr>tl_timeout := k\<rparr>)"
  have nt: "t \<notin> set (first # map fst ?ts)"
    using t set_sp_remove [of t ts] by auto
  have "timers ?h (map fst ?ts) = timers h (map fst ?ts)"
    by (rule timers_cong) (use nt fun_cong [OF h1 (4)] in auto)
  then have tm: "timers ?h (map fst ?ts) = ?ts"
    using sp_remove_timers [OF r (2), of t] by simp
  have "timer_list first ?h (map fst ?ts)"
    using h1 (3) timer_list_upd [OF nt, of h1] by simp
  then obtain h' where h': "insert_dlg_timer_unsafe first ?h t = Some h'" "dom h' = dom ?h"
      "\<And>y. y \<notin> set (first # t # map fst ?ts) \<Longrightarrow> h' y = ?h y"
      "timer_list first h' (map fst (sp_insert (t, k) ?ts))"
      "timers h' (map fst (sp_insert (t, k) ?ts)) = sp_insert (t, k) ?ts"
    using insert_unsafe_list [of first ?h "map fst ?ts" t "c\<lparr>tl_timeout := k\<rparr>"] nt t tm by auto
  have "dom h' = dom h"
    using h' (2) h1 (2) c by auto
  then have "h' 0 = None"
    using r (3) by (metis domIff)
  have fr: "h' y = h y" if "y \<notin> set (first # t # map fst ts)" for y
    using that h' (3) [of y] h1 (6) [of y] set_sp_remove [of t ts] by auto
  have s: "set (map fst (sp_insert (t, k) ?ts)) = insert t (set (map fst ts))"
    using set_sp_insert [of t k ?ts] set_sp_remove [of t ts] by auto
  have "represents first h' (sp_insert (t, k) ?ts)"
    by (rule represents_frame [OF assms (1) h' (4) h' (5) [symmetric] \<open>h' 0 = None\<close>, where t = t])
      (use s fr in auto)
  then show ?thesis
    using h1 (1) h' (1) c \<open>dom h' = dom h\<close> by (auto simp: set_timeout_def)
qed

lemma timer_ops:
  assumes "represents first h ts" and "t \<in> dom h" and "t \<noteq> first"
  shows "(\<exists>h'. insert_dlg_timer first ticks h t i = Some (h', if t \<in> set (map fst ts) then - 1 else 0)
      \<and> represents first h' (if t \<in> set (map fst ts) then ts else sp_insert (t, ticks + i) ts) \<and> dom h' = dom h)
    \<and> (\<exists>h'. remove_dlg_timer h t = Some (h', if t \<in> set (map fst ts) then 0 else - 1)
      \<and> represents first h' (sp_remove t ts) \<and> dom h' = dom h)
    \<and> (\<exists>h'. update_dlg_timer first ticks h t i = Some (h', 0)
      \<and> represents first h' (sp_insert (t, ticks + i) (sp_remove t ts)) \<and> dom h' = dom h)"
proof -
  obtain c where c: "h t = Some c"
    using assms (2) by blast
  show ?thesis
  proof (cases "t \<in> set (map fst ts)")
    case False
    have u: "tl_next c = 0" "tl_prev c = 0"
      using represents_unlinked [OF assms (1) c] False assms (3) by auto
    have sp: "sp_remove t ts = ts"
      using False by (auto simp: sp_remove_def intro!: filter_True)
    obtain h' where "(set_timeout h t (ticks + i) \<bind> (\<lambda>h. insert_dlg_timer_unsafe first h t)) = Some h'"
        "represents first h' (sp_insert (t, ticks + i) ts)" "dom h' = dom h"
      using insert_represents [OF assms (1) c, of "ticks + i"] False assms (3) by auto
    then show ?thesis
      using False assms (1) c u sp
      by (auto simp: insert_dlg_timer_def remove_dlg_timer_def update_dlg_timer_def bind_eq_Some_conv)
  next
    case True
    obtain h1 where h1: "remove_dlg_timer_unsafe h t = Some h1" "dom h1 = dom h"
        "\<And>k. represents first (h1(t \<mapsto> \<lparr>tl_next = 0, tl_prev = 0, tl_timeout = k\<rparr>)) (sp_remove t ts)"
        "timer_list first h1 (map fst (sp_remove t ts))" "tmo h1 = tmo h" "h1 t = h t"
      using remove_unsafe_represents [OF assms (1) True] by blast
    have "distinct (map fst ts)"
      using representsD (1) [OF assms (1)] by (simp add: timer_list_def)
    then obtain ys zs where "map fst ts = ys @ t # zs"
      using sp_remove_split [of ts t] True by metis
    then have n: "tl_prev c \<noteq> 0" "tl_next c \<noteq> 0"
      using timer_list_neighbours [of first h ys t zs] representsD (1) [OF assms (1)] c by (metis option.sel)+
    let ?h = "h1(t \<mapsto> \<lparr>tl_next = 0, tl_prev = 0, tl_timeout = 0\<rparr>)"
    have "insert_dlg_timer first ticks h t i = Some (h, - 1)"
      using c n by (simp add: insert_dlg_timer_def)
    moreover have "remove_dlg_timer h t = Some (?h, 0)"
      using c n h1 by (cases c) (simp add: remove_dlg_timer_def tl_store)
    moreover have "\<exists>h'. update_dlg_timer first ticks h t i = Some (h', 0)
        \<and> represents first h' (sp_insert (t, ticks + i) (sp_remove t ts)) \<and> dom h' = dom h"
      using update_represents [OF assms (1) True, of "ticks + i"] c n
      by (auto simp: update_dlg_timer_def bind_eq_Some_conv)
    ultimately show ?thesis
      using True assms (1,2) h1 (2,3) by (auto simp: insert_absorb)
  qed
qed

text \<open>
  C19. The timer operations on the linked store implement the abstract timer list and never
  follow a null pointer.  \<open>insert_dlg_timer\<close> refuses a node that is in the list and otherwise
  files it behind all nodes that expire no later; \<open>remove_dlg_timer\<close> refuses a node that is
  not in the list and otherwise takes it out; \<open>update_dlg_timer\<close> moves or files it.
\<close>

theorem timer_ops_refine:
  assumes "represents first h ts" and "t \<in> dom h" and "t \<noteq> first"
  shows "(\<exists>h'. insert_dlg_timer first ticks h t i = Some (h', if t \<in> set (map fst ts) then - 1 else 0)
      \<and> represents first h' (if t \<in> set (map fst ts) then ts else sp_insert (t, ticks + i) ts))
    \<and> (\<exists>h'. remove_dlg_timer h t = Some (h', if t \<in> set (map fst ts) then 0 else - 1)
      \<and> represents first h' (sp_remove t ts))
    \<and> (\<exists>h'. update_dlg_timer first ticks h t i = Some (h', 0)
      \<and> represents first h' (sp_insert (t, ticks + i) (sp_remove t ts)))"
  using timer_ops [OF assms, of ticks i] by blast

section \<open>Expiry\<close>

text \<open>The expired nodes hang together by their forward links only.\<close>

fun pending :: "tl_heap \<Rightarrow> nat \<Rightarrow> nat list \<Rightarrow> bool" where
  "pending h p [] = (p = 0)"
| "pending h p (e # es) = (p = e \<and> e \<noteq> 0 \<and> e \<in> dom h \<and> pv h e = 0 \<and> pending h (nx h e) es)"

lemma pending_cong: "(\<And>e. e \<in> set es \<Longrightarrow> h' e = h e) \<Longrightarrow> pending h' p es = pending h p es"
  by (induction es arbitrary: p) (auto simp: dom_def)

lemma cut_expired_list:
  assumes "linked (nx h) q (es @ rs @ [first])" and "set es \<subseteq> dom h" and "first \<notin> set (es @ rs)"
    and "\<And>e. e \<in> set es \<Longrightarrow> tmo h e \<le> time" and "rs \<noteq> [] \<Longrightarrow> hd rs \<in> dom h \<and> time < tmo h (hd rs)"
    and "distinct (es @ rs)"
  shows "\<exists>h'. cut_expired first time h (hd (es @ rs @ [first])) = Some (h', hd (rs @ [first]))
    \<and> dom h' = dom h \<and> nx h' = nx h \<and> tmo h' = tmo h
    \<and> pv h' = (\<lambda>x. if x \<in> set es then 0 else pv h x) \<and> (\<forall>y. y \<notin> set es \<longrightarrow> h' y = h y)"
  using assms
proof (induction es arbitrary: h)
  case Nil
  then show ?case
    by (cases rs; subst cut_expired.simps) auto
next
  case (Cons e es)
  obtain c where c: "h e = Some c" and le: "tl_timeout c \<le> time" and e: "e \<noteq> first"
    using Cons.prems by fastforce
  define h1 where "h1 = h(e \<mapsto> c\<lparr>tl_prev := 0\<rparr>)"
  have nx: "nx h1 = nx h" and tmo: "tmo h1 = tmo h" and dom: "dom h1 = dom h" and pv: "pv h1 = (pv h)(e := 0)"
    using c by (auto simp: fun_eq_iff h1_def)
  have lk: "linked (nx h) q (es @ rs @ [first])" and next_e: "tl_next c = hd (es @ rs @ [first])"
    using Cons.prems (1) c linked_append [of "[e]" "es @ rs @ [first]" "nx h" q] by simp_all
  have "\<exists>h'. cut_expired first time h1 (hd (es @ rs @ [first])) = Some (h', hd (rs @ [first]))
    \<and> dom h' = dom h1 \<and> nx h' = nx h1 \<and> tmo h' = tmo h1
    \<and> pv h' = (\<lambda>x. if x \<in> set es then 0 else pv h1 x) \<and> (\<forall>y. y \<notin> set es \<longrightarrow> h' y = h1 y)"
    using Cons.prems (2-6) lk fun_cong [OF tmo] unfolding nx [symmetric] dom [symmetric]
    by (intro Cons.IH) auto
  then obtain h' where h': "cut_expired first time h1 (hd (es @ rs @ [first])) = Some (h', hd (rs @ [first]))"
      "dom h' = dom h" "nx h' = nx h" "tmo h' = tmo h" "pv h' = (\<lambda>x. if x \<in> set es then 0 else pv h1 x)"
      "\<And>y. y \<notin> set es \<Longrightarrow> h' y = h1 y"
    unfolding nx tmo dom by blast
  have "cut_expired first time h e = Some (h', hd (rs @ [first]))"
    using c le e next_e h' (1) by (subst cut_expired.simps) (simp add: h1_def)
  moreover have "pv h' = (\<lambda>x. if x \<in> set (e # es) then 0 else pv h x)"
    using fun_cong [OF pv] unfolding h' (5) by (auto simp: fun_eq_iff)
  moreover have "\<forall>y. y \<notin> set (e # es) \<longrightarrow> h' y = h y"
    using h' (6) by (simp add: h1_def)
  ultimately show ?case
    using h' (2-4) by auto
qed

lemma pendingI:
  assumes "linked (nx h) q es" and "es \<noteq> []" and "nx h (last es) = 0" and "set es \<subseteq> dom h" and "0 \<notin> set es"
    and "\<And>e. e \<in> set es \<Longrightarrow> pv h e = 0"
  shows "pending h (hd es) es"
  using assms
proof (induction "nx h" q es rule: linked.induct)
  case (1 p a b us)
  then show ?case by auto
qed auto

lemma linked_behind:
  assumes "linked n p (first # (es @ rs) @ [first])" and "es \<noteq> []" and "distinct (first # es @ rs)"
    and "n' first = hd (rs @ [first])" and "p' (hd (rs @ [first])) = first"
    and "\<And>x. x \<in> set rs \<Longrightarrow> n' x = n x" and "\<And>x. x \<in> set (tl (rs @ [first])) \<Longrightarrow> p' x = p x"
  shows "linked n' p' (first # rs @ [first])"
proof -
  have "linked n p (rs @ [first])"
    using assms (1) linked_split [of n p first es rs] by simp
  then have "linked n' p' (rs @ [first])"
    using assms (6,7) linked_cong [of "rs @ [first]" n' n p' p] by simp
  then show ?thesis
    using assms (4,5) linked_append [of "[first]" "rs @ [first]" n' p'] by simp
qed

lemma get_expired_list:
  assumes "timer_list first h (es @ rs)" and "es \<noteq> []"
    and "\<And>e. e \<in> set es \<Longrightarrow> tmo h e \<le> time" and "rs \<noteq> [] \<Longrightarrow> time < tmo h (hd rs)"
  shows "\<exists>h'. get_expired_dlgs first h time = Some (h', hd es) \<and> pending h' (hd es) es
    \<and> timer_list first h' rs \<and> tmo h' = tmo h \<and> dom h' = dom h \<and> nx h' (last es) = 0
    \<and> (\<forall>y. y \<notin> set (first # es @ rs) \<longrightarrow> h' y = h y)"
proof -
  have ds: "distinct (first # es @ rs)" and nz: "0 \<notin> set (first # es @ rs)" and dm: "set (first # es @ rs) \<subseteq> dom h"
    and lk: "linked (nx h) (pv h) (first # (es @ rs) @ [first])" and srt: "sorted (map (tmo h) (es @ rs))"
    using assms (1) by (simp_all add: timer_list_def)
  define b l where "b = hd (rs @ [first])" and "l = last es"
  have sp: "linked (nx h) (pv h) (first # es)" "nx h l = b" "pv h b = l" "linked (nx h) (pv h) (rs @ [first])"
    using lk linked_split [of "nx h" "pv h" first es rs] assms (2) by (simp_all add: b_def l_def)
  have hd: "nx h first = hd es" and les: "linked (nx h) (pv h) es"
    using sp (1) linked_append [of "[first]" es "nx h" "pv h"] assms (2) by simp_all
  have l_in: "l \<in> set es" and hd_es: "hd es \<in> set es" and b_in: "b \<in> set (first # rs)"
    using assms (2) hd_in [of rs first] by (simp_all add: l_def b_def)
  have "linked (nx h) (pv h) (es @ rs @ [first])"
    using lk linked_append [of "[first]" "es @ rs @ [first]" "nx h" "pv h"] by simp
  moreover have "rs \<noteq> [] \<Longrightarrow> hd rs \<in> dom h"
    using dm by (cases rs) auto
  ultimately obtain h1 where h1: "cut_expired first time h (hd es) = Some (h1, b)" "dom h1 = dom h" "nx h1 = nx h"
      "tmo h1 = tmo h" "pv h1 = (\<lambda>x. if x \<in> set es then 0 else pv h x)" "\<And>y. y \<notin> set es \<Longrightarrow> h1 y = h y"
    using cut_expired_list [of h "pv h" es rs first time] ds dm assms (2-4) by (auto simp: b_def hd_append2)
  have neq: "l \<noteq> first" "l \<noteq> b" "hd es \<noteq> first" "b \<notin> set es"
    using l_in hd_es b_in ds by auto
  obtain f e cb cl where c: "h first = Some f" "h (hd es) = Some e" "h1 b = Some cb" "h1 l = Some cl"
  proof -
    have "first \<in> dom h" "hd es \<in> dom h" "b \<in> dom h1" "l \<in> dom h1"
      using dm l_in hd_es b_in unfolding h1 (2) by auto
    then show ?thesis
      using that by blast
  qed
  have f1: "h1 first = Some f"
    using h1 (6) c (1) ds by simp
  obtain e1 where e1: "h1 (hd es) = Some e1" "tl_prev e1 = 0"
    using h1 (2) c (2) hd_es fun_cong [OF h1 (5), of "hd es"] by (metis domD domI option.sel)
  have pb: "tl_prev cb = l"
    using fun_cong [OF h1 (5), of b] neq (4) sp (3) c (3) by simp
  define h2 where "h2 = h1(l \<mapsto> cl\<lparr>tl_next := 0\<rparr>, first \<mapsto> f\<lparr>tl_next := b\<rparr>)"
  obtain c2 where c2: "h2 b = Some c2" "tl_next c2 = (if b = first then b else nx h1 b)" "tl_timeout c2 = tmo h1 b"
    using c f1 neq by (cases "b = first") (auto simp: h2_def)
  define h' where "h' = h2(b \<mapsto> c2\<lparr>tl_prev := first\<rparr>)"
  have "\<not> time < tl_timeout e"
    using assms (3) hd_es c (2) by (metis option.sel not_less)
  then have g: "get_expired_dlgs first h time = Some (h', hd es)"
    using c hd neq f1 e1 h1 (1) pb c2 (1)
    by (simp add: get_expired_dlgs_def tl_store h'_def h2_def)
  have a: "nx h' = (nx h1)(l := 0, first := b)" "pv h' = (pv h1)(b := first)" "tmo h' = tmo h1" "dom h' = dom h1"
    using c c2 f1 neq by (auto simp: h'_def h2_def fun_eq_iff split: if_splits)
  have n': "nx h' x = ((nx h)(l := 0, first := b)) x" for x
    using fun_cong [OF a (1), of x] unfolding h1 (3) .
  have p': "pv h' x = (if x = b then first else if x \<in> set es then 0 else pv h x)" for x
    using fun_cong [OF a (2), of x] unfolding h1 (5) by simp
  have t': "tmo h' = tmo h" and d': "dom h' = dom h"
    using a (3,4) h1 (2,4) by simp_all
  have "distinct (butlast es @ [l])"
    using ds assms (2) by (simp add: l_def)
  then have "linked (nx h') (pv h) es"
    using les ds by (subst linked_cong [of es "nx h'" "nx h"]) (auto simp: n' dest: in_set_butlastD)
  then have "pending h' (hd es) es"
    by (rule pendingI) (use assms (2) dm nz neq b_in in \<open>auto simp: n' p' d' l_def [symmetric]\<close>)
  moreover have "x \<noteq> b \<and> x \<notin> set es" if "x \<in> set (tl (rs @ [first]))" for x
    using that ds by (cases rs) (auto simp: b_def)
  then have "linked (nx h') (pv h') (first # rs @ [first])"
    by (intro linked_behind [OF lk assms (2) ds])
      (use l_in ds b_in in \<open>auto simp: n' p' b_def [symmetric]\<close>)
  then have "timer_list first h' rs"
    using ds nz dm d' t' srt by (auto simp: timer_list_def sorted_append)
  moreover have "nx h' l = 0"
    using neq by (simp add: n')
  moreover have "\<forall>y. y \<notin> set (first # es @ rs) \<longrightarrow> h' y = h y"
    using l_in b_in h1 (6) by (auto simp: h'_def h2_def)
  ultimately show ?thesis
    using g t' d' by (auto simp: l_def)
qed

text \<open>
  What the routine relies on from its handler: it returns, it changes only the node it is called
  for, and it does not leave links in it.
\<close>

definition handler_ok ::
  "(nat \<Rightarrow> tl_heap \<times> 's \<Rightarrow> (tl_heap \<times> 's) option) \<Rightarrow> (nat \<Rightarrow> tl_heap \<Rightarrow> tl_heap) \<Rightarrow> (nat \<Rightarrow> 's \<Rightarrow> 's) \<Rightarrow> bool" where
  "handler_ok hdl act upd \<longleftrightarrow>
     (\<forall>x h s. hdl x (h, s) = Some (act x h, upd x s))
     \<and> (\<forall>x h y. y \<noteq> x \<longrightarrow> act x h y = h y)
     \<and> (\<forall>x h c. (\<exists>d. h x = Some d \<and> unlinked d) \<longrightarrow> act x h x = Some c \<longrightarrow> unlinked c)"

lemma fire_expired_list:
  assumes "handler_ok hdl act upd" and "pending h p es" and "distinct es"
  shows "\<exists>h'. fire_expired hdl (h, s) p = Some (h', fold upd es s) \<and> (\<forall>y. y \<notin> set es \<longrightarrow> h' y = h y)
    \<and> (\<forall>e c. e \<in> set es \<longrightarrow> h' e = Some c \<longrightarrow> unlinked c)"
  using assms (2,3)
proof (induction es arbitrary: h p s)
  case Nil
  then show ?case
    by (subst fire_expired.simps) simp
next
  case (Cons e es)
  obtain c where c: "h e = Some c" "tl_prev c = 0" and p: "p = e" "e \<noteq> 0" and pd: "pending h (tl_next c) es"
    using Cons.prems (1) by auto
  define h1 where "h1 = act e (h(e \<mapsto> c\<lparr>tl_next := 0\<rparr>))"
  have hdl: "hdl e (h(e \<mapsto> c\<lparr>tl_next := 0\<rparr>), s) = Some (h1, upd e s)"
    using assms (1) unfolding handler_ok_def h1_def by blast
  have fr: "h1 y = h y" if "y \<noteq> e" for y
    using assms (1) that by (simp add: handler_ok_def h1_def)
  have un: "unlinked d" if "h1 e = Some d" for d
  proof -
    have "unlinked (c\<lparr>tl_next := 0\<rparr>)" "(h(e \<mapsto> c\<lparr>tl_next := 0\<rparr>)) e = Some (c\<lparr>tl_next := 0\<rparr>)"
      using c by (simp_all add: unlinked_def)
    then show ?thesis
      using assms (1) that unfolding handler_ok_def h1_def by blast
  qed
  have "h1 x = h x" if "x \<in> set es" for x
    using that Cons.prems (2) by (intro fr) auto
  then have "pending h1 (tl_next c) es"
    using pd pending_cong [of es h1 h] by simp
  then obtain h' where h': "fire_expired hdl (h1, upd e s) (tl_next c) = Some (h', fold upd es (upd e s))"
      "\<And>y. y \<notin> set es \<Longrightarrow> h' y = h1 y" "\<And>x d. x \<in> set es \<Longrightarrow> h' x = Some d \<Longrightarrow> unlinked d"
    using Cons.IH [of h1 "tl_next c" "upd e s"] Cons.prems (2) by auto
  have "fire_expired hdl (h, s) p = Some (h', fold upd es (upd e s))"
    using p c h' (1) hdl by (subst fire_expired.simps) (simp add: pop_expired_def tl_store)
  then show ?case
    using h' (2,3) fr un Cons.prems (2) by auto
qed

lemma represents_timeout: "represents first h ts \<Longrightarrow> y \<in> set ts \<Longrightarrow> snd y = tmo h (fst y)"
proof -
  assume "represents first h ts" and "y \<in> set ts"
  then have "y \<in> set (timers h (map fst ts))"
    using representsD (2) [of first h ts] by metis
  then show ?thesis
    by (auto simp: timers_def)
qed

text \<open>A list splits into the nodes that have expired and the others.\<close>

lemma represents_split:
  assumes "represents first h ts"
  obtains es rs where "es = map fst (takeWhile (\<lambda>y. snd y \<le> time) ts)" and "map fst ts = es @ rs"
    and "timer_list first h (es @ rs)" and "\<And>e. e \<in> set es \<Longrightarrow> tmo h e \<le> time"
    and "rs \<noteq> [] \<Longrightarrow> time < tmo h (hd rs)" and "dropWhile (\<lambda>y. snd y \<le> time) ts = timers h rs"
proof -
  let ?P = "\<lambda>y :: nat \<times> u32. snd y \<le> time"
  define es rs where "es = map fst (takeWhile ?P ts)" and "rs = map fst (dropWhile ?P ts)"
  note r = representsD [OF assms]
  have xs: "map fst ts = es @ rs"
    unfolding es_def rs_def by (simp flip: map_append)
  have le: "tmo h e \<le> time" if e: "e \<in> set es" for e
  proof -
    obtain y where "y \<in> set (takeWhile ?P ts)" "e = fst y"
      using e by (auto simp: es_def)
    then show ?thesis
      using represents_timeout [OF assms, of y] by (auto dest: set_takeWhileD)
  qed
  have gt: "time < tmo h (hd rs)" if rs: "rs \<noteq> []"
  proof -
    have ne: "dropWhile ?P ts \<noteq> []"
      using rs by (auto simp: rs_def)
    then have "\<not> ?P (hd (dropWhile ?P ts))" and "hd (dropWhile ?P ts) \<in> set ts"
      by (rule hd_dropWhile, meson hd_in_set set_dropWhileD)
    then show ?thesis
      using represents_timeout [OF assms] ne by (simp add: rs_def hd_map not_le)
  qed
  have "timers h es @ timers h rs = takeWhile ?P ts @ dropWhile ?P ts"
    using r (2) xs by (metis map_append takeWhile_dropWhile_id timers_def)
  moreover have "length (timers h es) = length (takeWhile ?P ts)"
    by (simp add: timers_def es_def)
  ultimately have "dropWhile ?P ts = timers h rs"
    by (metis append_eq_append_conv)
  then show ?thesis
    using that [OF es_def xs] r (1) xs le gt by simp
qed

lemma get_expired_none:
  assumes "timer_list first h rs" and "rs \<noteq> [] \<Longrightarrow> time < tmo h (hd rs)"
  shows "get_expired_dlgs first h time = Some (h, 0)"
proof (cases rs)
  case Nil
  then obtain f where "h first = Some f" "tl_next f = first"
    using assms (1) by (auto simp: timer_list_def)
  then show ?thesis
    by (simp add: get_expired_dlgs_def)
next
  case (Cons x xs)
  then obtain f c where "h first = Some f" "tl_next f = x" "h x = Some c" "x \<noteq> first" "time < tl_timeout c"
    using assms by (auto simp: timer_list_def)
  then show ?thesis
    by (simp add: get_expired_dlgs_def)
qed

text \<open>
  C20. A run of the timer at time \<open>ticks\<close> calls the handler for exactly the nodes whose timeout
  has come, each once, in the order of their timeouts, and leaves the others in the list.
\<close>

theorem timer_routine_fires:
  assumes "represents first h ts" and "handler_ok hdl act upd"
  shows "\<exists>h'. dlg_timer_routine first hdl (h, s) ticks =
      Some (h', fold upd (map fst (takeWhile (\<lambda>y. snd y \<le> ticks) ts)) s)
    \<and> represents first h' (dropWhile (\<lambda>y. snd y \<le> ticks) ts)"
proof -
  obtain es rs where es: "es = map fst (takeWhile (\<lambda>y. snd y \<le> ticks) ts)" and xs: "map fst ts = es @ rs"
    and tl: "timer_list first h (es @ rs)" and le: "\<And>e. e \<in> set es \<Longrightarrow> tmo h e \<le> ticks"
    and gt: "rs \<noteq> [] \<Longrightarrow> ticks < tmo h (hd rs)" and ts': "dropWhile (\<lambda>y. snd y \<le> ticks) ts = timers h rs"
    using assms (1) by (rule represents_split [where time = ticks]) blast
  note r = representsD [OF assms (1)]
  show ?thesis
  proof (cases "es = []")
    case True
    then have "timers h rs = ts"
      using r (2) xs by (metis append_Nil)
    then show ?thesis
      using True tl gt assms (1) get_expired_none [of first h rs ticks]
      by (simp add: dlg_timer_routine_def fire_expired.simps [of _ _ 0] flip: es) (simp add: ts')
  next
    case False
    obtain h1 where h1: "get_expired_dlgs first h ticks = Some (h1, hd es)" "pending h1 (hd es) es"
        "timer_list first h1 rs" "tmo h1 = tmo h" "dom h1 = dom h" "\<And>y. y \<notin> set (first # es @ rs) \<Longrightarrow> h1 y = h y"
      using get_expired_list [OF tl False le gt] by blast
    have ds: "distinct (first # es @ rs)"
      using tl by (simp add: timer_list_def)
    then obtain h2 where h2: "fire_expired hdl (h1, s) (hd es) = Some (h2, fold upd es s)"
        "\<And>y. y \<notin> set es \<Longrightarrow> h2 y = h1 y" "\<And>e c. e \<in> set es \<Longrightarrow> h2 e = Some c \<Longrightarrow> unlinked c"
      using fire_expired_list [OF assms (2) h1 (2), of s] by auto
    have in_rs: "h2 y = h1 y" if "y \<in> set (first # rs)" for y
      using that ds by (intro h2 (2)) auto
    have "timer_list first h2 rs"
      using h1 (3) timer_list_cong [OF in_rs] by simp
    moreover have "timers h2 rs = timers h rs"
      using in_rs fun_cong [OF h1 (4)] by (intro timers_cong) auto
    moreover have "h2 0 = None"
      using tl h2 (2) [of 0] r (3) h1 (5) by (simp add: timer_list_def) (metis domIff)
    moreover have "unlinked c" if "h2 x = Some c" "x \<notin> set (first # rs)" for x c
    proof (cases "x \<in> set es")
      case True
      then show ?thesis using that h2 (3) by blast
    next
      case False
      then have "h x = Some c" using that h2 (2) h1 (6) by auto
      then show ?thesis using that False assms (1) xs by (auto simp: represents_def)
    qed
    ultimately have "represents first h2 (timers h rs)"
      unfolding represents_def by simp
    then show ?thesis
      using h1 (1) h2 (1) es ts' by (auto simp: dlg_timer_routine_def)
  qed
qed

section \<open>Reachable stores and witnesses\<close>

lemma represents_init:
  assumes "h 0 = None" and "first \<noteq> 0" and "\<And>x c. h x = Some c \<Longrightarrow> x \<noteq> first \<Longrightarrow> unlinked c"
  shows "represents first (init_dlg_timer h first) []"
  using assms by (auto simp: represents_def timer_list_def init_dlg_timer_def timers_def)

lemma represents_new:
  assumes "represents first h ts" and "h x = None" and "x \<noteq> 0"
  shows "represents first (h(x \<mapsto> \<lparr>tl_next = 0, tl_prev = 0, tl_timeout = k\<rparr>)) ts"
proof -
  note r = representsD [OF assms (1)]
  have x: "x \<notin> set (first # map fst ts)"
    using assms (2) r (1) by (auto simp: timer_list_def)
  have "timers (h(x \<mapsto> \<lparr>tl_next = 0, tl_prev = 0, tl_timeout = k\<rparr>)) (map fst ts) = timers h (map fst ts)"
    by (rule timers_cong) (use x in auto)
  then show ?thesis
    using assms x r timer_list_upd [OF x, of h] by (auto simp: represents_def unlinked_def)
qed

lemma represents_free:
  assumes "represents first h ts" and "x \<notin> set (first # map fst ts)"
  shows "represents first (h(x := None)) ts"
proof -
  note r = representsD [OF assms (1)]
  have "timer_list first (h(x := None)) (map fst ts)"
    using r (1) assms (2) timer_list_cong [of first "map fst ts" "h(x := None)" h] by fastforce
  moreover have "timers (h(x := None)) (map fst ts) = timers h (map fst ts)"
    by (rule timers_cong) (use assms (2) in auto)
  ultimately show ?thesis
    using assms (1) r by (auto simp: represents_def)
qed

definition sample_timers :: tl_heap where
  "sample_timers = [1 \<mapsto> \<lparr>tl_next = 2, tl_prev = 3, tl_timeout = 0\<rparr>, 2 \<mapsto> \<lparr>tl_next = 3, tl_prev = 1, tl_timeout = 5\<rparr>,
     3 \<mapsto> \<lparr>tl_next = 1, tl_prev = 2, tl_timeout = 9\<rparr>, 4 \<mapsto> \<lparr>tl_next = 0, tl_prev = 0, tl_timeout = 0\<rparr>]"

lemma sample_timers_represents: "represents 1 sample_timers [(2, 5), (3, 9)]"
  by (auto simp: represents_def timer_list_def timers_def sample_timers_def unlinked_def split: if_splits)

theorem timer_ops_refine_witness:
  "\<exists>h'. insert_dlg_timer 1 0 sample_timers 4 7 = Some (h', 0) \<and> represents 1 h' [(2, 5), (4, 7), (3, 9)]"
  using timer_ops_refine [OF sample_timers_represents, of 4 0 7]
  by (simp add: sample_timers_def [THEN fun_cong, of 4] dom_def sp_insert_def)

theorem timer_routine_fires_witness:
  "\<exists>h'. dlg_timer_routine 1 (\<lambda>x (h, s). Some (h(x := None), s @ [x])) (sample_timers, []) 6 = Some (h', [2])
    \<and> represents 1 h' [(3, 9)]"
  using timer_routine_fires [OF sample_timers_represents, of "\<lambda>x (h, s). Some (h(x := None), s @ [x])" "\<lambda>x h. h(x := None)"
      "\<lambda>x s. s @ [x]" "[]" 6]
  by (simp add: handler_ok_def)

text \<open>
  C21. The last expired node looks as if it were not in use: both its links are null.  If
  \<open>update_dlg_timer\<close> runs for it before the routine has come to it, the update files it again
  and reports success.  The routine then takes the node behind it, which is a live timer or the list
  head, for the next expired one, and breaks the list: removing the updated timer follows a null
  pointer.
\<close>

theorem expired_update_race:
  assumes "represents first h ((z, k) # ts)" and "k \<le> now" and "\<forall>y \<in> set ts. now < snd y"
  shows "\<exists>h1 h2 h3 n. get_expired_dlgs first h now = Some (h1, z) \<and> update_dlg_timer first ticks h1 z i = Some (h2, 0)
    \<and> pop_expired h2 z = Some (h3, n) \<and> n \<in> set (first # map fst ts) \<and> n \<noteq> 0 \<and> remove_dlg_timer h3 z = None"
proof -
  have tw: "takeWhile (\<lambda>y. snd y \<le> now) ts = []"
    using assms (3) by (cases ts) (auto simp: not_le)
  obtain rs where xs: "map fst ((z, k) # ts) = [z] @ rs" and tl: "timer_list first h ([z] @ rs)"
    and le: "\<And>e. e \<in> set [z] \<Longrightarrow> tmo h e \<le> now" and gt: "rs \<noteq> [] \<Longrightarrow> now < tmo h (hd rs)"
    using assms (1) by (rule represents_split [where time = now]) (use assms (2) tw in auto)
  have "[z] \<noteq> []"
    by simp
  then obtain h1 where h1: "get_expired_dlgs first h now = Some (h1, hd [z])" "pending h1 (hd [z]) [z]"
      "timer_list first h1 rs" "tmo h1 = tmo h" "dom h1 = dom h" "\<And>y. y \<notin> set (first # [z] @ rs) \<Longrightarrow> h1 y = h y"
    using get_expired_list [OF tl _ le gt] by blast
  note r = representsD [OF assms (1)]
  obtain c where c: "h1 z = Some c" "unlinked c"
    using h1 (2) by (auto simp: unlinked_def)
  have rs: "rs = map fst ts"
    using xs by simp
  have zt: "z \<notin> set (first # map fst ts)"
    using r (1) by (auto simp: timer_list_def)
  have "ts = timers h (map fst ts)"
    using r (2) by (simp add: timers_def)
  also have "\<dots> = timers h1 (map fst ts)"
    by (rule timers_cong) (use fun_cong [OF h1 (4)] in auto)
  finally have ts: "ts = timers h1 (map fst ts)" .
  have rep: "represents first h1 ts"
  proof (rule represents_frame [OF assms (1), where t = z])
    show "h1 0 = None" using r (3) h1 (5) by (metis domIff)
  qed (use h1 (3,6) ts c zt in \<open>auto simp: rs\<close>)
  obtain h2 where h2: "update_dlg_timer first ticks h1 z i = Some (h2, 0)" "represents first h2 (sp_insert (z, ticks + i) ts)"
    using insert_represents [OF rep c (1) zt, of "ticks + i"] c
    by (auto simp: update_dlg_timer_def unlinked_def bind_eq_Some_conv)
  obtain ys zs where sp: "map fst (sp_insert (z, ticks + i) ts) = ys @ z # zs"
    using set_sp_insert [of z "ticks + i" ts] split_list [of z] by (metis insertI1)
  obtain d ca where d: "h2 z = Some d" "h2 (tl_prev d) = Some ca" "z \<noteq> tl_prev d" "tl_prev d \<noteq> 0" "tl_next d \<noteq> 0"
      "tl_next d = hd (zs @ [first])"
    using timer_list_neighbours [of first h2 ys z zs] representsD (1) [OF h2 (2)] sp by metis
  have "tl_next d \<in> set (first # map fst ts)"
    using hd_in [of zs first] d (6) sp set_sp_insert [of z "ticks + i" ts] representsD (1) [OF h2 (2)]
    by (auto simp: timer_list_def)
  moreover have "h2 0 = None" and "z \<noteq> 0"
    using representsD (3) [OF h2 (2)] d (1) by (auto intro: ccontr)
  ultimately show ?thesis
    using h1 (1) h2 (1) d
    by (auto simp: pop_expired_def remove_dlg_timer_def remove_dlg_timer_unsafe_def tl_store)
qed

theorem expired_update_race_witness:
  "\<exists>h1 h2 h3 n. get_expired_dlgs 1 sample_timers 6 = Some (h1, 2) \<and> update_dlg_timer 1 6 h1 2 60 = Some (h2, 0)
    \<and> pop_expired h2 2 = Some (h3, n) \<and> n \<in> set [1, 3] \<and> remove_dlg_timer h3 2 = None"
  using expired_update_race [OF sample_timers_represents, of 6 6 60] by auto

end
