(* ===== verification/HashFunc.thy ===== *)
theory HashFunc
  imports Prelude
begin

text \<open>
  The hash functions of \<open>hash_func.h\<close>, in 32-bit arithmetic on signed characters.  The two
  functions of the source differ only in the macro \<open>ch_icase\<close> around every character, which
  is the argument \<open>f\<close> of the loop here.
\<close>

unbundle bit_operations_syntax

definition ch_h_inc :: "u32 \<Rightarrow> u32 \<Rightarrow> u32" where
  "ch_h_inc h v = h + (v XOR drop_bit 3 v)"

definition ch_plain :: "char \<Rightarrow> u32" where
  "ch_plain c = word_of_int (schar c)"

definition ch_icase :: "char \<Rightarrow> u32" where
  "ch_icase c = (if schar c \<ge> schar CHR ''A'' \<and> schar c \<le> schar CHR ''Z'' then ch_plain c OR 0x20 else ch_plain c)"

fun hash_str :: "(char \<Rightarrow> u32) \<Rightarrow> string \<Rightarrow> u32 \<Rightarrow> u32" where
  "hash_str f (a # b # c # d # cs) h =
     (let v = push_bit 24 (f a) + push_bit 16 (f b) + push_bit 8 (f c) + f d
      in hash_str f cs (ch_h_inc h v))"
| "hash_str f cs h = ch_h_inc h (foldl (\<lambda>v c. push_bit 8 v + f c) 0 cs)"

definition hash_fold :: "u32 \<Rightarrow> u32 \<Rightarrow> u32" where
  "hash_fold h sz =
     (let h = (h + drop_bit 11 h) + (drop_bit 13 h + drop_bit 23 h)
      in if sz \<noteq> 0 then h AND (sz - 1) else h)"

definition core_hash :: "string \<Rightarrow> string option \<Rightarrow> u32 \<Rightarrow> u32" where
  "core_hash s1 s2 sz =
     (let h = hash_str ch_plain s1 0;
          h = (case s2 of Some s \<Rightarrow> hash_str ch_plain s h | None \<Rightarrow> h)
      in hash_fold h sz)"

definition core_case_hash :: "string \<Rightarrow> string option \<Rightarrow> u32 \<Rightarrow> u32" where
  "core_case_hash s1 s2 sz =
     (let h = hash_str ch_icase s1 0;
          h = (case s2 of Some s \<Rightarrow> hash_str ch_icase s h | None \<Rightarrow> h)
      in hash_fold h sz)"

lemma hash_fold_less: "sz \<noteq> 0 \<Longrightarrow> hash_fold h sz < sz"
proof -
  assume "sz \<noteq> 0"
  then have "sz - 1 < sz"
    using unat_sub [of 1 sz] by (simp add: word_less_nat_alt word_le_nat_alt word_unat_eq_iff)
  moreover have "hash_fold h sz \<le> sz - 1"
    using \<open>sz \<noteq> 0\<close> word_and_le1 by (simp add: hash_fold_def Let_def)
  ultimately show ?thesis
    by (rule le_less_trans [rotated])
qed

lemma core_hash_less: "sz \<noteq> 0 \<Longrightarrow> core_hash s1 s2 sz < sz"
  by (simp add: core_hash_def Let_def hash_fold_less)

text \<open>The case-insensitive hash does not see the case of letters.\<close>

lemma or_32_letters: "65 \<le> n \<Longrightarrow> n \<le> 90 \<Longrightarrow> (of_nat n :: u32) OR 0x20 = of_nat (n + 32)"
proof -
  assume "65 \<le> n" and "n \<le> 90"
  then have n: "n \<in> set [65..<91]"
    unfolding set_upt by simp
  have "list_all (\<lambda>n. (of_nat n :: u32) OR 0x20 = of_nat (n + 32)) [65..<91]"
    by code_simp
  then have "\<forall>n \<in> set [65..<91]. (of_nat n :: u32) OR 0x20 = of_nat (n + 32)"
    unfolding list_all_iff .
  then show ?thesis
    using n by (rule bspec)
qed

lemma ch_icase_tolower: "ch_icase (tolower c) = ch_icase c"
proof (cases "65 \<le> uchar c \<and> uchar c \<le> 90")
  case True
  then have "ch_icase c = of_nat (uchar c) OR 0x20"
    by (simp add: ch_icase_def ch_plain_def schar_def char_simps)
  moreover have "ch_icase (tolower c) = of_nat (uchar c + 32)"
    using True by (simp add: ch_icase_def ch_plain_def schar_def tolower_def char_simps)
  ultimately show ?thesis
    using True or_32_letters [of "uchar c"] by simp
qed (auto simp: tolower_def)

lemma hash_str_map: "hash_str f (map g s) h = hash_str (\<lambda>c. f (g c)) s h"
  by (induction "\<lambda>c. f (g c)" s h rule: hash_str.induct) (simp_all add: Let_def)

lemma core_case_hash_cong:
  assumes "map tolower s = map tolower t"
  shows "core_case_hash s None sz = core_case_hash t None sz"
proof -
  have "hash_str ch_icase (map tolower u) h = hash_str ch_icase u h" for u h
    by (simp add: hash_str_map ch_icase_tolower)
  then show ?thesis
    using assms by (metis core_case_hash_def)
qed

end
