(* ===== verification/DlgHash.thy ===== *)
theory DlgHash
  imports DlgTimer HashFunc
begin

text \<open>
  The dialogs and their hash table (\<open>modules/dialog/dlg_hash.c\<close>, \<open>dlg_cb.c\<close>).

  Dialogs live in a store of cells; an address that is not in the store has been freed, and so is a
  string block that is not in \<open>w_blocks\<close>.  An operation that follows a freed address, or frees
  a block twice, has the result \<open>None\<close>.  The doubly linked list of an entry of the table is
  the list of the addresses of its cells.  The timer node of a dialog has the address of the dialog.
  The table is locked entry by entry, so every operation is one atomic step.  Reference counts are
  unbounded: the \<open>int\<close> of the source is taken not to overflow.
\<close>

section \<open>Data\<close>

datatype dlg_state =
    DLG_STATE_UNCONFIRMED | DLG_STATE_EARLY | DLG_STATE_CONFIRMED_NA | DLG_STATE_CONFIRMED | DLG_STATE_DELETED

datatype dlg_event =
    DLG_EVENT_TDEL | DLG_EVENT_RPL1xx | DLG_EVENT_RPL2xx | DLG_EVENT_RPL3xx
  | DLG_EVENT_REQPRACK | DLG_EVENT_REQACK | DLG_EVENT_REQBYE | DLG_EVENT_REQ

definition DLG_FLAG_NEW :: u32 where "DLG_FLAG_NEW = 1"
definition DLG_FLAG_CHANGED :: u32 where "DLG_FLAG_CHANGED = 2"
definition DLG_FLAG_HASBYE :: u32 where "DLG_FLAG_HASBYE = 4"

datatype dlg_leg = DLG_CALLER_LEG | DLG_CALLEE_LEG

datatype dlg_dir = DLG_DIR_NONE | DLG_DIR_DOWNSTREAM | DLG_DIR_UPSTREAM

record leg_info =
  lg_tag_s :: "nat option"
  lg_cseq_s :: "nat option"
  lg_tag :: string
  lg_cseq :: string
  lg_contact :: string
  lg_route_set :: string
  lg_bind_addr :: "nat option"

record dlg_callback =
  cb_types :: u32
  cb_callback :: nat

record dlg_cell =
  d_ref :: int
  d_h_id :: u32
  d_h_entry :: u32
  d_state :: dlg_state
  d_lifetime :: u32
  d_start_ts :: u32
  d_flags :: u32
  d_from_rr_nb :: u32
  d_callid :: string
  d_from_uri :: string
  d_to_uri :: string
  d_leg :: "dlg_leg \<Rightarrow> leg_info"
  d_cbs :: "dlg_callback list"
  d_cbs_types :: u32

record dlg_entry =
  e_cells :: "nat list"
  e_next_id :: u32
  e_lock_idx :: u32

text \<open>The statistics of the module, and the requests to the database with the values they write.\<close>

record dlg_stats =
  active_dlgs :: u32
  early_dlgs :: u32
  processed_dlgs :: u32
  expired_dlgs :: u32
  failed_dlgs :: u32

datatype dlg_db_op =
    DbInsert u32 u32 dlg_cell u32
  | DbUpdate u32 u32 dlg_state u32 string string
  | DbDelete u32 u32

text \<open>
  The table \<open>d_table\<close>, the timer list \<open>d_timer\<close> and the other globals of the module.
  \<open>w_calls\<close> records the calls of callbacks: the callback, the type and the dialog;
  \<open>w_tmcb\<close> the dialogs for which a transaction holds a registered callback.
\<close>

record dlg_world =
  w_cells :: "nat \<rightharpoonup> dlg_cell"
  w_size :: u32
  w_entries :: "u32 \<Rightarrow> dlg_entry"
  w_locks_no :: u32
  w_timer :: tl_heap
  w_first :: nat
  w_blocks :: "nat set"
  w_create_cbs :: "dlg_callback list"
  w_tmcb :: "nat set"
  w_calls :: "(nat \<times> u32 \<times> nat) list"
  w_stats :: dlg_stats
  w_db :: "dlg_db_op list"
  w_curr :: "u32 \<times> u32 \<times> dlg_state"
  w_shutdown :: bool

definition upd_cell :: "nat \<Rightarrow> (dlg_cell \<Rightarrow> dlg_cell) \<Rightarrow> dlg_world \<Rightarrow> dlg_world option" where
  "upd_cell a f w = (case w_cells w a of None \<Rightarrow> None | Some c \<Rightarrow> Some (w\<lparr>w_cells := (w_cells w)(a \<mapsto> f c)\<rparr>))"

definition upd_entry :: "u32 \<Rightarrow> (dlg_entry \<Rightarrow> dlg_entry) \<Rightarrow> dlg_world \<Rightarrow> dlg_world" where
  "upd_entry i f w = w\<lparr>w_entries := (w_entries w)(i := f (w_entries w i))\<rparr>"

definition shm_free :: "nat option \<Rightarrow> dlg_world \<Rightarrow> dlg_world option" where
  "shm_free p w =
     (case p of None \<Rightarrow> Some w
      | Some b \<Rightarrow> if b \<in> w_blocks w then Some (w\<lparr>w_blocks := w_blocks w - {b}\<rparr>) else None)"

section \<open>Creation and destruction\<close>

text \<open>
  \<open>init_dlg_table\<close>, \<open>None\<close> when it returns -1.  \<open>locks n\<close> says whether a set of
  \<open>n\<close> locks can be had, \<open>rand\<close> gives the first identifier of every entry.
\<close>

definition MAX_LDG_LOCKS :: nat where "MAX_LDG_LOCKS = 2048"
definition MIN_LDG_LOCKS :: nat where "MIN_LDG_LOCKS = 2"

fun find_locks :: "(nat \<Rightarrow> bool) \<Rightarrow> nat \<Rightarrow> nat option" where
  "find_locks locks 0 = None"
| "find_locks locks (Suc n) =
     (if Suc n < MIN_LDG_LOCKS then None else if locks (Suc n) then Some (Suc n) else find_locks locks n)"

definition init_dlg_table ::
  "bool \<Rightarrow> (nat \<Rightarrow> bool) \<Rightarrow> (u32 \<Rightarrow> u32) \<Rightarrow> u32 \<Rightarrow> dlg_world \<Rightarrow> dlg_world option" where
  "init_dlg_table mem locks rand sz w =
     (if \<not> mem then None
      else do { n \<leftarrow> find_locks locks (if unat sz < MAX_LDG_LOCKS then unat sz else MAX_LDG_LOCKS);
                Some (w\<lparr>w_size := sz, w_locks_no := of_nat n,
                        w_entries := (\<lambda>i. \<lparr>e_cells = [], e_next_id = rand i, e_lock_idx = i mod of_nat n\<rparr>)\<rparr>) })"

definition no_leg :: leg_info where
  "no_leg = \<lparr>lg_tag_s = None, lg_cseq_s = None, lg_tag = [], lg_cseq = [], lg_contact = [], lg_route_set = [], lg_bind_addr = None\<rparr>"

definition destroy_dlg :: "nat \<Rightarrow> dlg_world \<Rightarrow> dlg_world option" where
  "destroy_dlg dlg w =
     do { c \<leftarrow> w_cells w dlg;
          (t, _) \<leftarrow> remove_dlg_timer (w_timer w) dlg;
          w \<leftarrow> shm_free (lg_tag_s (d_leg c DLG_CALLER_LEG)) (w\<lparr>w_timer := t\<rparr>);
          w \<leftarrow> shm_free (lg_tag_s (d_leg c DLG_CALLEE_LEG)) w;
          w \<leftarrow> shm_free (lg_cseq_s (d_leg c DLG_CALLER_LEG)) w;
          w \<leftarrow> shm_free (lg_cseq_s (d_leg c DLG_CALLEE_LEG)) w;
          Some (w\<lparr>w_cells := (w_cells w)(dlg := None), w_timer := (w_timer w)(dlg := None)\<rparr>) }"

fun destroy_dlgs :: "nat list \<Rightarrow> dlg_world \<Rightarrow> dlg_world option" where
  "destroy_dlgs [] w = Some w"
| "destroy_dlgs (dlg # ds) w = do { w \<leftarrow> destroy_dlg dlg w; destroy_dlgs ds w }"

text \<open>\<open>destroy_dlg_table\<close>: every cell of every entry.  The entries go with the table and are left empty.\<close>

fun destroy_entries :: "nat \<Rightarrow> dlg_world \<Rightarrow> dlg_world option" where
  "destroy_entries 0 w = Some w"
| "destroy_entries (Suc i) w =
     do { w \<leftarrow> destroy_entries i w;
          w \<leftarrow> destroy_dlgs (e_cells (w_entries w (of_nat i))) w;
          Some (upd_entry (of_nat i) (e_cells_update (\<lambda>_. [])) w) }"

definition destroy_dlg_table :: "dlg_world \<Rightarrow> dlg_world option" where
  "destroy_dlg_table w = destroy_entries (unat (w_size w)) w"

text \<open>\<open>build_new_dlg\<close>; \<open>mem\<close> is the address the allocator returns.\<close>

definition build_new_dlg ::
  "nat option \<Rightarrow> string \<Rightarrow> string \<Rightarrow> string \<Rightarrow> string \<Rightarrow> dlg_world \<Rightarrow> dlg_world \<times> nat option" where
  "build_new_dlg mem callid from_uri to_uri from_tag w =
     (case mem of
        None \<Rightarrow> (w, None)
      | Some a \<Rightarrow>
          (w\<lparr>w_cells := (w_cells w)(a \<mapsto>
               \<lparr>d_ref = 0, d_h_id = 0,
                d_h_entry = core_hash callid (if from_tag \<noteq> [] then Some from_tag else None) (w_size w),
                d_state = DLG_STATE_UNCONFIRMED, d_lifetime = 0, d_start_ts = 0, d_flags = 0, d_from_rr_nb = 0,
                d_callid = callid, d_from_uri = from_uri, d_to_uri = to_uri, d_leg = (\<lambda>_. no_leg),
                d_cbs = [], d_cbs_types = 0\<rparr>),
             w_timer := (w_timer w)(a \<mapsto> \<lparr>tl_next = 0, tl_prev = 0, tl_timeout = 0\<rparr>)\<rparr>, Some a))"

text \<open>
  \<open>dlg_set_leg_info\<close> with the two blocks the allocator returns.  When one of the allocations
  fails the other block is freed, but its address stays in the dialog.
\<close>

definition set_leg :: "dlg_leg \<Rightarrow> (leg_info \<Rightarrow> leg_info) \<Rightarrow> dlg_cell \<Rightarrow> dlg_cell" where
  "set_leg leg f c = c\<lparr>d_leg := (d_leg c)(leg := f (d_leg c leg))\<rparr>"

definition alloc :: "nat option \<Rightarrow> dlg_world \<Rightarrow> dlg_world" where
  "alloc p w = (case p of None \<Rightarrow> w | Some b \<Rightarrow> w\<lparr>w_blocks := insert b (w_blocks w)\<rparr>)"

definition dlg_set_leg_info ::
  "nat option \<Rightarrow> nat option \<Rightarrow> nat \<Rightarrow> string \<Rightarrow> string \<Rightarrow> string \<Rightarrow> string \<Rightarrow> dlg_leg \<Rightarrow> dlg_world \<Rightarrow>
    (dlg_world \<times> int) option" where
  "dlg_set_leg_info m1 m2 dlg tag rr contact cseq leg w =
     do { w \<leftarrow> upd_cell dlg (set_leg leg (\<lambda>l. l\<lparr>lg_tag_s := m1, lg_cseq_s := m2\<rparr>)) (alloc m2 (alloc m1 w));
          if m1 = None \<or> m2 = None
          then do { w \<leftarrow> shm_free m1 w; w \<leftarrow> shm_free m2 w; Some (w, - 1) }
          else do { w \<leftarrow> upd_cell dlg (set_leg leg (\<lambda>l. l\<lparr>lg_tag := tag, lg_contact := contact,
                            lg_route_set := (if rr \<noteq> [] then rr else lg_route_set l), lg_cseq := cseq\<rparr>)) w;
                    Some (w, 0) } }"

text \<open>\<open>dlg_update_cseq\<close>; \<open>m\<close> is the block for a longer number, when one is needed.\<close>

definition dlg_update_cseq :: "nat option \<Rightarrow> nat \<Rightarrow> dlg_leg \<Rightarrow> string \<Rightarrow> dlg_world \<Rightarrow> (dlg_world \<times> int) option" where
  "dlg_update_cseq m dlg leg cseq w =
     do { c \<leftarrow> w_cells w dlg;
          let l = d_leg c leg;
          if lg_cseq_s l \<noteq> None \<and> \<not> length (lg_cseq l) < length cseq
          then do { w \<leftarrow> upd_cell dlg (set_leg leg (\<lambda>l. l\<lparr>lg_cseq := cseq\<rparr>)) w; Some (w, 0) }
          else do { w \<leftarrow> shm_free (lg_cseq_s l) w;
                    w \<leftarrow> upd_cell dlg (set_leg leg (\<lambda>l. l\<lparr>lg_cseq_s := m\<rparr>)) (alloc m w);
                    if m = None then Some (w, - 1)
                    else do { w \<leftarrow> upd_cell dlg (set_leg leg (\<lambda>l. l\<lparr>lg_cseq := cseq\<rparr>)) w; Some (w, 0) } } }"

section \<open>Matching and lookup\<close>

definition str_eq :: "string \<Rightarrow> string \<Rightarrow> bool" where
  "str_eq a b \<longleftrightarrow> length a = length b \<and> strncmp_eq (length b) a b"

text \<open>\<open>match_dialog\<close>, with the direction it is given and the one it sets.\<close>

definition match_dialog :: "dlg_cell \<Rightarrow> string \<Rightarrow> string \<Rightarrow> string \<Rightarrow> dlg_dir \<Rightarrow> bool \<times> dlg_dir" where
  "match_dialog c callid ftag ttag dir =
     (let caller = lg_tag (d_leg c DLG_CALLER_LEG); callee = lg_tag (d_leg c DLG_CALLEE_LEG)
      in case dir of
        DLG_DIR_DOWNSTREAM \<Rightarrow>
          (str_eq (d_callid c) callid \<and> str_eq caller ftag \<and> str_eq callee ttag, dir)
      | DLG_DIR_UPSTREAM \<Rightarrow>
          (str_eq (d_callid c) callid \<and> str_eq callee ftag \<and> str_eq caller ttag, dir)
      | DLG_DIR_NONE \<Rightarrow>
          if length (d_callid c) \<noteq> length callid then (False, dir)
          else if length callee = length ftag \<and> length caller = length ttag
          then if \<not> strncmp_eq (length callid) (d_callid c) callid then (False, dir)
               else if length ftag = length ttag
               then if strncmp_eq (length ftag) callee ftag \<and> strncmp_eq (length ttag) caller ttag
                    then (True, DLG_DIR_UPSTREAM)
                    else if strncmp_eq (length ftag) caller ftag \<and> strncmp_eq (length ttag) callee ttag
                    then (True, DLG_DIR_DOWNSTREAM)
                    else (False, dir)
               else if \<not> strncmp_eq (length ftag) callee ftag \<or> \<not> strncmp_eq (length ttag) caller ttag
               then (False, dir)
               else (True, DLG_DIR_UPSTREAM)
          else if length caller = length ftag \<and> length callee = length ttag
          then if \<not> strncmp_eq (length callid) (d_callid c) callid \<or> \<not> strncmp_eq (length ftag) caller ftag
                  \<or> \<not> strncmp_eq (length ttag) callee ttag
               then (False, dir)
               else (True, DLG_DIR_DOWNSTREAM)
          else (False, dir))"

definition ref_dlg_unsafe :: "nat \<Rightarrow> int \<Rightarrow> dlg_world \<Rightarrow> dlg_world option" where
  "ref_dlg_unsafe dlg cnt w = upd_cell dlg (\<lambda>c. c\<lparr>d_ref := d_ref c + cnt\<rparr>) w"

fun find_id :: "dlg_world \<Rightarrow> u32 \<Rightarrow> nat list \<Rightarrow> nat option option" where
  "find_id w h_id [] = Some None"
| "find_id w h_id (dlg # ds) =
     (case w_cells w dlg of
        None \<Rightarrow> None
      | Some c \<Rightarrow>
          if d_h_id c = h_id then Some (if d_state c = DLG_STATE_DELETED then None else Some dlg)
          else find_id w h_id ds)"

definition lookup_dlg :: "u32 \<Rightarrow> u32 \<Rightarrow> dlg_world \<Rightarrow> (dlg_world \<times> nat option) option" where
  "lookup_dlg h_entry h_id w =
     (if h_entry \<ge> w_size w then Some (w, None)
      else do { r \<leftarrow> find_id w h_id (e_cells (w_entries w h_entry));
                case r of
                  None \<Rightarrow> Some (w, None)
                | Some dlg \<Rightarrow> do { w \<leftarrow> ref_dlg_unsafe dlg 1 w; Some (w, Some dlg) } })"

fun find_match :: "dlg_world \<Rightarrow> string \<Rightarrow> string \<Rightarrow> string \<Rightarrow> dlg_dir \<Rightarrow> nat list \<Rightarrow> (nat option \<times> dlg_dir) option" where
  "find_match w callid ftag ttag dir [] = Some (None, dir)"
| "find_match w callid ftag ttag dir (dlg # ds) =
     (case w_cells w dlg of
        None \<Rightarrow> None
      | Some c \<Rightarrow>
          (case match_dialog c callid ftag ttag dir of
             (True, dir) \<Rightarrow> Some (if d_state c = DLG_STATE_DELETED then None else Some dlg, dir)
           | (False, dir) \<Rightarrow> find_match w callid ftag ttag dir ds))"

definition internal_get_dlg ::
  "u32 \<Rightarrow> string \<Rightarrow> string \<Rightarrow> string \<Rightarrow> dlg_dir \<Rightarrow> dlg_world \<Rightarrow> (dlg_world \<times> nat option \<times> dlg_dir) option" where
  "internal_get_dlg h_entry callid ftag ttag dir w =
     do { (r, dir) \<leftarrow> find_match w callid ftag ttag dir (e_cells (w_entries w h_entry));
          case r of
            None \<Rightarrow> Some (w, None, dir)
          | Some dlg \<Rightarrow> do { w \<leftarrow> ref_dlg_unsafe dlg 1 w; Some (w, Some dlg, dir) } }"

definition get_dlg ::
  "string \<Rightarrow> string \<Rightarrow> string \<Rightarrow> dlg_dir \<Rightarrow> dlg_world \<Rightarrow> (dlg_world \<times> nat option \<times> dlg_dir) option" where
  "get_dlg callid ftag ttag dir w =
     do { (w, r, dir) \<leftarrow> internal_get_dlg (core_hash callid (if ftag \<noteq> [] then Some ftag else None) (w_size w))
                          callid ftag ttag dir w;
          if r \<noteq> None then Some (w, r, dir)
          else internal_get_dlg (core_hash callid (if ttag \<noteq> [] then Some ttag else None) (w_size w))
                 callid ftag ttag dir w }"

section \<open>Links and references\<close>

definition link_dlg :: "nat \<Rightarrow> int \<Rightarrow> dlg_world \<Rightarrow> dlg_world option" where
  "link_dlg dlg n w =
     do { c \<leftarrow> w_cells w dlg;
          let e = w_entries w (d_h_entry c);
          w \<leftarrow> upd_cell dlg (\<lambda>c. c\<lparr>d_h_id := e_next_id e, d_ref := d_ref c + (1 + n)\<rparr>) w;
          Some (upd_entry (d_h_entry c) (\<lambda>e. e\<lparr>e_cells := e_cells e @ [dlg], e_next_id := e_next_id e + 1\<rparr>) w) }"

text \<open>
  \<open>unlink_unsafe_dlg\<close>.  A cell that is not linked has two null links, and unlinking it clears
  both ends of the list of the entry.
\<close>

definition unlink_unsafe_dlg :: "nat \<Rightarrow> dlg_entry \<Rightarrow> dlg_entry" where
  "unlink_unsafe_dlg dlg e = e\<lparr>e_cells := (if dlg \<in> set (e_cells e) then remove1 dlg (e_cells e) else [])\<rparr>"

definition unref_dlg :: "nat \<Rightarrow> int \<Rightarrow> dlg_world \<Rightarrow> dlg_world option" where
  "unref_dlg dlg cnt w =
     do { w \<leftarrow> ref_dlg_unsafe dlg (- cnt) w;
          c \<leftarrow> w_cells w dlg;
          if d_ref c \<le> 0 then destroy_dlg dlg (upd_entry (d_h_entry c) (unlink_unsafe_dlg dlg) w)
          else Some w }"

section \<open>The state machine\<close>

text \<open>
  \<open>next_state_dlg\<close>: the world, the old state, the new state, and the value \<open>unref\<close> if it is
  set.  The new state is read from the dialog at the end; when the dialog has just been destroyed it
  is whatever the freed memory holds, \<open>stale\<close>.
\<close>

definition set_state :: "nat \<Rightarrow> dlg_state \<Rightarrow> dlg_world \<Rightarrow> dlg_world option" where
  "set_state dlg s w = upd_cell dlg (\<lambda>c. c\<lparr>d_state := s\<rparr>) w"

definition next_state_dlg ::
  "dlg_state \<Rightarrow> nat \<Rightarrow> dlg_event \<Rightarrow> dlg_world \<Rightarrow> (dlg_world \<times> dlg_state \<times> dlg_state \<times> int option) option" where
  "next_state_dlg stale dlg event w =
     do { c \<leftarrow> w_cells w dlg;
          (w, unref) \<leftarrow>
            (case event of
               DLG_EVENT_TDEL \<Rightarrow>
                 (case d_state c of
                    DLG_STATE_UNCONFIRMED \<Rightarrow>
                      do { w \<leftarrow> set_state dlg DLG_STATE_DELETED w; w \<leftarrow> unref_dlg dlg 1 w; Some (w, Some 1) }
                  | DLG_STATE_EARLY \<Rightarrow>
                      do { w \<leftarrow> set_state dlg DLG_STATE_DELETED w; w \<leftarrow> unref_dlg dlg 1 w; Some (w, Some 1) }
                  | _ \<Rightarrow> do { w \<leftarrow> unref_dlg dlg 1 w; Some (w, None) })
             | DLG_EVENT_RPL1xx \<Rightarrow>
                 (if d_state c \<in> {DLG_STATE_UNCONFIRMED, DLG_STATE_EARLY}
                  then do { w \<leftarrow> set_state dlg DLG_STATE_EARLY w; Some (w, None) }
                  else Some (w, None))
             | DLG_EVENT_RPL3xx \<Rightarrow>
                 (if d_state c \<in> {DLG_STATE_UNCONFIRMED, DLG_STATE_EARLY}
                  then do { w \<leftarrow> set_state dlg DLG_STATE_DELETED w; Some (w, Some 1) }
                  else Some (w, None))
             | DLG_EVENT_RPL2xx \<Rightarrow>
                 (case d_state c of
                    DLG_STATE_DELETED \<Rightarrow>
                      if and (d_flags c) DLG_FLAG_HASBYE \<noteq> 0 then Some (w, None)
                      else do { w \<leftarrow> ref_dlg_unsafe dlg 1 w; w \<leftarrow> set_state dlg DLG_STATE_CONFIRMED_NA w; Some (w, None) }
                  | DLG_STATE_UNCONFIRMED \<Rightarrow> do { w \<leftarrow> set_state dlg DLG_STATE_CONFIRMED_NA w; Some (w, None) }
                  | DLG_STATE_EARLY \<Rightarrow> do { w \<leftarrow> set_state dlg DLG_STATE_CONFIRMED_NA w; Some (w, None) }
                  | _ \<Rightarrow> Some (w, None))
             | DLG_EVENT_REQACK \<Rightarrow>
                 (if d_state c = DLG_STATE_CONFIRMED_NA
                  then do { w \<leftarrow> set_state dlg DLG_STATE_CONFIRMED w; Some (w, None) }
                  else Some (w, None))
             | DLG_EVENT_REQBYE \<Rightarrow>
                 (if d_state c \<in> {DLG_STATE_CONFIRMED_NA, DLG_STATE_CONFIRMED}
                  then do { w \<leftarrow> upd_cell dlg (\<lambda>c. c\<lparr>d_flags := or (d_flags c) DLG_FLAG_HASBYE,
                                                 d_state := DLG_STATE_DELETED\<rparr>) w;
                            Some (w, Some 1) }
                  else Some (w, None))
             | DLG_EVENT_REQPRACK \<Rightarrow> Some (w, None)
             | DLG_EVENT_REQ \<Rightarrow> Some (w, None));
          Some (w, d_state c, (case w_cells w dlg of Some c \<Rightarrow> d_state c | None \<Rightarrow> stale), unref) }"

section \<open>Callbacks\<close>

text \<open>
  \<open>register_dlgcb\<close>, and the calls that \<open>run_create_callbacks\<close> and
  \<open>run_dlg_callbacks\<close> make.
\<close>

definition DLGCB_CREATED :: u32 where "DLGCB_CREATED = 1"
definition DLGCB_FAILED :: u32 where "DLGCB_FAILED = 2"
definition DLGCB_CONFIRMED :: u32 where "DLGCB_CONFIRMED = 4"
definition DLGCB_REQ_WITHIN :: u32 where "DLGCB_REQ_WITHIN = 8"
definition DLGCB_TERMINATED :: u32 where "DLGCB_TERMINATED = 16"
definition DLGCB_EXPIRED :: u32 where "DLGCB_EXPIRED = 32"
definition DLGCB_EARLY :: u32 where "DLGCB_EARLY = 64"
definition DLGCB_RESPONSE_FWDED :: u32 where "DLGCB_RESPONSE_FWDED = 128"

definition register_dlgcb :: "bool \<Rightarrow> nat option \<Rightarrow> u32 \<Rightarrow> nat \<Rightarrow> dlg_world \<Rightarrow> (dlg_world \<times> int) option" where
  "register_dlgcb mem dlg types f w =
     (let cb = \<lparr>cb_types = types, cb_callback = f\<rparr>
      in if and types DLGCB_CREATED \<noteq> 0
         then if types \<noteq> DLGCB_CREATED \<or> \<not> mem then Some (w, - 1)
              else Some (w\<lparr>w_create_cbs := cb # w_create_cbs w\<rparr>, 0)
         else case dlg of
                None \<Rightarrow> Some (w, - 1)
              | Some a \<Rightarrow>
                  if \<not> mem then Some (w, - 1)
                  else do { w \<leftarrow> upd_cell a (\<lambda>c. c\<lparr>d_cbs := cb # d_cbs c, d_cbs_types := or (d_cbs_types c) types\<rparr>) w;
                            Some (w, 0) })"

definition run_create_callbacks :: "nat \<Rightarrow> dlg_world \<Rightarrow> dlg_world" where
  "run_create_callbacks dlg w =
     w\<lparr>w_calls := w_calls w @ map (\<lambda>cb. (cb_callback cb, DLGCB_CREATED, dlg)) (w_create_cbs w)\<rparr>"

definition run_dlg_callbacks :: "u32 \<Rightarrow> nat \<Rightarrow> dlg_world \<Rightarrow> dlg_world option" where
  "run_dlg_callbacks type dlg w =
     do { c \<leftarrow> w_cells w dlg;
          if d_cbs c = [] \<or> and (d_cbs_types c) type = 0 then Some w
          else Some (w\<lparr>w_calls := w_calls w @
                 map (\<lambda>cb. (cb_callback cb, type, dlg)) (filter (\<lambda>cb. and (cb_types cb) type \<noteq> 0) (d_cbs c))\<rparr>) }"

section \<open>The invariant\<close>

text \<open>
  \<open>own\<close> counts the references that are held outside of the table: by a transaction, by a running
  handler, or by nobody any more.  A dialog that is not deleted has one reference more.  \<open>T\<close> are
  the nodes in the timer list, \<open>E\<close> the nodes that have expired and wait for their handler.
\<close>

definition live :: "dlg_state \<Rightarrow> int" where
  "live s = (if s = DLG_STATE_DELETED then 0 else 1)"

definition timed :: "dlg_state \<Rightarrow> bool" where
  "timed s \<longleftrightarrow> s = DLG_STATE_CONFIRMED_NA \<or> s = DLG_STATE_CONFIRMED"

definition opt_list :: "'a option \<Rightarrow> 'a list" where
  "opt_list x = (case x of None \<Rightarrow> [] | Some y \<Rightarrow> [y])"

definition cell_blocks :: "dlg_cell \<Rightarrow> nat list" where
  "cell_blocks c =
     opt_list (lg_tag_s (d_leg c DLG_CALLER_LEG)) @ opt_list (lg_tag_s (d_leg c DLG_CALLEE_LEG))
     @ opt_list (lg_cseq_s (d_leg c DLG_CALLER_LEG)) @ opt_list (lg_cseq_s (d_leg c DLG_CALLEE_LEG))"

definition tag_opt :: "string \<Rightarrow> string option" where
  "tag_opt tag = (if tag \<noteq> [] then Some tag else None)"

definition hash_ok :: "u32 \<Rightarrow> dlg_cell \<Rightarrow> bool" where
  "hash_ok sz c \<longleftrightarrow> d_h_entry c = core_hash (d_callid c) (tag_opt (lg_tag (d_leg c DLG_CALLER_LEG))) sz"

definition cells_of :: "dlg_world \<Rightarrow> u32 \<Rightarrow> nat set" where
  "cells_of w i = {a. \<exists>c. w_cells w a = Some c \<and> d_h_entry c = i}"

definition table_ok :: "dlg_world \<Rightarrow> bool" where
  "table_ok w \<longleftrightarrow>
     w_size w \<noteq> 0 \<and> (\<forall>a c. w_cells w a = Some c \<longrightarrow> hash_ok (w_size w) c)
     \<and> (\<forall>i. distinct (e_cells (w_entries w i)) \<and> set (e_cells (w_entries w i)) = cells_of w i)"

definition ref_ok :: "int \<Rightarrow> dlg_cell \<Rightarrow> bool" where
  "ref_ok k c \<longleftrightarrow> d_ref c = live (d_state c) + k \<and> 1 \<le> d_ref c \<and> 0 \<le> k"

definition refs_ok :: "(nat \<Rightarrow> int) \<Rightarrow> dlg_world \<Rightarrow> bool" where
  "refs_ok own w \<longleftrightarrow>
     (\<forall>a c. w_cells w a = Some c \<longrightarrow> ref_ok (own a) c) \<and> (\<forall>a. w_cells w a = None \<longrightarrow> own a = 0)"

definition blocks_ok :: "dlg_world \<Rightarrow> bool" where
  "blocks_ok w \<longleftrightarrow>
     (\<forall>a c. w_cells w a = Some c \<longrightarrow> distinct (cell_blocks c) \<and> set (cell_blocks c) \<subseteq> w_blocks w)
     \<and> (\<forall>a b c d. w_cells w a = Some c \<longrightarrow> w_cells w b = Some d \<longrightarrow> a \<noteq> b
          \<longrightarrow> set (cell_blocks c) \<inter> set (cell_blocks d) = {})"

definition timer_ok :: "nat set \<Rightarrow> nat set \<Rightarrow> dlg_world \<Rightarrow> bool" where
  "timer_ok T E w \<longleftrightarrow>
     dom (w_timer w) = insert (w_first w) (dom (w_cells w)) \<and> w_first w \<notin> dom (w_cells w) \<and> w_timer w 0 = None
     \<and> T \<inter> E = {} \<and> E \<subseteq> dom (w_cells w)
     \<and> (\<exists>ts. represents (w_first w) (w_timer w |` (- E)) ts \<and> set (map fst ts) = T)"

definition dlg_inv :: "(nat \<Rightarrow> int) \<Rightarrow> nat set \<Rightarrow> nat set \<Rightarrow> dlg_world \<Rightarrow> bool" where
  "dlg_inv own T E w \<longleftrightarrow> table_ok w \<and> refs_ok own w \<and> blocks_ok w \<and> timer_ok T E w"

text \<open>The dialogs that should be in the timer list.\<close>

definition timed_set :: "dlg_world \<Rightarrow> nat set" where
  "timed_set w = {a. \<exists>c. w_cells w a = Some c \<and> timed (d_state c)}"

section \<open>Changes of one cell\<close>

text \<open>What a change of a cell must keep for the table and the blocks.\<close>

definition keeps :: "dlg_cell \<Rightarrow> dlg_cell \<Rightarrow> bool" where
  "keeps c d \<longleftrightarrow> d_h_entry d = d_h_entry c \<and> d_callid d = d_callid c \<and> cell_blocks d = cell_blocks c
     \<and> lg_tag (d_leg d DLG_CALLER_LEG) = lg_tag (d_leg c DLG_CALLER_LEG)"

abbreviation put_cell :: "nat \<Rightarrow> dlg_cell \<Rightarrow> dlg_world \<Rightarrow> dlg_world" where
  "put_cell a d w \<equiv> w\<lparr>w_cells := (w_cells w)(a \<mapsto> d)\<rparr>"

lemma upd_cell_Some: "w_cells w a = Some c \<Longrightarrow> upd_cell a f w = Some (put_cell a (f c) w)"
  by (simp add: upd_cell_def)

lemma inv_put_cell:
  assumes "dlg_inv own T E w" and "w_cells w a = Some c" and "keeps c d"
    and "ref_ok k d"
  shows "dlg_inv (own(a := k)) T E (put_cell a d w)"
proof -
  have "cells_of (put_cell a d w) = cells_of w"
    using assms (2,3) by (auto simp: cells_of_def keeps_def fun_eq_iff)
  then have "table_ok (put_cell a d w)"
    using assms (1-3) by (auto simp: dlg_inv_def table_ok_def hash_ok_def keeps_def)
  moreover have "refs_ok (own(a := k)) (put_cell a d w)"
    using assms by (auto simp: dlg_inv_def refs_ok_def)
  moreover have "blocks_ok (put_cell a d w)"
    using assms (1-3) by (auto simp: dlg_inv_def blocks_ok_def keeps_def)
  moreover have "timer_ok T E (put_cell a d w)"
    using assms (1,2) by (auto simp: dlg_inv_def timer_ok_def insert_absorb)
  ultimately show ?thesis
    by (simp add: dlg_inv_def)
qed

lemma inv_keep_cell:
  assumes "dlg_inv own T E w" and "w_cells w a = Some c" and "keeps c d" and "d_ref d = d_ref c"
    and "d_state d = d_state c"
  shows "dlg_inv own T E (put_cell a d w)"
proof -
  have "ref_ok (own a) c"
    using assms (1,2) by (auto simp: dlg_inv_def refs_ok_def)
  then have "ref_ok (own a) d"
    using assms (4,5) by (simp add: ref_ok_def)
  then show ?thesis
    using inv_put_cell [OF assms (1-3), of "own a"] by simp
qed

lemma invD:
  assumes "dlg_inv own T E w" and "w_cells w a = Some c"
  shows "ref_ok (own a) c" and "hash_ok (w_size w) c"
    and "a \<in> set (e_cells (w_entries w (d_h_entry c)))" and "a \<noteq> w_first w"
    and "distinct (cell_blocks c)" and "set (cell_blocks c) \<subseteq> w_blocks w"
  using assms by (auto simp: dlg_inv_def refs_ok_def table_ok_def cells_of_def timer_ok_def blocks_ok_def)

lemma inv_own: "dlg_inv own T E w \<Longrightarrow> own a \<noteq> 0 \<Longrightarrow> \<exists>c. w_cells w a = Some c"
  by (cases "w_cells w a") (auto simp: dlg_inv_def refs_ok_def)

lemma inv_linked: "dlg_inv own T E w \<Longrightarrow> a \<in> set (e_cells (w_entries w i)) \<Longrightarrow> \<exists>c. w_cells w a = Some c \<and> d_h_entry c = i"
  by (auto simp: dlg_inv_def table_ok_def cells_of_def)

text \<open>The invariant says nothing about the other globals.\<close>

lemma inv_frame [simp]:
  "dlg_inv own T E (w\<lparr>w_calls := x1\<rparr>) = dlg_inv own T E w"
  "dlg_inv own T E (w\<lparr>w_stats := x2\<rparr>) = dlg_inv own T E w"
  "dlg_inv own T E (w\<lparr>w_db := x3\<rparr>) = dlg_inv own T E w"
  "dlg_inv own T E (w\<lparr>w_curr := x4\<rparr>) = dlg_inv own T E w"
  "dlg_inv own T E (w\<lparr>w_tmcb := x5\<rparr>) = dlg_inv own T E w"
  by (simp_all add: dlg_inv_def table_ok_def refs_ok_def blocks_ok_def timer_ok_def cells_of_def)

text \<open>The timer list as seen by a change of it alone.\<close>

lemma inv_set_timer:
  assumes "dlg_inv own T E w" and "dom h = dom (w_timer w)" and "represents (w_first w) (h |` (- E)) ts"
    and "set (map fst ts) \<inter> E = {}"
  shows "dlg_inv own (set (map fst ts)) E (w\<lparr>w_timer := h\<rparr>)"
proof -
  have "h 0 = None"
    using assms (1,2) by (auto simp: dlg_inv_def timer_ok_def domIff)
  then show ?thesis
    using assms by (auto simp: dlg_inv_def table_ok_def refs_ok_def blocks_ok_def timer_ok_def cells_of_def)
qed

section \<open>Dropping references\<close>

lemma inv_node:
  assumes "dlg_inv own T E w" and "w_cells w a = Some c" and "a \<notin> T \<union> E"
  obtains n where "w_timer w a = Some n" and "unlinked n"
proof -
  have "a \<in> dom (w_timer w)" and "a \<noteq> w_first w"
    using assms (1,2) by (auto simp: dlg_inv_def timer_ok_def)
  moreover obtain ts where "represents (w_first w) (w_timer w |` (- E)) ts" and "set (map fst ts) = T"
    using assms (1) by (auto simp: dlg_inv_def timer_ok_def)
  ultimately show ?thesis
    using assms (3) represents_unlinked [of "w_first w" "w_timer w |` (- E)" ts a] that
    by (fastforce simp: unlinked_def)
qed

lemma shm_free_eq:
  "set (opt_list p) \<subseteq> w_blocks w \<Longrightarrow> shm_free p w = Some (w\<lparr>w_blocks := w_blocks w - set (opt_list p)\<rparr>)"
  by (auto simp: shm_free_def opt_list_def split: option.splits)

lemma destroy_eq:
  assumes "w_cells w a = Some c" and "distinct (cell_blocks c)" and "set (cell_blocks c) \<subseteq> w_blocks w"
    and "w_timer w a = Some n" and "unlinked n"
  shows "destroy_dlg a w = Some (w\<lparr>w_cells := (w_cells w)(a := None), w_timer := (w_timer w)(a := None),
    w_blocks := w_blocks w - set (cell_blocks c)\<rparr>)"
proof -
  have "remove_dlg_timer (w_timer w) a = Some (w_timer w, - 1)"
    using assms (4,5) by (simp add: remove_dlg_timer_def unlinked_def)
  moreover define W A B C D where "W = w_blocks w"
    and "A = set (opt_list (lg_tag_s (d_leg c DLG_CALLER_LEG)))" and "B = set (opt_list (lg_tag_s (d_leg c DLG_CALLEE_LEG)))"
    and "C = set (opt_list (lg_cseq_s (d_leg c DLG_CALLER_LEG)))" and "D = set (opt_list (lg_cseq_s (d_leg c DLG_CALLEE_LEG)))"
  moreover have "set (cell_blocks c) = A \<union> (B \<union> (C \<union> D))" and "A \<subseteq> W"
    and "B \<subseteq> W - A" and "C \<subseteq> W - A - B" and "D \<subseteq> W - A - B - C"
    using assms (2,3) by (auto simp: cell_blocks_def A_def B_def C_def D_def W_def)
  moreover have "W - A - B - C - D = W - (A \<union> (B \<union> (C \<union> D)))"
    by blast
  ultimately show ?thesis
    using assms (1) by (simp add: destroy_dlg_def shm_free_eq)
qed

text \<open>The table without a cell.\<close>

lemma table_unlink:
  assumes "table_ok w" and "w_cells w a = Some c"
  shows "table_ok ((upd_entry (d_h_entry c) (unlink_unsafe_dlg a) w)\<lparr>w_cells := (w_cells w)(a := None)\<rparr>)"
  using assms
  by (auto simp: table_ok_def upd_entry_def unlink_unsafe_dlg_def cells_of_def set_remove1_eq split: if_splits)

lemma inv_drop_cell:
  assumes "dlg_inv own T E w" and "w_cells w a = Some c" and "a \<notin> T \<union> E"
  shows "dlg_inv (own(a := 0)) T E ((upd_entry (d_h_entry c) (unlink_unsafe_dlg a) w)\<lparr>w_cells := (w_cells w)(a := None),
    w_timer := (w_timer w)(a := None), w_blocks := w_blocks w - set (cell_blocks c)\<rparr>)"
    (is "dlg_inv _ _ _ ?w")
proof -
  have "table_ok ?w"
    using table_unlink [of w a c] assms (1,2) by (simp add: dlg_inv_def table_ok_def cells_of_def)
  moreover have "refs_ok (own(a := 0)) ?w"
    using assms (1) by (auto simp: dlg_inv_def refs_ok_def)
  moreover have "blocks_ok ?w"
  proof -
    have "set (cell_blocks d) \<inter> set (cell_blocks c) = {}" if "w_cells w b = Some d" "b \<noteq> a" for b d
      using that assms (1,2) by (auto simp: dlg_inv_def blocks_ok_def)
    then show ?thesis
      using assms (1) by (fastforce simp: dlg_inv_def blocks_ok_def)
  qed
  moreover have "timer_ok T E ?w"
  proof -
    obtain ts where ts: "represents (w_first w) (w_timer w |` (- E)) ts" "set (map fst ts) = T" and f: "a \<noteq> w_first w"
      using assms (1,2) by (auto simp: dlg_inv_def timer_ok_def)
    have "(w_timer w)(a := None) |` (- E) = (w_timer w |` (- E))(a := None)"
      by (auto simp: restrict_map_def)
    then have "represents (w_first w) ((w_timer w)(a := None) |` (- E)) ts"
      using represents_free [OF ts (1), of a] ts (2) f assms (3) by simp
    then show ?thesis
      using assms ts (2) f by (auto simp: dlg_inv_def timer_ok_def upd_entry_def)
  qed
  ultimately show ?thesis
    by (simp add: dlg_inv_def)
qed

text \<open>The last reference.\<close>

lemma unref_last:
  assumes "dlg_inv own T E w" and "w_cells w a = Some c" and "d_ref c \<le> n" and "a \<notin> T \<union> E"
  shows "\<exists>es bs. let w' = w\<lparr>w_entries := es, w_cells := (w_cells w)(a := None), w_timer := (w_timer w)(a := None), w_blocks := bs\<rparr>
    in unref_dlg a n w = Some w' \<and> dlg_inv (own(a := 0)) T E w'"
proof -
  obtain m where m: "w_timer w a = Some m" "unlinked m"
    using inv_node [OF assms (1,2,4)] .
  let ?d = "c\<lparr>d_ref := d_ref c - n\<rparr>"
  let ?w = "upd_entry (d_h_entry c) (unlink_unsafe_dlg a) (put_cell a ?d w)"
  have "cell_blocks ?d = cell_blocks c"
    by (simp add: cell_blocks_def)
  then have "destroy_dlg a ?w = Some (?w\<lparr>w_cells := (w_cells w)(a := None), w_timer := (w_timer w)(a := None),
      w_blocks := w_blocks w - set (cell_blocks c)\<rparr>)"
    using destroy_eq [of ?w a ?d m] m invD (5,6) [OF assms (1,2)] by (simp add: upd_entry_def)
  then have "unref_dlg a n w = Some ((upd_entry (d_h_entry c) (unlink_unsafe_dlg a) w)\<lparr>w_cells := (w_cells w)(a := None),
      w_timer := (w_timer w)(a := None), w_blocks := w_blocks w - set (cell_blocks c)\<rparr>)"
    using assms (2,3) by (simp add: unref_dlg_def ref_dlg_unsafe_def upd_cell_def upd_entry_def)
  moreover have "dlg_inv (own(a := 0)) T E ((upd_entry (d_h_entry c) (unlink_unsafe_dlg a) w)\<lparr>w_cells := (w_cells w)(a := None),
      w_timer := (w_timer w)(a := None), w_blocks := w_blocks w - set (cell_blocks c)\<rparr>)"
    by (rule inv_drop_cell [OF assms (1,2,4)])
  ultimately show ?thesis
    by (intro exI [of _ "(w_entries w)(d_h_entry c := unlink_unsafe_dlg a (w_entries w (d_h_entry c)))"]
        exI [of _ "w_blocks w - set (cell_blocks c)"])
      (simp add: upd_entry_def Let_def)
qed

lemma unref_inv:
  assumes "dlg_inv own T E w" and "w_cells w a = Some c" and "0 < n" and "n \<le> own a"
    and "d_state c = DLG_STATE_DELETED \<Longrightarrow> a \<notin> T \<union> E"
  shows "\<exists>es bs t. let w' = w\<lparr>w_entries := es,
      w_cells := (w_cells w)(a := if d_ref c \<le> n then None else Some (c\<lparr>d_ref := d_ref c - n\<rparr>)), w_timer := t, w_blocks := bs\<rparr>
    in unref_dlg a n w = Some w' \<and> dlg_inv (own(a := own a - n)) T E w' \<and> (\<forall>y. y \<noteq> a \<longrightarrow> t y = w_timer w y)"
proof (cases "d_ref c \<le> n")
  case False
  let ?d = "c\<lparr>d_ref := d_ref c - n\<rparr>"
  have "ref_ok (own a - n) ?d" and "keeps c ?d"
    using False assms (3,4) invD (1) [OF assms (1,2)] by (auto simp: ref_ok_def keeps_def cell_blocks_def)
  then have "dlg_inv (own(a := own a - n)) T E (put_cell a ?d w)"
    using inv_put_cell assms (1,2) by blast
  moreover have "unref_dlg a n w = Some (put_cell a ?d w)"
    using False assms (2) by (simp add: unref_dlg_def ref_dlg_unsafe_def upd_cell_def)
  ultimately show ?thesis
    using False
    by (intro exI [of _ "w_entries w"] exI [of _ "w_blocks w"] exI [of _ "w_timer w"]) (simp add: Let_def)
next
  case True
  have s: "d_state c = DLG_STATE_DELETED" and o: "own a = n"
    using True assms (3,4) invD (1) [OF assms (1,2)] by (auto simp: ref_ok_def live_def split: if_splits)
  obtain es bs where "unref_dlg a n w = Some (w\<lparr>w_entries := es, w_cells := (w_cells w)(a := None), w_timer := (w_timer w)(a := None), w_blocks := bs\<rparr>)"
      "dlg_inv (own(a := 0)) T E (w\<lparr>w_entries := es, w_cells := (w_cells w)(a := None), w_timer := (w_timer w)(a := None), w_blocks := bs\<rparr>)"
    using unref_last [OF assms (1,2) True] assms (5) s unfolding Let_def by blast
  then show ?thesis
    using True o by (intro exI [of _ es] exI [of _ bs] exI [of _ "(w_timer w)(a := None)"]) (simp add: Let_def)
qed

section \<open>The timer and the table\<close>

lemma restrict_map_UNIV [simp]: "m |` UNIV = m"
  by (simp add: restrict_map_def)

lemma inv_represents:
  assumes "dlg_inv own T {} w"
  obtains ts where "represents (w_first w) (w_timer w) ts" and "set (map fst ts) = T"
  using assms by (auto simp: dlg_inv_def timer_ok_def)

lemma inv_set_timer':
  assumes "dlg_inv own T {} w" and "dom h = dom (w_timer w)" and "represents (w_first w) h ts" and "set (map fst ts) = T'"
  shows "dlg_inv own T' {} (w\<lparr>w_timer := h\<rparr>)"
  using inv_set_timer [of own T "{}" w h ts] assms by simp

lemma inv_timer_ops:
  assumes "dlg_inv own T {} w" and "w_cells w a = Some c"
  shows "\<exists>h r. insert_dlg_timer (w_first w) ticks (w_timer w) a i = Some (h, r) \<and> dlg_inv own (insert a T) {} (w\<lparr>w_timer := h\<rparr>)"
    and "\<exists>h r. remove_dlg_timer (w_timer w) a = Some (h, r) \<and> dlg_inv own (T - {a}) {} (w\<lparr>w_timer := h\<rparr>)"
    and "\<exists>h. update_dlg_timer (w_first w) ticks (w_timer w) a i = Some (h, 0) \<and> dlg_inv own (insert a T) {} (w\<lparr>w_timer := h\<rparr>)"
proof -
  obtain ts where ts: "represents (w_first w) (w_timer w) ts" "set (map fst ts) = T"
    using inv_represents [OF assms (1)] .
  have a: "a \<in> dom (w_timer w)" "a \<noteq> w_first w"
    using assms by (auto simp: dlg_inv_def timer_ok_def)
  note ops = timer_ops [OF ts (1) a, of ticks i]
  from ops [THEN conjunct1] show "\<exists>h r. insert_dlg_timer (w_first w) ticks (w_timer w) a i = Some (h, r) \<and> dlg_inv own (insert a T) {} (w\<lparr>w_timer := h\<rparr>)"
    using inv_set_timer' [OF assms (1), of _ _ "insert a T"] ts (2) set_sp_insert [of a "ticks + i" ts]
    by (cases "a \<in> T") (auto simp: insert_absorb split: if_splits)
  from ops [THEN conjunct2, THEN conjunct1] show "\<exists>h r. remove_dlg_timer (w_timer w) a = Some (h, r) \<and> dlg_inv own (T - {a}) {} (w\<lparr>w_timer := h\<rparr>)"
    using inv_set_timer' [OF assms (1), of _ "sp_remove a ts" "T - {a}"] ts (2) set_sp_remove [of a ts] by blast
  from ops [THEN conjunct2, THEN conjunct2] show "\<exists>h. update_dlg_timer (w_first w) ticks (w_timer w) a i = Some (h, 0) \<and> dlg_inv own (insert a T) {} (w\<lparr>w_timer := h\<rparr>)"
    using inv_set_timer' [OF assms (1), of _ "sp_insert (a, ticks + i) (sp_remove a ts)" "insert a T"] ts (2)
      set_sp_insert [of a "ticks + i" "sp_remove a ts"] set_sp_remove [of a ts] by auto
qed

lemma inv_ref:
  assumes "dlg_inv own T E w" and "w_cells w a = Some c"
  shows "ref_dlg_unsafe a 1 w = Some (put_cell a (c\<lparr>d_ref := d_ref c + 1\<rparr>) w)"
    and "dlg_inv (own(a := own a + 1)) T E (put_cell a (c\<lparr>d_ref := d_ref c + 1\<rparr>) w)"
proof -
  have "ref_ok (own a + 1) (c\<lparr>d_ref := d_ref c + 1\<rparr>)" and "keeps c (c\<lparr>d_ref := d_ref c + 1\<rparr>)"
    using invD (1) [OF assms] by (auto simp: ref_ok_def keeps_def cell_blocks_def)
  then show "dlg_inv (own(a := own a + 1)) T E (put_cell a (c\<lparr>d_ref := d_ref c + 1\<rparr>) w)"
    using inv_put_cell assms by blast
qed (simp add: ref_dlg_unsafe_def upd_cell_Some [OF assms (2)])

text \<open>What a lookup finds: a linked dialog that is not deleted.\<close>

definition found :: "dlg_world \<Rightarrow> nat option \<Rightarrow> (dlg_cell \<Rightarrow> bool) \<Rightarrow> bool" where
  "found w r P \<longleftrightarrow> (\<forall>a. r = Some a \<longrightarrow> (\<exists>c. w_cells w a = Some c \<and> d_state c \<noteq> DLG_STATE_DELETED \<and> P c))"

lemma find_id_found:
  "(\<And>a. a \<in> set xs \<Longrightarrow> \<exists>c. w_cells w a = Some c \<and> d_h_entry c = i) \<Longrightarrow>
    \<exists>r. find_id w k xs = Some r \<and> found w r (\<lambda>c. d_h_id c = k \<and> d_h_entry c = i)"
proof (induction xs)
  case (Cons a xs)
  then obtain c where "w_cells w a = Some c" "d_h_entry c = i" by auto
  with Cons show ?case by (auto simp: found_def)
qed (simp add: found_def)

lemma match_dialog_fail: "match_dialog c callid ftag ttag dir = (False, dir') \<Longrightarrow> dir' = dir"
  by (cases dir) (simp_all add: match_dialog_def Let_def split: if_split_asm)

lemma find_match_found:
  "(\<And>a. a \<in> set xs \<Longrightarrow> \<exists>c. w_cells w a = Some c) \<Longrightarrow>
    \<exists>r dir'. find_match w callid ftag ttag dir xs = Some (r, dir') \<and>
      found w r (\<lambda>c. match_dialog c callid ftag ttag dir = (True, dir'))"
proof (induction xs)
  case (Cons a xs)
  then obtain c where c: "w_cells w a = Some c" by auto
  obtain b dir1 where m: "match_dialog c callid ftag ttag dir = (b, dir1)" by fastforce
  show ?case
  proof (cases b)
    case True
    with c m show ?thesis by (simp add: found_def)
  next
    case False
    with m have f: "match_dialog c callid ftag ttag dir = (False, dir1)"
      by simp
    with match_dialog_fail [OF f] c Cons show ?thesis by simp
  qed
qed (simp add: found_def)

text \<open>A lookup takes a reference on what it finds.\<close>

definition taken :: "(nat \<Rightarrow> int) \<Rightarrow> nat set \<Rightarrow> nat set \<Rightarrow> dlg_world \<Rightarrow> dlg_world \<Rightarrow> nat option \<Rightarrow> (dlg_cell \<Rightarrow> bool) \<Rightarrow> bool" where
  "taken own T E w w' r P \<longleftrightarrow>
     (case r of
        None \<Rightarrow> w' = w
      | Some a \<Rightarrow> \<exists>c. w_cells w a = Some c \<and> d_state c \<noteq> DLG_STATE_DELETED \<and> P c
                    \<and> w' = put_cell a (c\<lparr>d_ref := d_ref c + 1\<rparr>) w \<and> dlg_inv (own(a := own a + 1)) T E w')"

lemma lookup_taken:
  assumes "dlg_inv own T E w"
  shows "\<exists>w' r. lookup_dlg e i w = Some (w', r) \<and> taken own T E w w' r (\<lambda>c. d_h_id c = i \<and> d_h_entry c = e)"
proof (cases "e \<ge> w_size w")
  case False
  obtain r where r: "find_id w i (e_cells (w_entries w e)) = Some r" "found w r (\<lambda>c. d_h_id c = i \<and> d_h_entry c = e)"
    using find_id_found [of "e_cells (w_entries w e)" w e i] inv_linked [OF assms] by blast
  with False show ?thesis
    using inv_ref [OF assms] by (cases r) (auto simp: lookup_dlg_def taken_def found_def)
qed (simp add: lookup_dlg_def taken_def)

lemma internal_get_taken:
  assumes "dlg_inv own T E w"
  shows "\<exists>w' r dir'. internal_get_dlg e callid ftag ttag dir w = Some (w', r, dir')
    \<and> taken own T E w w' r (\<lambda>c. match_dialog c callid ftag ttag dir = (True, dir'))"
proof -
  obtain r dir' where r: "find_match w callid ftag ttag dir (e_cells (w_entries w e)) = Some (r, dir')"
      "found w r (\<lambda>c. match_dialog c callid ftag ttag dir = (True, dir'))"
    using find_match_found [of "e_cells (w_entries w e)" w callid ftag ttag dir] inv_linked [OF assms] by blast
  then show ?thesis
    using inv_ref [OF assms] by (cases r) (auto simp: internal_get_dlg_def taken_def found_def)
qed

lemma get_taken:
  assumes "dlg_inv own T E w"
  shows "\<exists>w' r dir'. get_dlg callid ftag ttag dir w = Some (w', r, dir') \<and> taken own T E w w' r (\<lambda>_. True)"
proof -
  obtain w1 r1 d1 where 1: "internal_get_dlg (core_hash callid (if ftag \<noteq> [] then Some ftag else None) (w_size w))
      callid ftag ttag dir w = Some (w1, r1, d1)" "taken own T E w w1 r1 (\<lambda>c. match_dialog c callid ftag ttag dir = (True, d1))"
    using internal_get_taken [OF assms] by blast
  show ?thesis
  proof (cases r1)
    case None
    with 1 have "w1 = w" by (simp add: taken_def)
    with None 1 (1) show ?thesis
      using internal_get_taken [OF assms, of "core_hash callid (if ttag \<noteq> [] then Some ttag else None) (w_size w)" callid ftag ttag d1]
      by (fastforce simp: get_dlg_def taken_def split: option.splits)
  qed (use 1 in \<open>auto simp: get_dlg_def taken_def\<close>)
qed

section \<open>Changes that keep the states\<close>

definition states :: "dlg_world \<Rightarrow> nat \<rightharpoonup> dlg_state" where
  "states w = (\<lambda>a. map_option d_state (w_cells w a))"

definition bound_cells :: "dlg_leg \<Rightarrow> dlg_world \<Rightarrow> nat set" where
  "bound_cells leg w = {a. \<exists>c. w_cells w a = Some c \<and> lg_bind_addr (d_leg c leg) \<noteq> None}"

text \<open>\<open>w'\<close> differs from \<open>w\<close> in details of the dialogs, but not in their states.\<close>

definition quiet :: "dlg_world \<Rightarrow> dlg_world \<Rightarrow> bool" where
  "quiet w w' \<longleftrightarrow>
     states w' = states w \<and> (\<forall>leg. bound_cells leg w \<subseteq> bound_cells leg w') \<and> w_tmcb w' = w_tmcb w \<and> w_shutdown w' = w_shutdown w
     \<and> w_stats w' = w_stats w"

lemma quiet_refl [simp]: "quiet w w"
  by (simp add: quiet_def)

lemma quiet_trans [trans]: "quiet w1 w2 \<Longrightarrow> quiet w2 w3 \<Longrightarrow> quiet w1 w3"
  by (auto simp: quiet_def)

lemma quiet_frame [simp]:
  "quiet w (w'\<lparr>w_calls := x1\<rparr>) = quiet w w'" "quiet w (w'\<lparr>w_db := x2\<rparr>) = quiet w w'"
  "quiet w (w'\<lparr>w_curr := x3\<rparr>) = quiet w w'" "quiet w (w'\<lparr>w_timer := x4\<rparr>) = quiet w w'"
  "quiet w (w'\<lparr>w_blocks := x5\<rparr>) = quiet w w'"
  by (simp_all add: quiet_def states_def bound_cells_def)

lemma quiet_put_cell:
  assumes "w_cells w a = Some c" and "d_state d = d_state c"
    and "\<And>leg. lg_bind_addr (d_leg c leg) \<noteq> None \<Longrightarrow> lg_bind_addr (d_leg d leg) \<noteq> None"
  shows "quiet w (put_cell a d w)"
  using assms by (auto simp: quiet_def states_def bound_cells_def fun_eq_iff)

lemma quiet_cell:
  assumes "quiet w w'" and "w_cells w a = Some c"
  obtains d where "w_cells w' a = Some d" and "d_state d = d_state c"
proof -
  have "map_option d_state (w_cells w' a) = Some (d_state c)"
    using assms by (simp add: quiet_def states_def fun_eq_iff)
  then show ?thesis using that by auto
qed

lemma timed_set_states: "timed_set w = {a. \<exists>s. states w a = Some s \<and> timed s}"
  by (auto simp: timed_set_def states_def)

lemma quiet_timed: "quiet w w' \<Longrightarrow> timed_set w' = timed_set w"
  by (simp add: quiet_def timed_set_states)

text \<open>A change of one cell that the invariant and the states do not see.\<close>

lemma inv_upd_cell:
  assumes "dlg_inv own T E w" and "w_cells w a = Some c" and "keeps c (f c)" and "d_ref (f c) = d_ref c"
    and "d_state (f c) = d_state c"
    and "\<And>leg. lg_bind_addr (d_leg c leg) \<noteq> None \<Longrightarrow> lg_bind_addr (d_leg (f c) leg) \<noteq> None"
  shows "\<exists>w'. upd_cell a f w = Some w' \<and> dlg_inv own T E w' \<and> quiet w w' \<and> w_cells w' a = Some (f c) \<and> w_timer w' = w_timer w
    \<and> w_first w' = w_first w"
  using inv_keep_cell [OF assms (1-5)] quiet_put_cell [OF assms (2,5,6)] upd_cell_Some [OF assms (2)] by simp

lemma inv_run_callbacks:
  assumes "w_cells w a = Some c"
  shows "\<exists>w'. run_dlg_callbacks type a w = Some w' \<and> dlg_inv own T E w' = dlg_inv own T E w \<and> quiet w w' \<and> w_cells w' = w_cells w
    \<and> w_timer w' = w_timer w \<and> w_first w' = w_first w"
  using assms by (simp add: run_dlg_callbacks_def)

section \<open>Blocks\<close>

lemma inv_put_blocks:
  assumes "dlg_inv own T E w" and "w_cells w a = Some c"
    and "d_h_entry d = d_h_entry c" and "d_callid d = d_callid c" and "d_ref d = d_ref c" and "d_state d = d_state c"
    and "lg_tag (d_leg d DLG_CALLER_LEG) = lg_tag (d_leg c DLG_CALLER_LEG)"
    and "distinct (cell_blocks d)" and "set (cell_blocks d) \<subseteq> V" and "w_blocks w - set (cell_blocks c) \<subseteq> V"
    and "set (cell_blocks d) \<inter> (w_blocks w - set (cell_blocks c)) = {}"
  shows "dlg_inv own T E (put_cell a d (w\<lparr>w_blocks := V\<rparr>))"
proof -
  let ?w = "put_cell a d (w\<lparr>w_blocks := V\<rparr>)"
  have "cells_of ?w = cells_of w"
    using assms (2,3) by (auto simp: cells_of_def fun_eq_iff)
  then have "table_ok ?w"
    using assms (1-4,7) by (auto simp: dlg_inv_def table_ok_def hash_ok_def)
  moreover have "refs_ok own ?w"
  proof -
    have "ref_ok (own a) d"
      using invD (1) [OF assms (1,2)] assms (5,6) by (simp add: ref_ok_def)
    then show ?thesis
      using assms (1,2) by (auto simp: dlg_inv_def refs_ok_def)
  qed
  moreover have "blocks_ok ?w"
  proof -
    have "blocks_ok w"
      using assms (1) by (simp add: dlg_inv_def)
    then have "set (cell_blocks e) \<subseteq> w_blocks w - set (cell_blocks c)" if "w_cells w b = Some e" "b \<noteq> a" for b e
      using that assms (2) unfolding blocks_ok_def by blast
    then have "set (cell_blocks e) \<subseteq> V \<and> set (cell_blocks d) \<inter> set (cell_blocks e) = {}" if "w_cells w b = Some e" "b \<noteq> a" for b e
      using that assms (10,11) by blast
    then show ?thesis
      using assms (1,8,9) by (auto simp: dlg_inv_def blocks_ok_def)
  qed
  moreover have "timer_ok T E ?w"
    using assms (1,2) by (auto simp: dlg_inv_def timer_ok_def insert_absorb)
  ultimately show ?thesis
    by (simp add: dlg_inv_def)
qed

lemma set_leg_inv:
  assumes "dlg_inv own T E w" and "w_cells w a = Some c"
    and "m1 = None \<and> m2 = None \<or> (\<exists>b1 b2. m1 = Some b1 \<and> m2 = Some b2 \<and> b1 \<noteq> b2 \<and> b1 \<notin> w_blocks w \<and> b2 \<notin> w_blocks w)"
  shows "\<exists>w'. dlg_set_leg_info m1 m2 a tag rr contact cseq DLG_CALLEE_LEG w = Some (w', if m1 = None then - 1 else 0)
    \<and> dlg_inv own T E w' \<and> quiet w w'"
  using assms (3)
proof
  assume n: "m1 = None \<and> m2 = None"
  let ?d = "set_leg DLG_CALLEE_LEG (\<lambda>l. l\<lparr>lg_tag_s := None, lg_cseq_s := None\<rparr>) c"
  have b: "cell_blocks ?d = opt_list (lg_tag_s (d_leg c DLG_CALLER_LEG)) @ opt_list (lg_cseq_s (d_leg c DLG_CALLER_LEG))"
    by (simp add: cell_blocks_def set_leg_def opt_list_def)
  have "dlg_inv own T E (put_cell a ?d (w\<lparr>w_blocks := w_blocks w\<rparr>))"
    using invD (5,6) [OF assms (1,2)]
    by (intro inv_put_blocks [OF assms (1,2)]) (unfold b, auto simp: set_leg_def cell_blocks_def)
  moreover have "quiet w (put_cell a ?d w)"
    using assms (2) by (intro quiet_put_cell) (auto simp: set_leg_def)
  ultimately show ?thesis
    using n assms (2) by (simp add: dlg_set_leg_info_def alloc_def upd_cell_def shm_free_def)
next
  assume "\<exists>b1 b2. m1 = Some b1 \<and> m2 = Some b2 \<and> b1 \<noteq> b2 \<and> b1 \<notin> w_blocks w \<and> b2 \<notin> w_blocks w"
  then obtain b1 b2 where m: "m1 = Some b1" "m2 = Some b2" "b1 \<noteq> b2" "b1 \<notin> w_blocks w" "b2 \<notin> w_blocks w" by blast
  let ?d = "set_leg DLG_CALLEE_LEG (\<lambda>l. l\<lparr>lg_tag := tag, lg_contact := contact,
      lg_route_set := (if rr \<noteq> [] then rr else lg_route_set l), lg_cseq := cseq\<rparr>)
    (set_leg DLG_CALLEE_LEG (\<lambda>l. l\<lparr>lg_tag_s := Some b1, lg_cseq_s := Some b2\<rparr>) c)"
  let ?V = "insert b2 (insert b1 (w_blocks w))"
  have b: "cell_blocks ?d = opt_list (lg_tag_s (d_leg c DLG_CALLER_LEG)) @ [b1] @ opt_list (lg_cseq_s (d_leg c DLG_CALLER_LEG)) @ [b2]"
    by (simp add: cell_blocks_def set_leg_def opt_list_def)
  have "dlg_inv own T E (put_cell a ?d (w\<lparr>w_blocks := ?V\<rparr>))"
    using invD (5,6) [OF assms (1,2)] m (3-5)
    by (intro inv_put_blocks [OF assms (1,2)]) (unfold b, auto simp: set_leg_def cell_blocks_def)
  moreover have "quiet (w\<lparr>w_blocks := ?V\<rparr>) (put_cell a ?d (w\<lparr>w_blocks := ?V\<rparr>))"
    using assms (2) by (intro quiet_put_cell [of _ _ c]) (auto simp: set_leg_def)
  then have "quiet w (put_cell a ?d (w\<lparr>w_blocks := ?V\<rparr>))"
    by (simp add: quiet_def states_def bound_cells_def)
  ultimately show ?thesis
    using m assms (2) by (simp add: dlg_set_leg_info_def alloc_def upd_cell_def)
qed

lemma update_cseq_inv:
  assumes "dlg_inv own T E w" and "w_cells w a = Some c" and "\<forall>b. m = Some b \<longrightarrow> b \<notin> w_blocks w"
  shows "\<exists>w' r. dlg_update_cseq m a leg cseq w = Some (w', r) \<and> dlg_inv own T E w' \<and> quiet w w'"
proof (cases "lg_cseq_s (d_leg c leg) \<noteq> None \<and> \<not> length (lg_cseq (d_leg c leg)) < length cseq")
  case True
  let ?f = "set_leg leg (\<lambda>l. l\<lparr>lg_cseq := cseq\<rparr>)"
  have "keeps c (?f c)"
    by (cases leg) (auto simp: keeps_def set_leg_def cell_blocks_def)
  then have "\<exists>w'. upd_cell a ?f w = Some w' \<and> dlg_inv own T E w' \<and> quiet w w' \<and> w_cells w' a = Some (?f c)
      \<and> w_timer w' = w_timer w \<and> w_first w' = w_first w"
    by (rule inv_upd_cell [OF assms (1,2)]) (auto simp: set_leg_def)
  with True assms (2) show ?thesis
    by (auto simp: dlg_update_cseq_def)
next
  case False
  let ?o = "set (opt_list (lg_cseq_s (d_leg c leg)))"
  let ?d = "set_leg leg (\<lambda>l. if m = None then l else l\<lparr>lg_cseq := cseq\<rparr>) (set_leg leg (\<lambda>l. l\<lparr>lg_cseq_s := m\<rparr>) c)"
  let ?V = "(w_blocks w - ?o) \<union> set (opt_list m)"
  have o: "?o \<subseteq> set (cell_blocks c)"
    by (cases leg) (auto simp: cell_blocks_def)
  have m: "set (opt_list m) \<inter> w_blocks w = {}" "distinct (opt_list m)"
    using assms (3) by (auto simp: opt_list_def split: option.splits)
  have b: "cell_blocks ?d = opt_list (lg_tag_s (d_leg c DLG_CALLER_LEG)) @ opt_list (lg_tag_s (d_leg c DLG_CALLEE_LEG))
      @ (if leg = DLG_CALLER_LEG then opt_list m @ opt_list (lg_cseq_s (d_leg c DLG_CALLEE_LEG))
         else opt_list (lg_cseq_s (d_leg c DLG_CALLER_LEG)) @ opt_list m)"
    by (cases leg) (auto simp: cell_blocks_def set_leg_def)
  note c = invD (5,6) [OF assms (1,2)]
  have "distinct (cell_blocks ?d)" and "set (cell_blocks ?d) \<subseteq> ?V"
    and "set (cell_blocks ?d) \<inter> (w_blocks w - set (cell_blocks c)) = {}"
    unfolding b using c m by (cases leg; auto simp: cell_blocks_def)+
  moreover have "w_blocks w - set (cell_blocks c) \<subseteq> ?V"
    using o by auto
  ultimately have "dlg_inv own T E (put_cell a ?d (w\<lparr>w_blocks := ?V\<rparr>))"
    by (intro inv_put_blocks [OF assms (1,2)]) (simp_all add: set_leg_def)
  moreover have "quiet (w\<lparr>w_blocks := ?V\<rparr>) (put_cell a ?d (w\<lparr>w_blocks := ?V\<rparr>))"
    using assms (2) by (intro quiet_put_cell [of _ _ c]) (auto simp: set_leg_def)
  then have "quiet w (put_cell a ?d (w\<lparr>w_blocks := ?V\<rparr>))"
    by (simp add: quiet_def states_def bound_cells_def)
  moreover have "shm_free (lg_cseq_s (d_leg c leg)) w = Some (w\<lparr>w_blocks := w_blocks w - ?o\<rparr>)"
    using o invD (6) [OF assms (1,2)] by (intro shm_free_eq) auto
  moreover have "dlg_update_cseq m a leg cseq w = Some (put_cell a ?d (w\<lparr>w_blocks := ?V\<rparr>), if m = None then - 1 else 0)"
    using False assms (2) calculation (3)
    by (cases m) (auto simp: dlg_update_cseq_def Let_def upd_cell_def alloc_def opt_list_def set_leg_def)
  ultimately show ?thesis by blast
qed

section \<open>New dialogs\<close>

lemma inv_new_cell:
  assumes "dlg_inv own T E w" and "w_cells w a = None" and "a \<noteq> 0" and "a \<noteq> w_first w"
    and "w_cells w' = (w_cells w)(a \<mapsto> d)" and "w_timer w' = (w_timer w)(a \<mapsto> \<lparr>tl_next = 0, tl_prev = 0, tl_timeout = 0\<rparr>)"
    and "w_entries w' = (w_entries w)(d_h_entry d := e)" and "e_cells e = e_cells (w_entries w (d_h_entry d)) @ [a]"
    and "w_size w' = w_size w" and "w_first w' = w_first w" and "w_blocks w' = set (cell_blocks d) \<union> w_blocks w"
    and "hash_ok (w_size w) d" and "ref_ok k d" and "distinct (cell_blocks d)" and "set (cell_blocks d) \<inter> w_blocks w = {}"
  shows "dlg_inv (own(a := k)) T E w'"
proof -
  have "a \<notin> set (e_cells (w_entries w i))" for i
    using inv_linked [OF assms (1), of a i] assms (2) by auto
  moreover have "cells_of w' i = (if i = d_h_entry d then insert a (cells_of w i) else cells_of w i)" for i
    using assms (2,5) by (auto simp: cells_of_def)
  ultimately have "table_ok w'"
    using assms (1,5,7-9,12) by (auto simp: dlg_inv_def table_ok_def)
  moreover have "refs_ok (own(a := k)) w'"
    using assms (1,5,13) by (auto simp: dlg_inv_def refs_ok_def)
  moreover have "blocks_ok w'"
  proof -
    have "set (cell_blocks c) \<subseteq> w_blocks w" if "w_cells w b = Some c" for b c
      using invD (6) [OF assms (1) that] .
    then have "set (cell_blocks c) \<inter> set (cell_blocks d) = {}" if "w_cells w b = Some c" for b c
      using that assms (15) by blast
    then show ?thesis
      using assms (1,5,11,14) by (fastforce simp: dlg_inv_def blocks_ok_def)
  qed
  moreover have "timer_ok T E w'"
  proof -
    have t: "timer_ok T E w" using assms (1) by (simp add: dlg_inv_def)
    then obtain ts where ts: "represents (w_first w) (w_timer w |` (- E)) ts" "set (map fst ts) = T"
      by (auto simp: timer_ok_def)
    have a: "a \<notin> E" "w_timer w a = None"
      using t assms (2,4) by (auto simp: timer_ok_def domIff)
    have "w_timer w' |` (- E) = (w_timer w |` (- E))(a \<mapsto> \<lparr>tl_next = 0, tl_prev = 0, tl_timeout = 0\<rparr>)"
      using assms (6) a by (auto simp: restrict_map_def)
    then have "represents (w_first w) (w_timer w' |` (- E)) ts"
      using represents_new [OF ts (1), of a 0] a assms (3) by (simp add: restrict_map_def)
    then show ?thesis
      using t ts (2) assms (3-6,10) by (auto simp: timer_ok_def)
  qed
  ultimately show ?thesis
    by (simp add: dlg_inv_def)
qed

section \<open>The state machine of a dialog\<close>

text \<open>
  The states a dialog goes through, with \<open>bye\<close> for a dialog that has seen a BYE, and what an
  event other than the end of the transaction does to a cell.
\<close>

definition spec_next :: "dlg_event \<Rightarrow> bool \<Rightarrow> dlg_state \<Rightarrow> dlg_state" where
  "spec_next ev bye s =
     (let setup = (s = DLG_STATE_UNCONFIRMED \<or> s = DLG_STATE_EARLY)
      in case ev of
           DLG_EVENT_TDEL \<Rightarrow> if setup then DLG_STATE_DELETED else s
         | DLG_EVENT_RPL1xx \<Rightarrow> if setup then DLG_STATE_EARLY else s
         | DLG_EVENT_RPL2xx \<Rightarrow> if setup \<or> s = DLG_STATE_DELETED \<and> \<not> bye then DLG_STATE_CONFIRMED_NA else s
         | DLG_EVENT_RPL3xx \<Rightarrow> if setup then DLG_STATE_DELETED else s
         | DLG_EVENT_REQACK \<Rightarrow> if s = DLG_STATE_CONFIRMED_NA then DLG_STATE_CONFIRMED else s
         | DLG_EVENT_REQBYE \<Rightarrow> if timed s then DLG_STATE_DELETED else s
         | _ \<Rightarrow> s)"

definition has_bye :: "dlg_cell \<Rightarrow> bool" where
  "has_bye c \<longleftrightarrow> and (d_flags c) DLG_FLAG_HASBYE \<noteq> 0"

definition cell_step :: "dlg_event \<Rightarrow> dlg_cell \<Rightarrow> dlg_cell" where
  "cell_step ev c =
     (let s = spec_next ev (has_bye c) (d_state c)
      in c\<lparr>d_flags := (if ev = DLG_EVENT_REQBYE \<and> timed (d_state c) then or (d_flags c) DLG_FLAG_HASBYE else d_flags c),
           d_ref := d_ref c + (if d_state c = DLG_STATE_DELETED \<and> s \<noteq> DLG_STATE_DELETED then 1 else 0),
           d_state := s\<rparr>)"

definition dies :: "dlg_cell \<Rightarrow> dlg_cell \<Rightarrow> bool" where
  "dies c d \<longleftrightarrow> d_state c \<noteq> DLG_STATE_DELETED \<and> d_state d = DLG_STATE_DELETED"

lemma next_state_cell_step:
  assumes "w_cells w a = Some c" and "ev \<noteq> DLG_EVENT_TDEL"
  shows "next_state_dlg stale a ev w = Some (put_cell a (cell_step ev c) w, d_state c, d_state (cell_step ev c),
    if dies c (cell_step ev c) then Some 1 else None)"
proof -
  have [simp]: "put_cell a c w = w"
    using assms (1) by (simp add: map_upd_triv)
  have [simp]: "d_state c = s \<Longrightarrow> c\<lparr>d_state := s\<rparr> = c" for s
    by auto
  show ?thesis
    using assms
    by (cases ev; cases "d_state c")
      (simp_all add: next_state_dlg_def cell_step_def spec_next_def dies_def timed_def set_state_def upd_cell_def
        ref_dlg_unsafe_def has_bye_def Let_def)
qed

text \<open>An event hands the reference of the table to the handler when the dialog dies.\<close>

lemma inv_cell_step:
  assumes "dlg_inv own T E w" and "w_cells w a = Some c"
  shows "dlg_inv (own(a := own a + (if dies c (cell_step ev c) then 1 else 0))) T E (put_cell a (cell_step ev c) w)"
proof (rule inv_put_cell [OF assms])
  show "keeps c (cell_step ev c)"
    by (simp add: keeps_def cell_step_def cell_blocks_def Let_def)
  show "ref_ok (own a + (if dies c (cell_step ev c) then 1 else 0)) (cell_step ev c)"
    using invD (1) [OF assms] by (auto simp: ref_ok_def cell_step_def dies_def live_def Let_def)
qed

end
