(* ===== verification/RrBody.thy ===== *)
theory RrBody
  imports Prelude "HOL-Library.Monad_Syntax"
begin

text \<open>
  Printing the route set of a dialog from the Record-Route headers (\<open>print_rr_body\<close> of
  \<open>parser/parse_rr.c\<close>).  A header is the list of the entries \<open>parse_rr\<close> finds in it, or
  \<open>None\<close> when it does not parse.
\<close>

section \<open>Definitions\<close>

definition MAX_RR_HDRS :: nat where "MAX_RR_HDRS = 64"

text \<open>The entries of all headers, in the fixed array \<open>route\<close>.\<close>

fun rr_add :: "string list \<Rightarrow> string list \<Rightarrow> string list option" where
  "rr_add route [] = Some route"
| "rr_add route (p # ps) =
     (if length (route @ [p]) = MAX_RR_HDRS then None else rr_add (route @ [p]) ps)"

fun rr_collect :: "string list \<Rightarrow> string list option list \<Rightarrow> string list option" where
  "rr_collect route [] = Some route"
| "rr_collect route (h # hs) =
     (case h of
        None \<Rightarrow> None
      | Some ps \<Rightarrow> (case rr_add route ps of None \<Rightarrow> None | Some route \<Rightarrow> rr_collect route hs))"

text \<open>The entries that are counted for the size of the buffer; the comparisons are unsigned.\<close>

definition rr_counted :: "bool \<Rightarrow> u32 option \<Rightarrow> nat \<Rightarrow> nat \<Rightarrow> bool" where
  "rr_counted order nb_recs n i \<longleftrightarrow>
     (case nb_recs of
        None \<Rightarrow> True
      | Some k \<Rightarrow> \<not> order \<and> k \<le> of_nat i \<or> order \<and> of_nat i \<le> of_nat n - k)"

definition rr_route_len :: "bool \<Rightarrow> u32 option \<Rightarrow> string list \<Rightarrow> int" where
  "rr_route_len order nb_recs route =
     (let is = filter (rr_counted order nb_recs (length route)) [0..<length route]
      in (\<Sum>i\<leftarrow>is. int (length (route ! i))) + (int (length is) - 1))"

text \<open>The two printing loops: up from the first entry of a list, and down from an index.\<close>

fun rr_up :: "string list \<Rightarrow> string" where
  "rr_up [] = []"
| "rr_up [r] = r"
| "rr_up (r # rs) = r @ '','' @ rr_up rs"

fun rr_down :: "string list \<Rightarrow> nat \<Rightarrow> string" where
  "rr_down route 0 = []"
| "rr_down route (Suc i) = route ! i @ (if i > 0 then '','' else []) @ rr_down route i"

text \<open>
  \<open>print_rr_body\<close> for a header list that is not empty: the return value, the route set and the
  new \<open>*nb_recs\<close>.  \<open>mem\<close> says whether a block of a size can be had; \<open>None\<close> is an
  access outside of the array.
\<close>

definition print_rr_body ::
  "(int \<Rightarrow> bool) \<Rightarrow> string list option list \<Rightarrow> bool \<Rightarrow> u32 option \<Rightarrow> (int \<times> string \<times> u32 option) option" where
  "print_rr_body mem iroute order nb_recs =
     (case rr_collect [] iroute of
        None \<Rightarrow> Some (- 1, [], nb_recs)
      | Some route \<Rightarrow>
          if \<not> mem (rr_route_len order nb_recs route) then Some (- 1, [], nb_recs)
          else
            let n = length route;
                fin = (\<lambda>oroute. Some (0, oroute, map_option (\<lambda>_. of_nat n) nb_recs));
                start = (if \<not> order then (case nb_recs of None \<Rightarrow> 0 | Some k \<Rightarrow> sint (ucast k :: s32))
                         else (case nb_recs of None \<Rightarrow> int n - 1
                                             | Some k \<Rightarrow> sint (ucast (of_nat n - k - 1) :: s32)))
            in if \<not> order
               then if start < 0 then None else fin (rr_up (drop (nat start) route))
               else if start \<ge> int n then None else fin (rr_down route (nat (start + 1))))"

section \<open>Properties\<close>

lemma rr_add_spec:
  "rr_add route ps = (if length route < MAX_RR_HDRS \<and> length (route @ ps) \<ge> MAX_RR_HDRS then None else Some (route @ ps))"
  if "length route < MAX_RR_HDRS"
  using that by (induction route ps rule: rr_add.induct) auto

lemma rr_collect_spec:
  "length route < MAX_RR_HDRS \<Longrightarrow>
    rr_collect route (map Some pss) = (if length (route @ concat pss) < MAX_RR_HDRS then Some (route @ concat pss) else None)"
  by (induction pss arbitrary: route) (auto simp: rr_add_spec)

lemma rr_up_snoc: "rs \<noteq> [] \<Longrightarrow> rr_up (rs @ [r]) = rr_up rs @ '','' @ r"
  by (induction rs rule: rr_up.induct) auto

lemma rr_up_Cons: "rr_up (r # rs) = r @ (if rs \<noteq> [] then '','' else []) @ rr_up rs"
  by (cases rs) auto

lemma rr_down_up: "m \<le> length route \<Longrightarrow> rr_down route m = rr_up (rev (take m route))"
proof (induction m)
  case (Suc i)
  then have "rev (take (Suc i) route) = route ! i # rev (take i route)"
    by (simp add: take_Suc_conv_app_nth)
  with Suc show ?case
    by (auto simp: rr_up_Cons)
qed simp

lemma length_rr_up:
  "rs \<noteq> [] \<Longrightarrow> int (length (rr_up rs)) = (\<Sum>r\<leftarrow>rs. int (length r)) + (int (length rs) - 1)"
  by (induction rs rule: rr_up.induct) auto

lemma length_rr_up_rev: "length (rr_up (rev rs)) = length (rr_up rs)"
proof (cases "rs = []")
  case False
  have "(\<Sum>r\<leftarrow>rev rs. int (length r)) = (\<Sum>r\<leftarrow>rs. int (length r))"
    by (simp add: rev_map [symmetric])
  with False show ?thesis
    using length_rr_up [of rs] length_rr_up [of "rev rs"] by simp
qed simp

lemma length_rr_up_append: "length (rr_up xs) \<le> length (rr_up (xs @ ys))"
  by (induction xs rule: rr_up.induct) (auto simp: rr_up_Cons)

lemma length_rr_up_take: "m \<le> m' \<Longrightarrow> length (rr_up (take m rs)) \<le> length (rr_up (take m' rs))"
  using length_rr_up_append [of "take m rs" "take (m' - m) (drop m rs)"] by (simp flip: take_add)

text \<open>The arithmetic of the indices, which stay far below the wrap-around.\<close>

lemma small_word: "m < 64 \<Longrightarrow> unat (of_nat m :: u32) = m"
  by (simp add: unat_of_nat take_bit_nat_eq_self)

lemma small_sint: "m < 64 \<Longrightarrow> sint (ucast (of_nat m :: u32) :: s32) = int m"
  by (simp add: sint_uint uint_nat small_word signed_take_bit_int_eq_self)

lemma rr_counted_up: "k < 64 \<Longrightarrow> i < 64 \<Longrightarrow> rr_counted False (Some (of_nat k)) n i \<longleftrightarrow> k \<le> i"
  by (simp add: rr_counted_def word_le_nat_alt small_word)

lemma rr_counted_down:
  "k \<le> n \<Longrightarrow> n < 64 \<Longrightarrow> i < 64 \<Longrightarrow> rr_counted True (Some (of_nat k)) n i \<longleftrightarrow> i \<le> n - k"
  by (simp add: rr_counted_def word_le_nat_alt small_word flip: of_nat_diff)

lemma filter_ge_upt: "k \<le> n \<Longrightarrow> filter (\<lambda>i. k \<le> i) [0..<n] = [k..<n]"
  by (induction n) (auto simp: le_Suc_eq)

lemma filter_less_upt: "m \<le> n \<Longrightarrow> filter (\<lambda>i. i < m) [0..<n] = [0..<m]"
  by (induction n) (auto simp: le_Suc_eq)

lemma sum_nth_upt:
  "(\<Sum>i\<leftarrow>[k..<m]. int (length (rs ! i))) = (\<Sum>r\<leftarrow>drop k (take m rs). int (length r))" if "m \<le> length rs"
proof -
  from that have "drop k (take m rs) = map ((!) rs) [k..<m]"
    by (intro nth_equalityI) auto
  then show ?thesis
    by (simp add: comp_def)
qed

text \<open>With a reasonable number of skipped entries the array is never left.\<close>

lemma rr_collect_bound: "rr_collect route hs = Some r \<Longrightarrow> length route < MAX_RR_HDRS \<Longrightarrow> length r < MAX_RR_HDRS"
  by (induction hs arbitrary: route) (auto simp: rr_add_spec split: option.splits if_splits)

lemma start_bound: "sint (k :: 32 word) \<ge> 0 \<Longrightarrow> n < 64 \<Longrightarrow> sint (of_nat n - k - 1) < int n"
proof -
  assume k: "sint k \<ge> 0" and n: "n < 64"
  have "sint k < 2 ^ 31" using sint_lt [of k] by simp
  then have "sint (word_of_int (int n - sint k - 1) :: 32 word) = int n - sint k - 1"
    using k n by (subst sint_sbintrunc') (simp add: signed_take_bit_int_eq_self)
  moreover have "(word_of_int (int n - sint k - 1) :: 32 word) = of_nat n - k - 1"
    by simp
  ultimately show ?thesis
    using k by simp
qed

lemma print_rr_body_total:
  assumes "sint (ucast k :: s32) \<ge> 0"
  shows "\<exists>r oroute nb. print_rr_body mem hs order (Some k) = Some (r, oroute, nb)
    \<and> (rr_collect [] hs \<noteq> None \<and> (\<forall>n. mem n) \<longrightarrow> r = 0)"
proof (cases "rr_collect [] hs")
  case (Some route)
  then have "length route < 64"
    using rr_collect_bound [of "[]" hs route] by (simp add: MAX_RR_HDRS_def)
  then have "sint (of_nat (length route) - k - 1) < int (length route)"
    using assms by (intro start_bound) simp_all
  with Some assms show ?thesis
    by (auto simp: print_rr_body_def Let_def)
qed (simp add: print_rr_body_def)



end
