(* ===== verification/DlgHandlers.thy ===== *)
theory DlgHandlers
  imports DlgHash RrBody Ut
begin

text \<open>
  The handlers of the dialog module (\<open>modules/dialog/dlg_handlers.c\<close>) with the parts of
  \<open>dlg_db_handler.c\<close> they call.  A handler is a function on the world of \<open>DlgHash\<close>;
  \<open>None\<close> is a crash of the process.  A message is the record of what the header parser
  delivers; what the allocator, the clock, the database and the transaction module answer is in a
  record \<open>dlg_env\<close>.  The parameter of a transaction callback is always the dialog it was registered
  for, never null.
\<close>

section \<open>Messages, configuration and environment\<close>

datatype sip_method = METHOD_ACK | METHOD_BYE | METHOD_CANCEL | METHOD_PRACK | METHOD_OTHER

record dlg_msg =
  m_to :: "(string \<times> string) option"
  m_from :: "(string \<times> string) option"
  m_callid :: "string option"
  m_cseq :: "string option"
  m_contact :: "string list option"
  m_rr :: "string list option list option"
  m_route_param :: "(string \<times> char) option"
  m_method :: sip_method
  m_flags :: u32
  m_id :: u32
  m_bind_address :: nat
  m_timeout :: "s32 option"

datatype seq_match = SEQ_MATCH_STRICT_ID | SEQ_MATCH_FALLBACK | SEQ_MATCH_NO_ID

datatype db_mode = DB_MODE_NONE | DB_MODE_REALTIME | DB_MODE_DELAYED

record dlg_cfg =
  cf_rr_param :: string
  cf_dlg_flag :: u32
  cf_default_timeout :: s32
  cf_seq_match_mode :: seq_match
  cf_enable_stats :: bool
  cf_db_mode :: db_mode

record dlg_tran =
  t_relaied_reply_branch :: int
  t_added_rr :: "int \<Rightarrow> u32"

record dlg_env =
  en_time :: u32
  en_ticks :: u32
  en_cell :: "nat option"
  en_tag :: "nat option"
  en_cseq :: "nat option"
  en_pkg :: "int \<Rightarrow> bool"
  en_use_table :: bool
  en_db :: bool
  en_add_rr :: bool
  en_register :: bool
  en_stale :: dlg_state

definition trim_char :: "char \<Rightarrow> bool" where
  "trim_char c \<longleftrightarrow> uchar c \<in> {32, 9, 13, 10}"

definition trim :: "string \<Rightarrow> string" where
  "trim s = rev (dropWhile trim_char (rev (dropWhile trim_char s)))"

definition if_update_stat :: "bool \<Rightarrow> (dlg_stats \<Rightarrow> dlg_stats) \<Rightarrow> dlg_world \<Rightarrow> dlg_world" where
  "if_update_stat c f w = (if c then w\<lparr>w_stats := f (w_stats w)\<rparr> else w)"

section \<open>The database\<close>

text \<open>The record that is inserted holds the values of the cell; the timeout is absolute.\<close>

definition db_timeout :: "dlg_env \<Rightarrow> nat \<Rightarrow> dlg_world \<Rightarrow> u32 option" where
  "db_timeout env dlg w = map_option (\<lambda>t. en_time env + tl_timeout t - en_ticks env) (w_timer w dlg)"

definition update_dialog_dbinfo :: "dlg_env \<Rightarrow> nat \<Rightarrow> dlg_world \<Rightarrow> (dlg_world \<times> int) option" where
  "update_dialog_dbinfo env dlg w =
     (if \<not> en_use_table env then Some (w, - 1)
      else do { c \<leftarrow> w_cells w dlg;
                tmo \<leftarrow> db_timeout env dlg w;
                if and (d_flags c) DLG_FLAG_NEW \<noteq> 0
                then do { _ \<leftarrow> lg_bind_addr (d_leg c DLG_CALLER_LEG);
                          _ \<leftarrow> lg_bind_addr (d_leg c DLG_CALLEE_LEG);
                          if \<not> en_db env then Some (w, - 1)
                          else do { w \<leftarrow> upd_cell dlg (\<lambda>c. c\<lparr>d_flags :=
                                          and (d_flags c) (not (or DLG_FLAG_NEW DLG_FLAG_CHANGED))\<rparr>) w;
                                    Some (w\<lparr>w_db := w_db w @ [DbInsert (d_h_entry c) (d_h_id c) c tmo]\<rparr>, 0) } }
                else if and (d_flags c) DLG_FLAG_CHANGED \<noteq> 0
                then if \<not> en_db env then Some (w, - 1)
                     else do { w \<leftarrow> upd_cell dlg (\<lambda>c. c\<lparr>d_flags := and (d_flags c) (not DLG_FLAG_CHANGED)\<rparr>) w;
                               Some (w\<lparr>w_db := w_db w @ [DbUpdate (d_h_entry c) (d_h_id c) (d_state c) tmo
                                 (lg_cseq (d_leg c DLG_CALLER_LEG)) (lg_cseq (d_leg c DLG_CALLEE_LEG))]\<rparr>, 0) }
                else Some (w, 0) })"

definition remove_dialog_from_db :: "dlg_env \<Rightarrow> nat \<Rightarrow> dlg_world \<Rightarrow> (dlg_world \<times> int) option" where
  "remove_dialog_from_db env dlg w =
     do { c \<leftarrow> w_cells w dlg;
          if and (d_flags c) DLG_FLAG_NEW \<noteq> 0 then Some (w, 0)
          else if \<not> en_use_table env \<or> \<not> en_db env then Some (w, - 1)
          else Some (w\<lparr>w_db := w_db w @ [DbDelete (d_h_entry c) (d_h_id c)]\<rparr>, 0) }"

definition realtime_save :: "dlg_env \<Rightarrow> dlg_cfg \<Rightarrow> nat \<Rightarrow> dlg_world \<Rightarrow> dlg_world option" where
  "realtime_save env cfg dlg w =
     (if cf_db_mode cfg = DB_MODE_REALTIME then map_option fst (update_dialog_dbinfo env dlg w) else Some w)"

definition db_remove :: "dlg_env \<Rightarrow> dlg_cfg \<Rightarrow> nat \<Rightarrow> dlg_world \<Rightarrow> dlg_world option" where
  "db_remove env cfg dlg w =
     (if cf_db_mode cfg \<noteq> DB_MODE_NONE then map_option fst (remove_dialog_from_db env dlg w) else Some w)"

section \<open>The Record-Route parameter\<close>

definition MAX_DLG_RR_PARAM_NAME :: nat where "MAX_DLG_RR_PARAM_NAME = 32"
definition RR_DLG_PARAM_SIZE :: nat where "RR_DLG_PARAM_SIZE = 2 * 2 * 4 + 3 + MAX_DLG_RR_PARAM_NAME"
definition DLG_SEPARATOR :: char where "DLG_SEPARATOR = CHR ''.''"

text \<open>The parameter \<open>add_dlg_rr_param\<close> prints, if both numbers can be printed.\<close>

definition add_dlg_rr_param :: "dlg_cfg \<Rightarrow> u32 \<Rightarrow> u32 \<Rightarrow> string option" where
  "add_dlg_rr_param cfg entry i =
     (let p = '';'' @ cf_rr_param cfg @ ''='';
          (e, _, r) = int2reverse_hex (RR_DLG_PARAM_SIZE - length p) (ucast entry)
      in if r = - 1 then None
         else let p = p @ e @ [DLG_SEPARATOR];
                  (d, _, r) = int2reverse_hex (RR_DLG_PARAM_SIZE - length p) (ucast i)
              in if r = - 1 then None else Some (p @ d))"

text \<open>
  \<open>parse_dlg_rr_param\<close> of a value; \<open>nxt\<close> is the byte behind the value, which is read when
  the value has no separator.
\<close>

definition parse_dlg_rr_param :: "string \<Rightarrow> char \<Rightarrow> (s32 \<times> s32) option" where
  "parse_dlg_rr_param val nxt =
     (let s = takeWhile (\<lambda>c. c \<noteq> DLG_SEPARATOR) val; rest = dropWhile (\<lambda>c. c \<noteq> DLG_SEPARATOR) val
      in if rest = [] \<and> nxt \<noteq> DLG_SEPARATOR then None
         else if sint (reverse_hex2int s) < 0 then None
         else if sint (reverse_hex2int (drop 1 rest)) < 0 then None
         else Some (reverse_hex2int s, reverse_hex2int (drop 1 rest)))"

section \<open>Leg information\<close>

text \<open>
  \<open>populate_leg_info\<close>.  The conditional operator binds weaker than the addition, so the number
  of skipped records is \<open>added_rr\<close> of the reply branch whenever \<open>from_rr_nb + (branch >= 0)\<close>
  is not 0.
\<close>

definition skip_recs :: "dlg_cell \<Rightarrow> dlg_tran \<Rightarrow> dlg_leg \<Rightarrow> u32" where
  "skip_recs c t leg =
     (if leg = DLG_CALLER_LEG then 0
      else if d_from_rr_nb c + (if t_relaied_reply_branch t \<ge> 0 then 1 else 0) \<noteq> 0
      then t_added_rr t (t_relaied_reply_branch t) else 0)"

definition populate_leg_info ::
  "dlg_env \<Rightarrow> nat \<Rightarrow> dlg_msg \<Rightarrow> dlg_tran \<Rightarrow> dlg_leg \<Rightarrow> string \<Rightarrow> dlg_world \<Rightarrow> (dlg_world \<times> int) option" where
  "populate_leg_info env dlg msg t leg tag w =
     do { c \<leftarrow> w_cells w dlg;
          case (if leg = DLG_CALLER_LEG then m_cseq msg else Some (lg_cseq (d_leg c DLG_CALLER_LEG)),
                m_contact msg, m_rr msg) of
            (Some cseq, Some [contact], Some hs) \<Rightarrow>
              do { (ret, rr_set, nb) \<leftarrow>
                     (if hs \<noteq> [] then print_rr_body (en_pkg env) hs (leg = DLG_CALLEE_LEG) (Some (skip_recs c t leg))
                      else Some (0, [], Some (skip_recs c t leg)));
                   if ret \<noteq> 0 then Some (w, - 1)
                   else do { w \<leftarrow> (if leg = DLG_CALLER_LEG
                                  then upd_cell dlg (\<lambda>c. c\<lparr>d_from_rr_nb := (case nb of Some n \<Rightarrow> n | None \<Rightarrow> 0)\<rparr>) w
                                  else Some w);
                             (w, r) \<leftarrow> dlg_set_leg_info (en_tag env) (en_cseq env) dlg tag rr_set contact cseq leg w;
                             if r \<noteq> 0 then Some (w, - 1)
                             else do { w \<leftarrow> upd_cell dlg (set_leg leg (\<lambda>l. l\<lparr>lg_bind_addr := Some (m_bind_address msg)\<rparr>)) w;
                                       Some (w, 0) } } }
          | _ \<Rightarrow> Some (w, - 1) }"

section \<open>Replies\<close>

datatype tmcb = TMCB_RESPONSE_OUT | TMCB_RESPONSE_FWDED | TMCB_TRANS_DELETED

definition reply_event :: "tmcb \<Rightarrow> int \<Rightarrow> dlg_event" where
  "reply_event type code =
     (if type = TMCB_TRANS_DELETED then DLG_EVENT_TDEL
      else if code < 200 then DLG_EVENT_RPL1xx
      else if code < 300 then DLG_EVENT_RPL2xx
      else DLG_EVENT_RPL3xx)"

text \<open>The three branches of \<open>dlg_onreply\<close> behind the state machine.\<close>

definition reply_early :: "dlg_cfg \<Rightarrow> nat \<Rightarrow> dlg_state \<Rightarrow> dlg_world \<Rightarrow> dlg_world option" where
  "reply_early cfg dlg old w =
     do { w \<leftarrow> run_dlg_callbacks DLGCB_EARLY dlg w;
          Some (if old \<noteq> DLG_STATE_EARLY
                then if_update_stat (cf_enable_stats cfg) (\<lambda>s. s\<lparr>early_dlgs := early_dlgs s + 1\<rparr>) w else w) }"

definition reply_confirmed ::
  "dlg_env \<Rightarrow> dlg_cfg \<Rightarrow> nat \<Rightarrow> dlg_msg option \<Rightarrow> dlg_tran \<Rightarrow> dlg_state \<Rightarrow> dlg_world \<Rightarrow> dlg_world option" where
  "reply_confirmed env cfg dlg rpl t old w =
     do { rpl \<leftarrow> rpl;
          (_, tag) \<leftarrow> m_to rpl;
          (w, _) \<leftarrow> populate_leg_info env dlg rpl t DLG_CALLEE_LEG tag w;
          w \<leftarrow> upd_cell dlg (\<lambda>c. c\<lparr>d_start_ts := en_time env, d_flags := or (d_flags c) DLG_FLAG_NEW\<rparr>) w;
          w \<leftarrow> realtime_save env cfg dlg w;
          c \<leftarrow> w_cells w dlg;
          (h, _) \<leftarrow> insert_dlg_timer (w_first w) (en_ticks env) (w_timer w) dlg (d_lifetime c);
          w \<leftarrow> run_dlg_callbacks DLGCB_CONFIRMED dlg (w\<lparr>w_timer := h\<rparr>);
          let w = (if old = DLG_STATE_EARLY
                   then if_update_stat (cf_enable_stats cfg) (\<lambda>s. s\<lparr>early_dlgs := early_dlgs s - 1\<rparr>) w else w);
          Some (if_update_stat (cf_enable_stats cfg) (\<lambda>s. s\<lparr>active_dlgs := active_dlgs s + 1\<rparr>) w) }"

definition reply_failed :: "dlg_cfg \<Rightarrow> nat \<Rightarrow> dlg_state \<Rightarrow> int option \<Rightarrow> dlg_world \<Rightarrow> dlg_world option" where
  "reply_failed cfg dlg old unref w =
     do { w \<leftarrow> run_dlg_callbacks DLGCB_FAILED dlg w;
          n \<leftarrow> unref;
          w \<leftarrow> (if n \<noteq> 0 then unref_dlg dlg n w else Some w);
          Some (if old = DLG_STATE_EARLY
                then if_update_stat (cf_enable_stats cfg) (\<lambda>s. s\<lparr>early_dlgs := early_dlgs s - 1\<rparr>) w else w) }"

definition dlg_onreply ::
  "dlg_env \<Rightarrow> dlg_cfg \<Rightarrow> nat \<Rightarrow> tmcb \<Rightarrow> int \<Rightarrow> dlg_msg option \<Rightarrow> dlg_tran \<Rightarrow> dlg_world \<Rightarrow> dlg_world option" where
  "dlg_onreply env cfg dlg type code rpl t w =
     (if w_shutdown w then Some w
      else if type = TMCB_RESPONSE_FWDED then run_dlg_callbacks DLGCB_RESPONSE_FWDED dlg w
      else do { (w, old, new, unref) \<leftarrow> next_state_dlg (en_stale env) dlg (reply_event type code) w;
                if new = DLG_STATE_EARLY then reply_early cfg dlg old w
                else if new = DLG_STATE_CONFIRMED_NA \<and> old \<noteq> DLG_STATE_CONFIRMED_NA \<and> old \<noteq> DLG_STATE_CONFIRMED
                then reply_confirmed env cfg dlg rpl t old w
                else if old \<noteq> DLG_STATE_DELETED \<and> new = DLG_STATE_DELETED then reply_failed cfg dlg old unref w
                else Some w })"

section \<open>The first request\<close>

definition get_dlg_timeout :: "dlg_cfg \<Rightarrow> dlg_msg \<Rightarrow> s32" where
  "get_dlg_timeout cfg req =
     (case m_timeout req of Some v \<Rightarrow> if sint v > 0 then v else cf_default_timeout cfg | None \<Rightarrow> cf_default_timeout cfg)"

definition free_cell :: "nat \<Rightarrow> dlg_world \<Rightarrow> dlg_world" where
  "free_cell dlg w = w\<lparr>w_cells := (w_cells w)(dlg := None), w_timer := (w_timer w)(dlg := None)\<rparr>"

definition onreq_error :: "nat \<Rightarrow> dlg_world \<Rightarrow> dlg_world option" where
  "onreq_error dlg w =
     do { w \<leftarrow> unref_dlg dlg 2 w;
          Some (if_update_stat True (\<lambda>s. s\<lparr>failed_dlgs := failed_dlgs s + 1\<rparr>) w) }"

text \<open>What \<open>dlg_onreq\<close> does with the new dialog once its caller is known.\<close>

definition onreq_link :: "dlg_env \<Rightarrow> dlg_cfg \<Rightarrow> dlg_msg \<Rightarrow> nat \<Rightarrow> dlg_world \<Rightarrow> dlg_world option" where
  "onreq_link env cfg req dlg w =
     do { w \<leftarrow> link_dlg dlg 1 (run_create_callbacks dlg w);
          c \<leftarrow> w_cells w dlg;
          if cf_seq_match_mode cfg \<noteq> SEQ_MATCH_NO_ID
             \<and> (add_dlg_rr_param cfg (d_h_entry c) (d_h_id c) = None \<or> \<not> en_add_rr env)
          then onreq_error dlg w
          else if \<not> en_register env then onreq_error dlg w
          else do { w \<leftarrow> upd_cell dlg (\<lambda>c. c\<lparr>d_lifetime := ucast (get_dlg_timeout cfg req)\<rparr>) w;
                    Some (if_update_stat (cf_enable_stats cfg) (\<lambda>s. s\<lparr>processed_dlgs := processed_dlgs s + 1\<rparr>)
                            (w\<lparr>w_tmcb := insert dlg (w_tmcb w)\<rparr>)) } }"

definition dlg_onreq :: "dlg_env \<Rightarrow> dlg_cfg \<Rightarrow> dlg_tran \<Rightarrow> dlg_msg \<Rightarrow> dlg_world \<Rightarrow> dlg_world option" where
  "dlg_onreq env cfg t req w =
     (case m_to req of
        None \<Rightarrow> Some w
      | Some (to_uri, to_tag) \<Rightarrow>
          if to_tag \<noteq> [] \<or> m_method req = METHOD_CANCEL \<or> and (m_flags req) (cf_dlg_flag cfg) \<noteq> cf_dlg_flag cfg
          then Some w
          else case (m_from req, m_callid req) of
                 (Some (from_uri, from_tag), Some callid) \<Rightarrow>
                   (case build_new_dlg (en_cell env) (trim callid) from_uri to_uri from_tag w of
                      (w, None) \<Rightarrow> Some w
                    | (w, Some dlg) \<Rightarrow>
                        do { (w, r) \<leftarrow> populate_leg_info env dlg req t DLG_CALLER_LEG from_tag w;
                             if r \<noteq> 0 then Some (free_cell dlg w) else onreq_link env cfg req dlg w })
               | _ \<Rightarrow> Some w)"

section \<open>Requests within the dialog\<close>

definition pre_match_parse :: "dlg_msg \<Rightarrow> (string \<times> string \<times> string) option" where
  "pre_match_parse req =
     (case (m_callid req, m_to req, m_from req) of
        (Some callid, Some (_, ttag), Some (_, ftag)) \<Rightarrow>
          if ttag = [] \<or> ftag = [] then None else Some (trim callid, ftag, ttag)
      | _ \<Rightarrow> None)"

definition update_cseqs :: "dlg_env \<Rightarrow> nat \<Rightarrow> dlg_msg \<Rightarrow> dlg_dir \<Rightarrow> dlg_world \<Rightarrow> (dlg_world \<times> int) option" where
  "update_cseqs env dlg req dir w =
     (case m_cseq req of
        None \<Rightarrow> Some (w, - 1)
      | Some cseq \<Rightarrow>
          (case dir of
             DLG_DIR_UPSTREAM \<Rightarrow> dlg_update_cseq (en_cseq env) dlg DLG_CALLEE_LEG cseq w
           | DLG_DIR_DOWNSTREAM \<Rightarrow> dlg_update_cseq (en_cseq env) dlg DLG_CALLER_LEG cseq w
           | DLG_DIR_NONE \<Rightarrow> Some (w, - 1)))"

text \<open>
  The dialog of a request and its direction.  No dialog means that \<open>dlg_onroute\<close> returns; the
  two returns behind \<open>lookup_dlg\<close> keep the reference the lookup has taken.
\<close>

definition route_get :: "dlg_msg \<Rightarrow> dlg_world \<Rightarrow> (dlg_world \<times> (nat \<times> dlg_dir) option) option" where
  "route_get req w =
     (case pre_match_parse req of
        None \<Rightarrow> Some (w, None)
      | Some (callid, ftag, ttag) \<Rightarrow>
          do { (w, r, dir) \<leftarrow> get_dlg callid ftag ttag DLG_DIR_NONE w;
               Some (w, map_option (\<lambda>dlg. (dlg, dir)) r) })"

definition route_lookup :: "dlg_msg \<Rightarrow> string \<Rightarrow> char \<Rightarrow> dlg_world \<Rightarrow> (dlg_world \<times> (nat \<times> dlg_dir) option) option" where
  "route_lookup req val nxt w =
     (case parse_dlg_rr_param val nxt of
        None \<Rightarrow> Some (w, None)
      | Some (h_entry, h_id) \<Rightarrow>
          do { (w, r) \<leftarrow> lookup_dlg (ucast h_entry) (ucast h_id) w;
               case r of
                 None \<Rightarrow> Some (w, None)
               | Some dlg \<Rightarrow>
                   (case pre_match_parse req of
                      None \<Rightarrow> Some (w, None)
                    | Some (callid, ftag, ttag) \<Rightarrow>
                        do { c \<leftarrow> w_cells w dlg;
                             case match_dialog c callid ftag ttag DLG_DIR_NONE of
                               (True, dir) \<Rightarrow> Some (w, Some (dlg, dir))
                             | (False, _) \<Rightarrow> Some (w, None) }) })"

definition route_find :: "dlg_cfg \<Rightarrow> dlg_msg \<Rightarrow> dlg_world \<Rightarrow> (dlg_world \<times> (nat \<times> dlg_dir) option) option" where
  "route_find cfg req w =
     (if cf_seq_match_mode cfg = SEQ_MATCH_NO_ID then route_get req w
      else case m_route_param req of
             None \<Rightarrow> if cf_seq_match_mode cfg = SEQ_MATCH_STRICT_ID then Some (w, None) else route_get req w
           | Some (val, nxt) \<Rightarrow> route_lookup req val nxt w)"

definition route_event :: "sip_method \<Rightarrow> dlg_event" where
  "route_event m =
     (case m of METHOD_PRACK \<Rightarrow> DLG_EVENT_REQPRACK | METHOD_ACK \<Rightarrow> DLG_EVENT_REQACK
              | METHOD_BYE \<Rightarrow> DLG_EVENT_REQBYE | _ \<Rightarrow> DLG_EVENT_REQ)"

text \<open>A BYE that ends the dialog, and a request that refreshes it.\<close>

definition route_bye :: "dlg_env \<Rightarrow> dlg_cfg \<Rightarrow> nat \<Rightarrow> int option \<Rightarrow> dlg_world \<Rightarrow> dlg_world option" where
  "route_bye env cfg dlg unref w =
     do { (h, _) \<leftarrow> remove_dlg_timer (w_timer w) dlg;
          w \<leftarrow> run_dlg_callbacks DLGCB_TERMINATED dlg (w\<lparr>w_timer := h\<rparr>);
          w \<leftarrow> db_remove env cfg dlg w;
          n \<leftarrow> unref;
          w \<leftarrow> unref_dlg dlg (n + 1) w;
          Some (if_update_stat (cf_enable_stats cfg) (\<lambda>s. s\<lparr>active_dlgs := active_dlgs s - 1\<rparr>) w) }"

definition set_changed :: "nat \<Rightarrow> dlg_world \<Rightarrow> dlg_world option" where
  "set_changed dlg w = upd_cell dlg (\<lambda>c. c\<lparr>d_flags := or (d_flags c) DLG_FLAG_CHANGED\<rparr>) w"

definition route_refresh :: "dlg_env \<Rightarrow> dlg_cfg \<Rightarrow> dlg_msg \<Rightarrow> nat \<Rightarrow> dlg_dir \<Rightarrow> dlg_world \<Rightarrow> dlg_world option" where
  "route_refresh env cfg req dlg dir w =
     do { w \<leftarrow> upd_cell dlg (\<lambda>c. c\<lparr>d_lifetime := ucast (get_dlg_timeout cfg req)\<rparr>) w;
          (h, r) \<leftarrow> update_dlg_timer (w_first w) (en_ticks env) (w_timer w) dlg (ucast (get_dlg_timeout cfg req));
          let w = w\<lparr>w_timer := h\<rparr>;
          if r = - 1 then Some w
          else do { (w, r) \<leftarrow> update_cseqs env dlg req dir w;
                    w \<leftarrow> (if r \<noteq> 0 then Some w
                         else do { w \<leftarrow> set_changed dlg w; realtime_save env cfg dlg w });
                    run_dlg_callbacks DLGCB_REQ_WITHIN dlg w } }"

definition dlg_onroute :: "dlg_env \<Rightarrow> dlg_cfg \<Rightarrow> dlg_msg \<Rightarrow> dlg_world \<Rightarrow> dlg_world option" where
  "dlg_onroute env cfg req w =
     do { (w, r) \<leftarrow> route_find cfg req w;
          case r of
            None \<Rightarrow> Some w
          | Some (dlg, dir) \<Rightarrow>
              do { let event = route_event (m_method req);
                   (w, old, new, unref) \<leftarrow> next_state_dlg (en_stale env) dlg event w;
                   c \<leftarrow> w_cells w dlg;
                   let w = w\<lparr>w_curr := (m_id req, en_time env - d_start_ts c, new)\<rparr>;
                   if event = DLG_EVENT_REQBYE \<and> new = DLG_STATE_DELETED \<and> old \<noteq> DLG_STATE_DELETED
                   then route_bye env cfg dlg unref w
                   else do { w \<leftarrow> (if (event = DLG_EVENT_REQ \<or> event = DLG_EVENT_REQACK) \<and> new = DLG_STATE_CONFIRMED
                                  then route_refresh env cfg req dlg dir w else Some w);
                             w \<leftarrow> (if new = DLG_STATE_CONFIRMED \<and> old = DLG_STATE_CONFIRMED_NA
                                  then do { w \<leftarrow> set_changed dlg w; realtime_save env cfg dlg w } else Some w);
                             unref_dlg dlg 1 w } } }"

section \<open>Timeouts\<close>

definition dlg_ontimeout :: "dlg_env \<Rightarrow> dlg_cfg \<Rightarrow> nat \<Rightarrow> dlg_world \<Rightarrow> dlg_world option" where
  "dlg_ontimeout env cfg dlg w =
     do { (w, old, new, unref) \<leftarrow> next_state_dlg (en_stale env) dlg DLG_EVENT_REQBYE w;
          if new = DLG_STATE_DELETED \<and> old \<noteq> DLG_STATE_DELETED
          then do { w \<leftarrow> run_dlg_callbacks DLGCB_EXPIRED dlg w;
                    w \<leftarrow> db_remove env cfg dlg w;
                    n \<leftarrow> unref;
                    w \<leftarrow> unref_dlg dlg n w;
                    let w = if_update_stat (cf_enable_stats cfg) (\<lambda>s. s\<lparr>expired_dlgs := expired_dlgs s + 1\<rparr>) w;
                    Some (if_update_stat (cf_enable_stats cfg) (\<lambda>s. s\<lparr>active_dlgs := active_dlgs s - 1\<rparr>) w) }
          else Some w }"

text \<open>The timer routine with \<open>dlg_ontimeout\<close> as its handler.\<close>

definition timeout_handler :: "dlg_env \<Rightarrow> dlg_cfg \<Rightarrow> nat \<Rightarrow> tl_heap \<times> dlg_world \<Rightarrow> (tl_heap \<times> dlg_world) option" where
  "timeout_handler env cfg dlg s =
     do { w \<leftarrow> dlg_ontimeout env cfg dlg ((snd s)\<lparr>w_timer := fst s\<rparr>); Some (w_timer w, w) }"

definition dlg_timer_run :: "dlg_env \<Rightarrow> dlg_cfg \<Rightarrow> dlg_world \<Rightarrow> dlg_world option" where
  "dlg_timer_run env cfg w =
     do { (h, w) \<leftarrow> dlg_timer_routine (w_first w) (timeout_handler env cfg) (w_timer w, w) (en_ticks env);
          Some (w\<lparr>w_timer := h\<rparr>) }"

section \<open>The parameter and its reader\<close>

lemma hex_loop_length:
  "0 \<le> sint nr \<Longrightarrow> unat nr < 16 ^ k \<Longrightarrow> length (fst (int2reverse_hex_loop n nr)) \<le> k"
proof (induction n arbitrary: nr k)
  case (Suc n)
  show ?case
  proof (cases "nr = 0")
    case False
    then obtain k' where k: "k = Suc k'"
      using Suc.prems (2) by (cases k) (auto simp: unat_eq_zero)
    note sd = signed_drop_bit_nonneg [OF Suc.prems (1)]
    have "unat (signed_drop_bit 4 nr) < 16 ^ k'"
      using Suc.prems (2) sd (2) k by (simp add: less_mult_imp_div_less mult.commute)
    from Suc.IH [OF sd (1) this] show ?thesis
      using False k by (auto simp: Let_def split: prod.split)
  qed simp
qed simp

lemma hex_loop_separator: "DLG_SEPARATOR \<notin> set (fst (int2reverse_hex_loop n nr))"
proof (induction n arbitrary: nr)
  case (Suc n)
  have "chr (unat (nr AND 0xf) + 97 - 10) \<noteq> DLG_SEPARATOR" if "unat (nr AND 0xf) \<ge> 10"
  proof -
    have "unat (nr AND 0xf) < 16" unfolding unat_and_15 by simp
    then show ?thesis using that by (simp add: chr_eq_iff DLG_SEPARATOR_def uchar_def)
  qed
  moreover have "chr (unat (nr AND 0xf) + 48) \<noteq> DLG_SEPARATOR" if "\<not> unat (nr AND 0xf) \<ge> 10"
    using that by (simp add: chr_eq_iff DLG_SEPARATOR_def uchar_def)
  ultimately show ?case
    using Suc.IH [of "signed_drop_bit 4 nr"] by (auto simp: Let_def split: prod.splits)
qed simp

lemma int2reverse_hex_ok:
  assumes "8 \<le> sz" and "0 \<le> sint nr"
  obtains out where "int2reverse_hex sz nr = (out, sz - length out, 1)" and "length out \<le> 8" and "DLG_SEPARATOR \<notin> set out"
    and "reverse_hex2int out = nr"
proof (cases "nr = 0")
  case True
  then show ?thesis
    using that [of "''0''"] assms (1) by (simp add: int2reverse_hex_def reverse_hex2int_zero DLG_SEPARATOR_def)
next
  case False
  have l: "unat nr < 16 ^ 8" using unsigned_less [of nr, where 'a = nat] by simp
  also have "\<dots> \<le> 16 ^ sz" using assms (1) by (rule power_increasing) simp
  finally obtain out where o: "int2reverse_hex_loop sz nr = (out, sz - length out, 0)" "hex_acc 0 (rev out) = Some nr"
    using int2reverse_hex_loop_roundtrip [OF assms (2)] by blast
  show ?thesis
    using that [of out] o False hex_loop_length [OF assms (2) l, of sz] hex_loop_separator [of sz nr]
    by (simp add: int2reverse_hex_def reverse_hex2int_def)
qed

lemma int2reverse_hex_negative: "sint nr < 0 \<Longrightarrow> snd (snd (int2reverse_hex sz nr)) = - 1"
  using int2reverse_hex_loop_negative [of nr sz] by (auto simp: int2reverse_hex_def split: prod.split)

lemma parse_dlg_rr_param_print:
  assumes "DLG_SEPARATOR \<notin> set e" and "0 \<le> sint (reverse_hex2int e)" and "0 \<le> sint (reverse_hex2int d)"
  shows "parse_dlg_rr_param (e @ DLG_SEPARATOR # d) nxt = Some (reverse_hex2int e, reverse_hex2int d)"
proof -
  have "takeWhile (\<lambda>c. c \<noteq> DLG_SEPARATOR) (e @ DLG_SEPARATOR # d) = e"
    "dropWhile (\<lambda>c. c \<noteq> DLG_SEPARATOR) (e @ DLG_SEPARATOR # d) = DLG_SEPARATOR # d"
    using assms (1) by (auto simp: takeWhile_append dropWhile_append)
  then show ?thesis
    using assms (2,3) by (simp add: parse_dlg_rr_param_def Let_def)
qed

text \<open>
  C16. The parameter a dialog adds to the Record-Route header is read back as the entry and the
  identifier it was printed from and fits its buffer, as long as both are below \<open>2^31\<close>.  For a
  greater number the parameter is not printed at all, and \<open>dlg_onreq\<close> gives the dialog up.
\<close>

theorem rr_param_roundtrip:
  assumes "length (cf_rr_param cfg) \<le> MAX_DLG_RR_PARAM_NAME"
  shows "if 0 \<le> sint (ucast entry :: s32) \<and> 0 \<le> sint (ucast i :: s32)
    then \<exists>val. add_dlg_rr_param cfg entry i = Some ('';'' @ cf_rr_param cfg @ ''='' @ val)
      \<and> length ('';'' @ cf_rr_param cfg @ ''='' @ val) \<le> RR_DLG_PARAM_SIZE
      \<and> parse_dlg_rr_param val nxt = Some (ucast entry, ucast i)
    else add_dlg_rr_param cfg entry i = None"
proof -
  let ?p = "'';'' @ cf_rr_param cfg @ ''=''" and ?e = "ucast entry :: s32" and ?i = "ucast i :: s32"
  have p: "8 \<le> RR_DLG_PARAM_SIZE - length ?p"
    using assms by (simp add: RR_DLG_PARAM_SIZE_def MAX_DLG_RR_PARAM_NAME_def)
  show ?thesis
  proof (cases "0 \<le> sint ?e")
    case False
    then show ?thesis
      using int2reverse_hex_negative [of ?e "RR_DLG_PARAM_SIZE - length ?p"] by (auto simp: add_dlg_rr_param_def Let_def split: prod.split)
  next
    case True
    obtain e where e: "int2reverse_hex (RR_DLG_PARAM_SIZE - length ?p) ?e = (e, RR_DLG_PARAM_SIZE - length ?p - length e, 1)"
        "length e \<le> 8" "DLG_SEPARATOR \<notin> set e" "reverse_hex2int e = ?e"
      using int2reverse_hex_ok [OF p True] .
    let ?q = "?p @ e @ [DLG_SEPARATOR]"
    have q: "8 \<le> RR_DLG_PARAM_SIZE - length ?q"
      using assms e (2) by (simp add: RR_DLG_PARAM_SIZE_def MAX_DLG_RR_PARAM_NAME_def)
    show ?thesis
    proof (cases "0 \<le> sint ?i")
      case False
      then show ?thesis
        using int2reverse_hex_negative [of ?i "RR_DLG_PARAM_SIZE - length ?q"] e (1)
        by (auto simp: add_dlg_rr_param_def Let_def split: prod.split)
    next
      case i: True
      obtain d where d: "int2reverse_hex (RR_DLG_PARAM_SIZE - length ?q) ?i = (d, RR_DLG_PARAM_SIZE - length ?q - length d, 1)"
          "length d \<le> 8" "reverse_hex2int d = ?i"
        using int2reverse_hex_ok [OF q i] by metis
      have "parse_dlg_rr_param (e @ DLG_SEPARATOR # d) nxt = Some (?e, ?i)"
        using parse_dlg_rr_param_print [OF e (3)] True i e (4) d (3) by simp
      moreover have "add_dlg_rr_param cfg entry i = Some (?p @ e @ DLG_SEPARATOR # d)"
        using e (1) d (1) by (simp add: add_dlg_rr_param_def Let_def)
      moreover have "length (?p @ e @ DLG_SEPARATOR # d) \<le> RR_DLG_PARAM_SIZE"
        using assms e (2) d (2) by (simp add: RR_DLG_PARAM_SIZE_def MAX_DLG_RR_PARAM_NAME_def)
      ultimately show ?thesis
        using True i by (intro if_P [THEN iffD2]) auto
    qed
  qed
qed

text \<open>A configuration and a first request, for examples.\<close>

definition sample_cfg :: dlg_cfg where
  "sample_cfg = \<lparr>cf_rr_param = ''did'', cf_dlg_flag = 1, cf_default_timeout = 60, cf_seq_match_mode = SEQ_MATCH_STRICT_ID,
     cf_enable_stats = True, cf_db_mode = DB_MODE_NONE\<rparr>"

definition sample_env :: dlg_env where
  "sample_env = \<lparr>en_time = 100, en_ticks = 5, en_cell = Some 10, en_tag = Some 20, en_cseq = Some 21, en_pkg = (\<lambda>_. True),
     en_use_table = False, en_db = False, en_add_rr = True, en_register = True, en_stale = DLG_STATE_DELETED\<rparr>"

definition sample_req :: dlg_msg where
  "sample_req = \<lparr>m_to = Some (''sip:b'', []), m_from = Some (''sip:a'', ''t1''), m_callid = Some ''c'', m_cseq = Some ''1'',
     m_contact = Some [''sip:a''], m_rr = Some [], m_route_param = None, m_method = METHOD_OTHER, m_flags = 1, m_id = 1,
     m_bind_address = 7, m_timeout = None\<rparr>"

definition sample_tran :: dlg_tran where
  "sample_tran = \<lparr>t_relaied_reply_branch = 0, t_added_rr = (\<lambda>_. 1)\<rparr>"

theorem rr_param_roundtrip_witness:
  "length (cf_rr_param sample_cfg) \<le> MAX_DLG_RR_PARAM_NAME
   \<and> (\<exists>val. add_dlg_rr_param sample_cfg 3 0x1f = Some ('';did='' @ val) \<and> parse_dlg_rr_param val (CHR '';'') = Some (3, 0x1f))
   \<and> add_dlg_rr_param sample_cfg 3 0x80000000 = None"
  using rr_param_roundtrip [of sample_cfg 3 "0x1f" "CHR '';''"] rr_param_roundtrip [of sample_cfg 3 "0x80000000" "CHR '';''"]
  by (auto simp: sample_cfg_def MAX_DLG_RR_PARAM_NAME_def)

end
