(* ===== verification/DlgRuns.thy ===== *)
theory DlgRuns
  imports DlgHandlers
begin

text \<open>
  The handlers of the dialog module at work: what each of them does to the invariant of
  \<open>DlgHash\<close>, the runs that are built from them, and what holds in every world that a run
  reaches.
\<close>

section \<open>Parts of the handlers\<close>

lemma quiet_stats: "quiet w w' \<Longrightarrow> quiet (w\<lparr>w_stats := x\<rparr>) (w'\<lparr>w_stats := x\<rparr>)"
  by (simp add: quiet_def states_def bound_cells_def)

lemma bound_cellsD: "a \<in> bound_cells leg w \<Longrightarrow> w_cells w a = Some c \<Longrightarrow> lg_bind_addr (d_leg c leg) \<noteq> None"
  by (auto simp: bound_cells_def)

lemma quiet_bound: "quiet w w' \<Longrightarrow> a \<in> bound_cells leg w \<Longrightarrow> a \<in> bound_cells leg w'"
  by (auto simp: quiet_def)

lemma upd_flags_inv:
  assumes "dlg_inv own T E w" and "w_cells w a = Some c"
  obtains w' where "upd_cell a (\<lambda>c. c\<lparr>d_flags := f c\<rparr>) w = Some w'" and "dlg_inv own T E w'" and "quiet w w'"
proof -
  have "\<exists>w'. upd_cell a (\<lambda>c. c\<lparr>d_flags := f c\<rparr>) w = Some w' \<and> dlg_inv own T E w' \<and> quiet w w'
      \<and> w_cells w' a = Some (c\<lparr>d_flags := f c\<rparr>) \<and> w_timer w' = w_timer w \<and> w_first w' = w_first w"
    by (rule inv_upd_cell [OF assms]) (auto simp: keeps_def cell_blocks_def)
  then show ?thesis using that by blast
qed

lemma upd_lifetime_inv:
  assumes "dlg_inv own T E w" and "w_cells w a = Some c"
  obtains w' where "upd_cell a (\<lambda>c. c\<lparr>d_lifetime := x\<rparr>) w = Some w'" and "dlg_inv own T E w'" and "quiet w w'"
proof -
  have "\<exists>w'. upd_cell a (\<lambda>c. c\<lparr>d_lifetime := x\<rparr>) w = Some w' \<and> dlg_inv own T E w' \<and> quiet w w'
      \<and> w_cells w' a = Some (c\<lparr>d_lifetime := x\<rparr>) \<and> w_timer w' = w_timer w \<and> w_first w' = w_first w"
    by (rule inv_upd_cell [OF assms]) (auto simp: keeps_def cell_blocks_def)
  then show ?thesis using that by blast
qed

lemma upd_start_inv:
  assumes "dlg_inv own T E w" and "w_cells w a = Some c"
  obtains w' where "upd_cell a (\<lambda>c. c\<lparr>d_start_ts := x, d_flags := f c\<rparr>) w = Some w'" and "dlg_inv own T E w'" and "quiet w w'"
proof -
  have "\<exists>w'. upd_cell a (\<lambda>c. c\<lparr>d_start_ts := x, d_flags := f c\<rparr>) w = Some w' \<and> dlg_inv own T E w' \<and> quiet w w'
      \<and> w_cells w' a = Some (c\<lparr>d_start_ts := x, d_flags := f c\<rparr>) \<and> w_timer w' = w_timer w \<and> w_first w' = w_first w"
    by (rule inv_upd_cell [OF assms]) (auto simp: keeps_def cell_blocks_def)
  then show ?thesis using that by blast
qed

lemma set_bind_inv:
  assumes "dlg_inv own T E w" and "w_cells w a = Some c"
  obtains w' where "upd_cell a (set_leg leg (\<lambda>l. l\<lparr>lg_bind_addr := Some x\<rparr>)) w = Some w'" and "dlg_inv own T E w'"
    and "quiet w w'" and "a \<in> bound_cells leg w'"
proof -
  let ?f = "set_leg leg (\<lambda>l. l\<lparr>lg_bind_addr := Some x\<rparr>)"
  have "\<exists>w'. upd_cell a ?f w = Some w' \<and> dlg_inv own T E w' \<and> quiet w w'
      \<and> w_cells w' a = Some (?f c) \<and> w_timer w' = w_timer w \<and> w_first w' = w_first w"
    by (rule inv_upd_cell [OF assms]; cases leg) (auto simp: keeps_def cell_blocks_def set_leg_def)
  then show ?thesis
    using that by (fastforce simp: bound_cells_def set_leg_def)
qed

lemma run_callbacks_inv:
  assumes "dlg_inv own T E w" and "w_cells w a = Some c"
  obtains w' where "run_dlg_callbacks type a w = Some w'" and "dlg_inv own T E w'" and "quiet w w'"
  using inv_run_callbacks [OF assms (2), of type own T E] assms (1) that by blast

text \<open>The database.\<close>

lemma inv_timer_node:
  assumes "dlg_inv own T E w" and "w_cells w a = Some c"
  obtains n where "w_timer w a = Some n"
proof -
  have "a \<in> dom (w_timer w)"
    using assms by (auto simp: dlg_inv_def timer_ok_def)
  then show ?thesis using that by blast
qed

lemma realtime_save_inv:
  assumes "dlg_inv own T E w" and "w_cells w a = Some c"
    and "cf_db_mode cfg = DB_MODE_REALTIME \<Longrightarrow> \<forall>leg. a \<in> bound_cells leg w"
  obtains w' where "realtime_save env cfg a w = Some w'" and "dlg_inv own T E w'" and "quiet w w'"
proof (cases "cf_db_mode cfg = DB_MODE_REALTIME \<and> en_use_table env")
  case True
  obtain n where n: "w_timer w a = Some n"
    using inv_timer_node [OF assms (1,2)] .
  obtain x y where b: "lg_bind_addr (d_leg c DLG_CALLER_LEG) = Some x" "lg_bind_addr (d_leg c DLG_CALLEE_LEG) = Some y"
    using True assms (2,3) bound_cellsD [of a DLG_CALLER_LEG w c] bound_cellsD [of a DLG_CALLEE_LEG w c] by auto
  obtain w1 where w1: "upd_cell a (\<lambda>c. c\<lparr>d_flags := and (d_flags c) (not (or DLG_FLAG_NEW DLG_FLAG_CHANGED))\<rparr>) w = Some w1"
      "dlg_inv own T E w1" "quiet w w1"
    using upd_flags_inv [OF assms (1,2)] .
  obtain w2 where w2: "upd_cell a (\<lambda>c. c\<lparr>d_flags := and (d_flags c) (not DLG_FLAG_CHANGED)\<rparr>) w = Some w2"
      "dlg_inv own T E w2" "quiet w w2"
    using upd_flags_inv [OF assms (1,2)] .
  show ?thesis
    using True assms (1,2) n b w1 w2
    by (intro that [of "fst (the (update_dialog_dbinfo env a w))"])
      (simp_all add: realtime_save_def update_dialog_dbinfo_def db_timeout_def)
qed (use that [of w] assms (1) in \<open>auto simp: realtime_save_def update_dialog_dbinfo_def\<close>)

lemma db_remove_inv:
  assumes "dlg_inv own T E w" and "w_cells w a = Some c"
  obtains w' where "db_remove env cfg a w = Some w'" and "dlg_inv own T E w'" and "quiet w w'"
proof -
  have "\<exists>x. db_remove env cfg a w = Some (w\<lparr>w_db := x\<rparr>)"
  proof (cases "cf_db_mode cfg = DB_MODE_NONE \<or> and (d_flags c) DLG_FLAG_NEW \<noteq> 0 \<or> \<not> en_use_table env \<or> \<not> en_db env")
    case True
    then have "db_remove env cfg a w = Some (w\<lparr>w_db := w_db w\<rparr>)"
      using assms (2) by (auto simp: db_remove_def remove_dialog_from_db_def)
    then show ?thesis ..
  next
    case False
    then have "db_remove env cfg a w = Some (w\<lparr>w_db := w_db w @ [DbDelete (d_h_entry c) (d_h_id c)]\<rparr>)"
      using assms (2) by (simp add: db_remove_def remove_dialog_from_db_def)
    then show ?thesis ..
  qed
  then show ?thesis
    using that assms (1) by fastforce
qed

text \<open>The callee's leg.  The transaction reports a sensible number of records.\<close>

definition tran_ok :: "dlg_tran \<Rightarrow> bool" where
  "tran_ok t \<longleftrightarrow> (\<forall>b. 0 \<le> sint (ucast (t_added_rr t b) :: s32))"

text \<open>The blocks the allocator returns are not in use.\<close>

definition fresh_blocks :: "dlg_env \<Rightarrow> dlg_world \<Rightarrow> bool" where
  "fresh_blocks env w \<longleftrightarrow>
     (\<forall>b. en_tag env = Some b \<longrightarrow> b \<notin> w_blocks w) \<and> (\<forall>b. en_cseq env = Some b \<longrightarrow> b \<notin> w_blocks w)
     \<and> (en_tag env \<noteq> None \<longrightarrow> en_tag env \<noteq> en_cseq env)"

text \<open>A message whose leg can be saved.\<close>

definition leg_ok :: "dlg_env \<Rightarrow> dlg_msg \<Rightarrow> bool" where
  "leg_ok env msg \<longleftrightarrow>
     (\<exists>u. m_contact msg = Some [u]) \<and> (\<exists>hs. m_rr msg = Some hs \<and> rr_collect [] hs \<noteq> None)
     \<and> (\<forall>n. en_pkg env n) \<and> en_tag env \<noteq> None"

lemma populate_callee_inv:
  assumes "dlg_inv own T E w" and "w_cells w a = Some c" and "tran_ok t" and "fresh_blocks env w"
    and "en_tag env = None \<longleftrightarrow> en_cseq env = None"
  obtains w' r where "populate_leg_info env a msg t DLG_CALLEE_LEG tag w = Some (w', r)" and "dlg_inv own T E w'"
    and "quiet w w'" and "leg_ok env msg \<Longrightarrow> a \<in> bound_cells DLG_CALLEE_LEG w'"
proof (cases "\<exists>u hs. m_contact msg = Some [u] \<and> m_rr msg = Some hs")
  case False
  then have "populate_leg_info env a msg t DLG_CALLEE_LEG tag w = Some (w, - 1)"
    using assms (2) by (auto simp: populate_leg_info_def split: option.split list.split)
  then show ?thesis
    using that [of w] assms (1) False by (auto simp: leg_ok_def)
next
  case True
  then obtain u hs where m: "m_contact msg = Some [u]" "m_rr msg = Some hs" by blast
  let ?k = "skip_recs c t DLG_CALLEE_LEG"
  have "0 \<le> sint (ucast ?k :: s32)"
    using assms (3) by (auto simp: skip_recs_def tran_ok_def)
  then obtain ret rr nb where p: "(if hs \<noteq> [] then print_rr_body (en_pkg env) hs True (Some ?k) else Some (0, [], Some ?k)) = Some (ret, rr, nb)"
      "rr_collect [] hs \<noteq> None \<and> (\<forall>n. en_pkg env n) \<longrightarrow> ret = 0"
    using print_rr_body_total [of ?k "en_pkg env" hs True] by (cases "hs = []") auto
  let ?cs = "lg_cseq (d_leg c DLG_CALLER_LEG)"
  obtain w1 where w1: "dlg_set_leg_info (en_tag env) (en_cseq env) a tag rr u ?cs DLG_CALLEE_LEG w
        = Some (w1, if en_tag env = None then - 1 else 0)" "dlg_inv own T E w1" "quiet w w1"
  proof -
    have "en_tag env = None \<and> en_cseq env = None \<or> (\<exists>b1 b2. en_tag env = Some b1 \<and> en_cseq env = Some b2 \<and> b1 \<noteq> b2
        \<and> b1 \<notin> w_blocks w \<and> b2 \<notin> w_blocks w)"
      using assms (4,5) by (cases "en_tag env"; cases "en_cseq env") (auto simp: fresh_blocks_def)
    then show ?thesis
      using set_leg_inv [OF assms (1,2)] that by blast
  qed
  obtain c1 where c1: "w_cells w1 a = Some c1"
    using quiet_cell [OF w1 (3) assms (2)] .
  obtain w2 where w2: "upd_cell a (set_leg DLG_CALLEE_LEG (\<lambda>l. l\<lparr>lg_bind_addr := Some (m_bind_address msg)\<rparr>)) w1 = Some w2"
      "dlg_inv own T E w2" "quiet w1 w2" "a \<in> bound_cells DLG_CALLEE_LEG w2"
    using set_bind_inv [OF w1 (2) c1] .
  consider "ret \<noteq> 0" | "ret = 0" "en_tag env = None" | "ret = 0" "en_tag env \<noteq> None" by blast
  then show ?thesis
  proof cases
    case 1
    then have "populate_leg_info env a msg t DLG_CALLEE_LEG tag w = Some (w, - 1)"
      using assms (2) m p by (simp add: populate_leg_info_def split: if_split_asm)
    with 1 show ?thesis using that [of w] assms (1) p (2) m by (auto simp: leg_ok_def)
  next
    case 2
    then have "populate_leg_info env a msg t DLG_CALLEE_LEG tag w = Some (w1, - 1)"
      using assms (2) m p w1 (1) by (simp add: populate_leg_info_def split: if_split_asm)
    with 2 show ?thesis using that [of w1] w1 by (auto simp: leg_ok_def)
  next
    case 3
    then have "populate_leg_info env a msg t DLG_CALLEE_LEG tag w = Some (w2, 0)"
      using assms (2) m p w1 (1) w2 (1) by (simp add: populate_leg_info_def split: if_split_asm)
    then show ?thesis using that [of w2] w2 quiet_trans [OF w1 (3) w2 (3)] by blast
  qed
qed

section \<open>Handlers for one dialog\<close>

text \<open>
  \<open>w'\<close> is \<open>w\<close> with the state of the dialog \<open>a\<close> set to \<open>x\<close>, or without
  \<open>a\<close> when \<open>x\<close> is \<open>None\<close>; its statistics are \<open>st\<close>.
\<close>

definition near :: "nat \<Rightarrow> dlg_state option \<Rightarrow> dlg_stats \<Rightarrow> dlg_world \<Rightarrow> dlg_world \<Rightarrow> bool" where
  "near a x st w w' \<longleftrightarrow>
     states w' = (states w)(a := x) \<and> (\<forall>leg b. b \<in> bound_cells leg w \<longrightarrow> states w' b \<noteq> None \<longrightarrow> b \<in> bound_cells leg w')
     \<and> w_tmcb w' = w_tmcb w \<and> w_shutdown w' = w_shutdown w \<and> w_stats w' = st"

lemma near_replace:
  assumes "w_cells w' = (w_cells w)(a := y)" and "w_tmcb w' = w_tmcb w" and "w_shutdown w' = w_shutdown w"
    and "w_stats w' = w_stats w" and "w_cells w a = Some c" and "\<And>d. y = Some d \<Longrightarrow> d_leg d = d_leg c"
  shows "near a (map_option d_state y) (w_stats w) w w'"
proof -
  have "b \<in> bound_cells leg w'" if "b \<in> bound_cells leg w" "states w' b \<noteq> None" for b leg
    using that assms (1,5,6) by (cases "b = a") (auto simp: bound_cells_def states_def)
  then show ?thesis
    using assms (1-4) by (auto simp: near_def states_def)
qed

lemma near_put:
  "w_cells w a = Some c \<Longrightarrow> d_leg d = d_leg c \<Longrightarrow> near a (Some (d_state d)) (w_stats w) w (put_cell a d w)"
  using near_replace [of "put_cell a d w" w a "Some d" c] by simp

lemma near_quiet: "near a x st w w1 \<Longrightarrow> quiet w1 w2 \<Longrightarrow> near a x st w w2"
  by (auto simp: near_def quiet_def subset_iff)

lemma near_frame [simp]:
  "near a x st w (w'\<lparr>w_timer := y\<rparr>) = near a x st w w'" "near a x st w (w'\<lparr>w_curr := z\<rparr>) = near a x st w w'"
  by (simp_all add: near_def states_def bound_cells_def)

lemma near_stat: "near a x st w w' \<Longrightarrow> near a x (if c then f st else st) w (if_update_stat c f w')"
  by (simp add: near_def if_update_stat_def states_def bound_cells_def)

lemma inv_stat [simp]: "dlg_inv own T E (if_update_stat c f w) = dlg_inv own T E w"
  by (simp add: if_update_stat_def)

lemma near_cell: "near a (Some s) st w w' \<Longrightarrow> \<exists>c. w_cells w' a = Some c \<and> d_state c = s"
  by (auto simp: near_def states_def fun_eq_iff split: if_splits)

lemma near_timed:
  "near a x st w w' \<Longrightarrow> timed_set w' = (if \<exists>s. x = Some s \<and> timed s then insert a (timed_set w) else timed_set w - {a})"
  by (auto simp: near_def timed_set_states split: if_splits)

lemma near_trans:
  assumes "near a y st w w1" and "near a x st' w1 w2" and "x \<noteq> None \<longrightarrow> y \<noteq> None"
  shows "near a x st' w w2"
proof -
  have s: "states w1 = (states w)(a := y)" "states w2 = (states w)(a := x)"
    using assms (1,2) by (simp_all add: near_def)
  have "b \<in> bound_cells leg w2" if "b \<in> bound_cells leg w" "states w2 b \<noteq> None" for b leg
  proof -
    have "states w1 b \<noteq> None"
      using that (2) s assms (3) by (cases "b = a") auto
    then have "b \<in> bound_cells leg w1"
      using that (1) assms (1) unfolding near_def by blast
    then show ?thesis
      using that (2) assms (2) unfolding near_def by blast
  qed
  then show ?thesis
    using assms (1,2) s by (simp add: near_def)
qed

lemma unref_near:
  assumes "dlg_inv own T E w1" and "near a (Some s) st w w1" and "0 < n" and "n \<le> own a"
    and "s = DLG_STATE_DELETED \<Longrightarrow> a \<notin> T \<union> E"
  obtains w2 where "unref_dlg a n w1 = Some w2" and "dlg_inv (own(a := own a - n)) T E w2"
    and "near a (if live s + own a \<le> n then None else Some s) st w w2"
    and "\<forall>y. y \<noteq> a \<longrightarrow> w_timer w2 y = w_timer w1 y" and "w_first w2 = w_first w1"
proof -
  obtain c where c: "w_cells w1 a = Some c" "d_state c = s"
    using near_cell [OF assms (2)] by blast
  have r: "d_ref c = live s + own a"
    using invD (1) [OF assms (1) c (1)] c (2) by (simp add: ref_ok_def)
  obtain es bs t where w2: "unref_dlg a n w1 = Some (w1\<lparr>w_entries := es,
        w_cells := (w_cells w1)(a := if d_ref c \<le> n then None else Some (c\<lparr>d_ref := d_ref c - n\<rparr>)), w_timer := t, w_blocks := bs\<rparr>)"
      (is "_ = Some ?w2") and i2: "dlg_inv (own(a := own a - n)) T E (w1\<lparr>w_entries := es,
        w_cells := (w_cells w1)(a := if d_ref c \<le> n then None else Some (c\<lparr>d_ref := d_ref c - n\<rparr>)), w_timer := t, w_blocks := bs\<rparr>)" and t: "\<forall>y. y \<noteq> a \<longrightarrow> t y = w_timer w1 y"
    using unref_inv [OF assms (1) c (1) assms (3,4)] assms (5) c (2) unfolding Let_def by blast
  have "near a (if live s + own a \<le> n then None else Some s) (w_stats w1) w1 ?w2"
    using near_replace [of ?w2 w1 a None c] near_replace [of ?w2 w1 a "Some (c\<lparr>d_ref := d_ref c - n\<rparr>)" c] c r
    by (cases "d_ref c \<le> n") simp_all
  then have "near a (if live s + own a \<le> n then None else Some s) st w ?w2"
    using near_trans [OF assms (2)] assms (2) unfolding near_def [of a "Some s"] by blast
  with w2 i2 t show ?thesis using that [of ?w2] by simp
qed

text \<open>The invariant between two handlers.\<close>

definition legs_ok :: "dlg_cfg \<Rightarrow> dlg_world \<Rightarrow> bool" where
  "legs_ok cfg w \<longleftrightarrow>
     dom (w_cells w) \<subseteq> bound_cells DLG_CALLER_LEG w
     \<and> (cf_db_mode cfg = DB_MODE_REALTIME \<longrightarrow> timed_set w \<subseteq> bound_cells DLG_CALLEE_LEG w)"

definition run_inv :: "dlg_cfg \<Rightarrow> (nat \<Rightarrow> int) \<Rightarrow> dlg_world \<Rightarrow> bool" where
  "run_inv cfg own w \<longleftrightarrow> dlg_inv own (timed_set w) {} w \<and> legs_ok cfg w"

lemma dom_states: "dom (w_cells w) = dom (states w)"
  by (auto simp: states_def)

lemma legs_near:
  assumes "legs_ok cfg w" and "near a x st w w'" and "a \<in> dom (w_cells w)"
    and "\<And>s. cf_db_mode cfg = DB_MODE_REALTIME \<Longrightarrow> x = Some s \<Longrightarrow> timed s \<Longrightarrow> a \<in> bound_cells DLG_CALLEE_LEG w'"
  shows "legs_ok cfg w'"
proof -
  have "b \<in> bound_cells DLG_CALLER_LEG w'" if "b \<in> dom (w_cells w')" for b
  proof -
    have "states w' b \<noteq> None"
      using that by (auto simp: dom_states)
    moreover from this have "b \<in> dom (w_cells w)"
      using assms (2,3) by (cases "b = a") (auto simp: near_def dom_states)
    ultimately show ?thesis
      using assms (1,2) unfolding legs_ok_def near_def by blast
  qed
  moreover have "b \<in> bound_cells DLG_CALLEE_LEG w'" if "cf_db_mode cfg = DB_MODE_REALTIME" "b \<in> timed_set w'" for b
  proof (cases "b = a")
    case True
    with that assms (2,4) show ?thesis
      by (auto simp: timed_set_states near_def)
  next
    case False
    with that assms (2) have "b \<in> timed_set w" and "states w' b \<noteq> None"
      by (auto simp: timed_set_states near_def)
    with that assms (1,2) show ?thesis
      by (auto simp: legs_ok_def near_def)
  qed
  ultimately show ?thesis
    by (auto simp: legs_ok_def)
qed

lemma run_inv_near:
  assumes "run_inv cfg own w" and "near a x st w w'" and "dlg_inv own' T {} w'" and "T = timed_set w'" and "a \<in> dom (w_cells w)"
    and "\<And>s. cf_db_mode cfg = DB_MODE_REALTIME \<Longrightarrow> x = Some s \<Longrightarrow> timed s \<Longrightarrow> a \<in> bound_cells DLG_CALLEE_LEG w'"
  shows "run_inv cfg own' w'"
  using legs_near [OF _ assms (2,5,6)] assms (1,3,4) by (simp add: run_inv_def)

lemma reply_confirmed_inv:
  assumes "dlg_inv own T {} w1" and "near a (Some s) st w w1" and "m_to rpl = Some (uri, tag)" and "tran_ok t"
    and "fresh_blocks env w1" and "en_tag env = None \<longleftrightarrow> en_cseq env = None" and "a \<in> bound_cells DLG_CALLER_LEG w1"
    and "cf_db_mode cfg = DB_MODE_REALTIME \<Longrightarrow> leg_ok env rpl"
  obtains w' st' where "reply_confirmed env cfg a (Some rpl) t old w1 = Some w'" and "dlg_inv own (insert a T) {} w'"
    and "near a (Some s) st' w w'" and "cf_db_mode cfg = DB_MODE_REALTIME \<longrightarrow> a \<in> bound_cells DLG_CALLEE_LEG w'"
    and "cf_enable_stats cfg \<longrightarrow> active_dlgs st' = active_dlgs st + 1
      \<and> early_dlgs st' = early_dlgs st - (if old = DLG_STATE_EARLY then 1 else 0)"
proof -
  obtain c1 where c1: "w_cells w1 a = Some c1"
    using near_cell [OF assms (2)] by blast
  obtain w2 r where w2: "populate_leg_info env a rpl t DLG_CALLEE_LEG tag w1 = Some (w2, r)" "dlg_inv own T {} w2" "quiet w1 w2"
      "leg_ok env rpl \<Longrightarrow> a \<in> bound_cells DLG_CALLEE_LEG w2"
    by (rule populate_callee_inv [OF assms (1) c1 assms (4-6), where msg = rpl and tag = tag]) blast
  obtain c2 where c2: "w_cells w2 a = Some c2" using quiet_cell [OF w2 (3) c1] .
  obtain w3 where w3: "upd_cell a (\<lambda>c. c\<lparr>d_start_ts := en_time env, d_flags := or (d_flags c) DLG_FLAG_NEW\<rparr>) w2 = Some w3"
      "dlg_inv own T {} w3" "quiet w2 w3"
    using upd_start_inv [OF w2 (2) c2] .
  obtain c3 where c3: "w_cells w3 a = Some c3" using quiet_cell [OF w3 (3) c2] .
  have q3: "quiet w1 w3" using quiet_trans [OF w2 (3) w3 (3)] .
  have b3: "a \<in> bound_cells DLG_CALLEE_LEG w3" if "cf_db_mode cfg = DB_MODE_REALTIME"
    using quiet_bound [OF w3 (3)] w2 (4) assms (8) that by blast
  have "\<forall>leg. a \<in> bound_cells leg w3" if "cf_db_mode cfg = DB_MODE_REALTIME"
    using b3 that quiet_bound [OF q3 assms (7)] by (metis dlg_leg.exhaust)
  then obtain w4 where w4: "realtime_save env cfg a w3 = Some w4" "dlg_inv own T {} w4" "quiet w3 w4"
    using realtime_save_inv [OF w3 (2) c3] by blast
  obtain c4 where c4: "w_cells w4 a = Some c4" using quiet_cell [OF w4 (3) c3] .
  obtain h k where h: "insert_dlg_timer (w_first w4) (en_ticks env) (w_timer w4) a (d_lifetime c4) = Some (h, k)"
      "dlg_inv own (insert a T) {} (w4\<lparr>w_timer := h\<rparr>)"
    using inv_timer_ops (1) [OF w4 (2) c4] by blast
  have "w_cells (w4\<lparr>w_timer := h\<rparr>) a = Some c4" using c4 by simp
  then obtain w5 where w5: "run_dlg_callbacks DLGCB_CONFIRMED a (w4\<lparr>w_timer := h\<rparr>) = Some w5"
      "dlg_inv own (insert a T) {} w5" "quiet (w4\<lparr>w_timer := h\<rparr>) w5"
    using run_callbacks_inv [OF h (2)] by blast
  have "quiet w1 (w4\<lparr>w_timer := h\<rparr>)"
    using quiet_trans [OF q3 w4 (3)] by simp
  then have q5: "quiet w1 w5" using w5 (3) quiet_trans by blast
  let ?f = "\<lambda>s. s\<lparr>early_dlgs := early_dlgs s - 1\<rparr>" and ?g = "\<lambda>s. s\<lparr>active_dlgs := active_dlgs s + 1\<rparr>"
  let ?w6 = "if old = DLG_STATE_EARLY then if_update_stat (cf_enable_stats cfg) ?f w5 else w5"
  let ?s6 = "if old = DLG_STATE_EARLY \<and> cf_enable_stats cfg then ?f st else st"
  have n6: "near a (Some s) ?s6 w ?w6"
    using near_quiet [OF assms (2) q5] near_stat [of a "Some s" st w w5 "cf_enable_stats cfg" ?f] by simp
  have b5: "a \<in> bound_cells DLG_CALLEE_LEG w5" if "cf_db_mode cfg = DB_MODE_REALTIME"
    using b3 [OF that] quiet_bound [OF w4 (3)] quiet_bound [OF w5 (3)] by (simp add: bound_cells_def)
  show ?thesis
  proof (rule that)
    show "reply_confirmed env cfg a (Some rpl) t old w1 = Some (if_update_stat (cf_enable_stats cfg) ?g ?w6)"
      using assms (3) w2 (1) w3 (1) w4 (1) c4 h (1) w5 (1) by (simp add: reply_confirmed_def Let_def)
    show "near a (Some s) (if cf_enable_stats cfg then ?g ?s6 else ?s6) w (if_update_stat (cf_enable_stats cfg) ?g ?w6)"
      using near_stat [OF n6] .
  qed (use w5 (2) b5 in \<open>auto simp: if_update_stat_def bound_cells_def\<close>)
qed

text \<open>The statistics follow the states.\<close>

definition cnt :: "(dlg_state \<Rightarrow> bool) \<Rightarrow> dlg_state option \<Rightarrow> u32" where
  "cnt P x = (case x of None \<Rightarrow> 0 | Some s \<Rightarrow> if P s then 1 else 0)"

abbreviation early :: "dlg_state \<Rightarrow> bool" where
  "early s \<equiv> s = DLG_STATE_EARLY"

definition stat_step :: "dlg_cfg \<Rightarrow> dlg_stats \<Rightarrow> dlg_state option \<Rightarrow> dlg_state option \<Rightarrow> dlg_stats \<Rightarrow> bool" where
  "stat_step cfg st y x st' \<longleftrightarrow>
     (cf_enable_stats cfg \<longrightarrow> active_dlgs st' = active_dlgs st + cnt timed x - cnt timed y
        \<and> early_dlgs st' = early_dlgs st + cnt early x - cnt early y)"

text \<open>A reply the handler can cope with.\<close>

definition reply_ok :: "dlg_env \<Rightarrow> dlg_cfg \<Rightarrow> int \<Rightarrow> dlg_msg option \<Rightarrow> bool" where
  "reply_ok env cfg code rpl \<longleftrightarrow>
     (200 \<le> code \<and> code < 300 \<longrightarrow>
        (\<exists>r. rpl = Some r \<and> m_to r \<noteq> None \<and> (cf_db_mode cfg = DB_MODE_REALTIME \<longrightarrow> leg_ok env r))
        \<and> (en_tag env = None \<longleftrightarrow> en_cseq env = None))"

lemma d_leg_cell_step [simp]: "d_leg (cell_step ev c) = d_leg c"
  by (simp add: cell_step_def Let_def)

lemma d_state_cell_step: "d_state (cell_step ev c) = spec_next ev (has_bye c) (d_state c)"
  by (simp add: cell_step_def Let_def)

lemma reply_cell_step:
  assumes "ev = reply_event TMCB_RESPONSE_OUT code"
  shows "d_state (cell_step ev c) = DLG_STATE_EARLY \<Longrightarrow> \<not> timed (d_state c)"
    and "d_state (cell_step ev c) = DLG_STATE_CONFIRMED_NA \<Longrightarrow> \<not> timed (d_state c) \<Longrightarrow> 200 \<le> code \<and> code < 300"
    and "dies c (cell_step ev c) \<Longrightarrow> \<not> timed (d_state c)"
    and "d_state (cell_step ev c) \<noteq> DLG_STATE_EARLY \<Longrightarrow> \<not> dies c (cell_step ev c) \<Longrightarrow>
      \<not> (d_state (cell_step ev c) = DLG_STATE_CONFIRMED_NA \<and> \<not> timed (d_state c)) \<Longrightarrow> d_state (cell_step ev c) = d_state c"
  unfolding assms
  by (cases "d_state c"; auto simp: d_state_cell_step spec_next_def reply_event_def timed_def dies_def split: if_splits)+

lemma cell_states: "w_cells w a = Some c \<Longrightarrow> states w a = Some (d_state c)"
  by (simp add: states_def)

lemma not_timed_set: "w_cells w a = Some c \<Longrightarrow> a \<in> timed_set w \<longleftrightarrow> timed (d_state c)"
  by (simp add: timed_set_def)

lemma fresh_put [simp]: "fresh_blocks env (put_cell a d w) = fresh_blocks env w"
  by (simp add: fresh_blocks_def)

lemma bound_put: "w_cells w a = Some c \<Longrightarrow> d_leg d = d_leg c \<Longrightarrow> bound_cells leg (put_cell a d w) = bound_cells leg w"
  by (auto simp: bound_cells_def)

lemma early_inv:
  assumes "dlg_inv own T E w1" and "near a (Some s) st w w1"
  obtains w' where "reply_early cfg a old w1 = Some w'" and "dlg_inv own T E w'"
    and "near a (Some s) (if old \<noteq> DLG_STATE_EARLY \<and> cf_enable_stats cfg then st\<lparr>early_dlgs := early_dlgs st + 1\<rparr> else st) w w'"
proof -
  obtain c1 where c1: "w_cells w1 a = Some c1"
    using near_cell [OF assms (2)] by blast
  obtain w2 where w2: "run_dlg_callbacks DLGCB_EARLY a w1 = Some w2" "dlg_inv own T E w2" "quiet w1 w2"
    using run_callbacks_inv [OF assms (1) c1] .
  let ?f = "\<lambda>s. s\<lparr>early_dlgs := early_dlgs s + 1\<rparr>"
  have "near a (Some s) st w w2" using near_quiet [OF assms (2) w2 (3)] .
  then show ?thesis
    using that [of "if old \<noteq> DLG_STATE_EARLY then if_update_stat (cf_enable_stats cfg) ?f w2 else w2"] w2 (1,2)
      near_stat [of a "Some s" st w w2 "cf_enable_stats cfg" ?f] by (simp add: reply_early_def)
qed

lemma failed_inv:
  assumes "dlg_inv own T E w1" and "near a (Some s) st w w1" and "1 \<le> own a" and "s = DLG_STATE_DELETED \<Longrightarrow> a \<notin> T \<union> E"
  obtains w' where "reply_failed cfg a old (Some 1) w1 = Some w'" and "dlg_inv (own(a := own a - 1)) T E w'"
    and "near a (if live s + own a \<le> 1 then None else Some s)
      (if old = DLG_STATE_EARLY \<and> cf_enable_stats cfg then st\<lparr>early_dlgs := early_dlgs st - 1\<rparr> else st) w w'"
proof -
  obtain c1 where c1: "w_cells w1 a = Some c1"
    using near_cell [OF assms (2)] by blast
  obtain w2 where w2: "run_dlg_callbacks DLGCB_FAILED a w1 = Some w2" "dlg_inv own T E w2" "quiet w1 w2"
    using run_callbacks_inv [OF assms (1) c1] .
  have n2: "near a (Some s) st w w2" using near_quiet [OF assms (2) w2 (3)] .
  let ?x = "if live s + own a \<le> 1 then None else Some s"
  obtain w3 where w3: "unref_dlg a 1 w2 = Some w3" "dlg_inv (own(a := own a - 1)) T E w3" "near a ?x st w w3"
    using unref_near [OF w2 (2) n2, of 1] assms (3,4) by auto
  let ?f = "\<lambda>s. s\<lparr>early_dlgs := early_dlgs s - 1\<rparr>"
  show ?thesis
    using that [of "if old = DLG_STATE_EARLY then if_update_stat (cf_enable_stats cfg) ?f w3 else w3"] w2 (1) w3
      near_stat [OF w3 (3), of "cf_enable_stats cfg" ?f] by (simp add: reply_failed_def)
qed

lemma reply_inv:
  assumes "run_inv cfg own w" and "\<not> w_shutdown w" and "w_cells w a = Some c" and "1 \<le> own a" and "tran_ok t"
    and "fresh_blocks env w" and "reply_ok env cfg code rpl"
  obtains w' s st where "dlg_onreply env cfg a TMCB_RESPONSE_OUT code rpl t w = Some w'" and "run_inv cfg own w'"
    and "near a (Some s) st w w'" and "stat_step cfg (w_stats w) (states w a) (Some s) st"
proof -
  define ev where "ev = reply_event TMCB_RESPONSE_OUT code"
  define d where "d = cell_step ev c"
  let ?w1 = "put_cell a d w" and ?T = "timed_set w" and ?u = "if dies c d then Some (1::int) else None"
  have inv: "dlg_inv own ?T {} w" and b: "a \<in> bound_cells DLG_CALLER_LEG w"
    using assms (1,3) by (auto simp: run_inv_def legs_ok_def)
  have ev: "ev \<noteq> DLG_EVENT_TDEL" by (simp add: ev_def reply_event_def)
  have ns: "next_state_dlg (en_stale env) a ev w = Some (?w1, d_state c, d_state d, ?u)"
    unfolding d_def by (rule next_state_cell_step [OF assms (3) ev])
  have n1: "near a (Some (d_state d)) (w_stats w) w ?w1"
    using near_put [OF assms (3)] by (simp add: d_def)
  have i1: "dlg_inv (own(a := own a + (if dies c d then 1 else 0))) ?T {} ?w1"
    unfolding d_def by (rule inv_cell_step [OF inv assms (3)])
  note step = reply_cell_step [OF ev_def, of c, folded d_def]
  have eq: "dlg_onreply env cfg a TMCB_RESPONSE_OUT code rpl t w =
      (if d_state d = DLG_STATE_EARLY then reply_early cfg a (d_state c) ?w1
       else if d_state d = DLG_STATE_CONFIRMED_NA \<and> \<not> timed (d_state c) then reply_confirmed env cfg a rpl t (d_state c) ?w1
       else if dies c d then reply_failed cfg a (d_state c) ?u ?w1 else Some ?w1)"
    using assms (2) ns by (simp add: dlg_onreply_def ev_def timed_def dies_def)
  have m: "states w a = Some (d_state c)" "a \<in> ?T \<longleftrightarrow> timed (d_state c)" "a \<in> dom (w_cells w)"
    using assms (3) by (simp_all add: cell_states not_timed_set dom_def)
  note near_inv = run_inv_near [OF assms (1) _ _ _ m (3)]
  consider (e) "d_state d = DLG_STATE_EARLY" | (k) "d_state d = DLG_STATE_CONFIRMED_NA" "\<not> timed (d_state c)"
    | (f) "dies c d" | (o) "d_state d \<noteq> DLG_STATE_EARLY" "\<not> dies c d" "\<not> (d_state d = DLG_STATE_CONFIRMED_NA \<and> \<not> timed (d_state c))"
    by blast
  then show ?thesis
  proof cases
    case e
    then have "\<not> dies c d" by (simp add: dies_def)
    with i1 have i: "dlg_inv own ?T {} ?w1" by simp
    obtain w' where w': "reply_early cfg a (d_state c) ?w1 = Some w'" "dlg_inv own ?T {} w'"
        "near a (Some (d_state d)) (if d_state c \<noteq> DLG_STATE_EARLY \<and> cf_enable_stats cfg
          then (w_stats w)\<lparr>early_dlgs := early_dlgs (w_stats w) + 1\<rparr> else w_stats w) w w'"
      using early_inv [OF i n1] by blast
    show ?thesis
    proof (rule that [OF _ _ w' (3)])
      show "run_inv cfg own w'"
        using near_inv [OF w' (3) w' (2)] near_timed [OF w' (3)] step (1) [OF e] m e by (simp add: timed_def)
    qed (use e w' (1) eq m step (1) [OF e] in \<open>auto simp: stat_step_def cnt_def timed_def\<close>)
  next
    case k
    then have "\<not> dies c d" by (simp add: dies_def)
    with i1 have i: "dlg_inv own ?T {} ?w1" by simp
    obtain r uri tag where r: "rpl = Some r" "m_to r = Some (uri, tag)" "en_tag env = None \<longleftrightarrow> en_cseq env = None"
        "cf_db_mode cfg = DB_MODE_REALTIME \<Longrightarrow> leg_ok env r"
      using assms (7) step (2) [OF k] by (auto simp: reply_ok_def)
    have b1: "a \<in> bound_cells DLG_CALLER_LEG ?w1" and f1: "fresh_blocks env ?w1"
      using b bound_put [OF assms (3)] assms (6) by (simp_all add: d_def)
    obtain w' st' where w': "reply_confirmed env cfg a (Some r) t (d_state c) ?w1 = Some w'" "dlg_inv own (insert a ?T) {} w'"
        "near a (Some (d_state d)) st' w w'" "cf_db_mode cfg = DB_MODE_REALTIME \<longrightarrow> a \<in> bound_cells DLG_CALLEE_LEG w'"
        "cf_enable_stats cfg \<longrightarrow> active_dlgs st' = active_dlgs (w_stats w) + 1
          \<and> early_dlgs st' = early_dlgs (w_stats w) - (if d_state c = DLG_STATE_EARLY then 1 else 0)"
      by (rule reply_confirmed_inv [OF i n1 r (2) assms (5) f1 r (3) b1 r (4), where old = "d_state c"]) blast
    show ?thesis
    proof (rule that [OF _ _ w' (3)])
      show "run_inv cfg own w'"
        using near_inv [OF w' (3) w' (2)] near_timed [OF w' (3)] w' (4) k by (simp add: timed_def)
    qed (use k w' (1,5) eq m r (1) in \<open>auto simp: stat_step_def cnt_def timed_def\<close>)
  next
    case f
    then have s: "d_state d = DLG_STATE_DELETED" "d_state c \<noteq> DLG_STATE_DELETED" by (simp_all add: dies_def)
    have h: "1 \<le> (own(a := own a + 1)) a" "a \<notin> ?T \<union> {}" and i: "dlg_inv (own(a := own a + 1)) ?T {} ?w1"
      using assms (4) step (3) [OF f] m i1 f by simp_all
    obtain w' where w': "reply_failed cfg a (d_state c) (Some 1) ?w1 = Some w'"
        "dlg_inv ((own(a := own a + 1))(a := (own(a := own a + 1)) a - 1)) ?T {} w'"
        "near a (if live (d_state d) + (own(a := own a + 1)) a \<le> 1 then None else Some (d_state d))
          (if d_state c = DLG_STATE_EARLY \<and> cf_enable_stats cfg
           then (w_stats w)\<lparr>early_dlgs := early_dlgs (w_stats w) - 1\<rparr> else w_stats w) w w'"
      by (rule failed_inv [OF i n1 h (1), of cfg "d_state c"]) (use h (2) in blast)+
    have i': "dlg_inv own ?T {} w'" using w' (2) by simp
    have n': "near a (Some (d_state d)) (if d_state c = DLG_STATE_EARLY \<and> cf_enable_stats cfg
           then (w_stats w)\<lparr>early_dlgs := early_dlgs (w_stats w) - 1\<rparr> else w_stats w) w w'"
      using w' (3) s assms (4) by (simp add: live_def)
    show ?thesis
    proof (rule that [OF _ _ n'])
      show "run_inv cfg own w'"
        using near_inv [OF n' i'] near_timed [OF n'] step (3) [OF f] m s by (simp add: timed_def)
    qed (use f s w' (1) eq m step (3) [OF f] in \<open>auto simp: stat_step_def cnt_def timed_def\<close>)
  next
    case o
    then have s: "d_state d = d_state c" using step (4) by blast
    have i': "dlg_inv own ?T {} ?w1" using i1 o (2) by simp
    show ?thesis
    proof (rule that [OF _ _ n1])
      have "timed_set ?w1 = ?T"
        using near_timed [OF n1] m s by auto
      moreover have "a \<in> bound_cells DLG_CALLEE_LEG ?w1" if "cf_db_mode cfg = DB_MODE_REALTIME" "timed (d_state d)"
        using that assms (1) m s bound_put [OF assms (3)] by (auto simp: run_inv_def legs_ok_def d_def)
      ultimately show "run_inv cfg own ?w1"
        using near_inv [OF n1 i'] by simp
    qed (use o eq m s in \<open>auto simp: stat_step_def cnt_def\<close>)
  qed
qed

text \<open>
  The end of the transaction.  The memory of a dialog that has just been freed still holds its last
  state.
\<close>

lemma inv_set_deleted:
  assumes "dlg_inv own T E w" and "w_cells w a = Some c" and "d_state c \<noteq> DLG_STATE_DELETED"
  shows "dlg_inv (own(a := own a + 1)) T E (put_cell a (c\<lparr>d_state := DLG_STATE_DELETED\<rparr>) w)"
proof (rule inv_put_cell [OF assms (1,2)])
  show "ref_ok (own a + 1) (c\<lparr>d_state := DLG_STATE_DELETED\<rparr>)"
    using invD (1) [OF assms (1,2)] assms (3) by (simp add: ref_ok_def live_def)
qed (simp add: keeps_def cell_blocks_def)

lemma tdel_setup_inv:
  assumes "run_inv cfg own w" and "\<not> w_shutdown w" and "w_cells w a = Some c" and "1 \<le> own a"
    and "d_state c = DLG_STATE_UNCONFIRMED \<or> d_state c = DLG_STATE_EARLY"
  obtains w' x st where "dlg_onreply env cfg a TMCB_TRANS_DELETED code rpl t w = Some w'" and "run_inv cfg (own(a := own a - 1)) w'"
    and "near a x st w w'" and "stat_step cfg (w_stats w) (states w a) x st"
    and "x = (if own a = 1 then None else Some DLG_STATE_DELETED)"
proof -
  let ?d = "c\<lparr>d_state := DLG_STATE_DELETED\<rparr>" and ?T = "timed_set w"
  let ?w1 = "put_cell a ?d w" and ?o1 = "own(a := own a + 1)"
  have inv: "dlg_inv own ?T {} w" and T: "a \<notin> ?T"
    using assms (1,3,5) by (auto simp: run_inv_def not_timed_set timed_def)
  have i1: "dlg_inv ?o1 ?T {} ?w1"
    using inv_set_deleted [OF inv assms (3)] assms (5) by auto
  have n1: "near a (Some DLG_STATE_DELETED) (w_stats w) w ?w1"
    using near_put [OF assms (3), of ?d] by simp
  have h: "1 \<le> ?o1 a" "0 < (1::int)" "DLG_STATE_DELETED = DLG_STATE_DELETED \<Longrightarrow> a \<notin> ?T \<union> {}"
    using assms (4) T by simp_all
  obtain w2 where w2: "unref_dlg a 1 ?w1 = Some w2" "dlg_inv (?o1(a := ?o1 a - 1)) ?T {} w2"
      "near a (if live DLG_STATE_DELETED + ?o1 a \<le> 1 then None else Some DLG_STATE_DELETED) (w_stats w) w w2"
    by (rule unref_near [OF i1 n1 h (2,1,3)]) blast
  have i2: "dlg_inv own ?T {} w2" and n2: "near a (Some DLG_STATE_DELETED) (w_stats w) w w2"
    using w2 (2,3) assms (4) by (simp_all add: live_def)
  obtain c2 where c2: "w_cells w2 a = Some c2" "d_state c2 = DLG_STATE_DELETED"
    using near_cell [OF n2] by blast
  let ?x = "if own a = 1 then None else Some DLG_STATE_DELETED"
  let ?st = "if d_state c = DLG_STATE_EARLY \<and> cf_enable_stats cfg
    then (w_stats w)\<lparr>early_dlgs := early_dlgs (w_stats w) - 1\<rparr> else w_stats w"
  have x: "(if live DLG_STATE_DELETED + own a \<le> 1 then None else Some DLG_STATE_DELETED) = ?x"
    using assms (4) by (auto simp: live_def)
  obtain w' where w': "reply_failed cfg a (d_state c) (Some 1) w2 = Some w'" "dlg_inv (own(a := own a - 1)) ?T {} w'"
      "near a ?x ?st w w'"
    by (rule failed_inv [OF i2 n2 assms (4) h (3), of cfg "d_state c", unfolded x]) blast
  have "next_state_dlg (en_stale env) a DLG_EVENT_TDEL w = Some (w2, d_state c, DLG_STATE_DELETED, Some 1)"
    using assms (3,5) w2 (1) c2 by (auto simp: next_state_dlg_def set_state_def upd_cell_def)
  then have eq: "dlg_onreply env cfg a TMCB_TRANS_DELETED code rpl t w = Some w'"
    using assms (2,5) w' (1) by (auto simp: dlg_onreply_def reply_event_def)
  have m: "states w a = Some (d_state c)" "a \<in> dom (w_cells w)"
    using assms (3) by (simp_all add: cell_states dom_def)
  show ?thesis
  proof (rule that [OF eq _ w' (3)])
    show "run_inv cfg (own(a := own a - 1)) w'"
      using run_inv_near [OF assms (1) w' (3,2) _ m (2)] near_timed [OF w' (3)] T by (simp add: timed_def split: if_splits)
    show "stat_step cfg (w_stats w) (states w a) ?x ?st"
      using m assms (5) by (auto simp: stat_step_def cnt_def timed_def)
  qed simp
qed

lemma tdel_later_inv:
  assumes "run_inv cfg own w" and "\<not> w_shutdown w" and "w_cells w a = Some c" and "1 \<le> own a"
    and "d_state c \<noteq> DLG_STATE_UNCONFIRMED" and "d_state c \<noteq> DLG_STATE_EARLY" and "en_stale env = DLG_STATE_DELETED"
  obtains w' x where "dlg_onreply env cfg a TMCB_TRANS_DELETED code rpl t w = Some w'" and "run_inv cfg (own(a := own a - 1)) w'"
    and "near a x (w_stats w) w w'" and "x = (if own a = 1 \<and> d_state c = DLG_STATE_DELETED then None else Some (d_state c))"
proof -
  let ?T = "timed_set w"
  have inv: "dlg_inv own ?T {} w" and T: "a \<in> ?T \<longleftrightarrow> timed (d_state c)"
    using assms (1,3) by (simp_all add: run_inv_def not_timed_set)
  have n: "near a (Some (d_state c)) (w_stats w) w w"
    using near_put [OF assms (3), of c] assms (3) by (simp add: map_upd_triv)
  let ?x = "if own a = 1 \<and> d_state c = DLG_STATE_DELETED then None else Some (d_state c)"
  have x: "(if live (d_state c) + own a \<le> 1 then None else Some (d_state c)) = ?x"
    using assms (4) by (auto simp: live_def)
  have h: "d_state c = DLG_STATE_DELETED \<Longrightarrow> a \<notin> ?T \<union> {}"
    using T by (simp add: timed_def)
  obtain w' where w': "unref_dlg a 1 w = Some w'" "dlg_inv (own(a := own a - 1)) ?T {} w'" "near a ?x (w_stats w) w w'"
    by (rule unref_near [OF inv n zero_less_one assms (4) h, unfolded x]) blast
  have "(case w_cells w' a of Some c \<Rightarrow> d_state c | None \<Rightarrow> en_stale env) = d_state c"
  proof (cases "?x = None")
    case True
    then have "w_cells w' a = None"
      using w' (3) by (simp add: near_def states_def fun_eq_iff split: if_splits)
    then show ?thesis using assms (7) True by (simp split: if_splits)
  next
    case False
    then obtain c' where "w_cells w' a = Some c'" "d_state c' = d_state c"
      using near_cell w' (3) by (metis option.exhaust)
    then show ?thesis by simp
  qed
  then have "next_state_dlg (en_stale env) a DLG_EVENT_TDEL w = Some (w', d_state c, d_state c, None)"
    using assms (3,5,6) w' (1) by (cases "d_state c") (simp_all add: next_state_dlg_def)
  then have "dlg_onreply env cfg a TMCB_TRANS_DELETED code rpl t w = Some w'"
    using assms (2,5,6) by (cases "d_state c") (simp_all add: dlg_onreply_def reply_event_def)
  moreover have "run_inv cfg (own(a := own a - 1)) w'"
  proof (rule run_inv_near [OF assms (1) w' (3,2)])
    show "?T = timed_set w'"
      using near_timed [OF w' (3)] T by (auto simp: timed_def)
    fix s assume "cf_db_mode cfg = DB_MODE_REALTIME" "?x = Some s" "timed s"
    then show "a \<in> bound_cells DLG_CALLEE_LEG w'"
      using assms (1) T w' (3) by (auto simp: run_inv_def legs_ok_def near_def split: if_splits)
  qed (use assms (3) in auto)
  ultimately show ?thesis
    using that w' (3) by blast
qed

section \<open>Requests within a dialog\<close>

text \<open>The search takes at most one reference, and holds it when it returns a dialog.\<close>

lemma taken_mono: "taken own T E w w' r P \<Longrightarrow> (\<And>c. P c \<Longrightarrow> Q c) \<Longrightarrow> taken own T E w w' r Q"
  by (auto simp: taken_def split: option.splits)

lemma route_get_taken:
  assumes "dlg_inv own T E w"
  shows "\<exists>w1 r. route_get req w = Some (w1, r) \<and> taken own T E w w1 (map_option fst r) (\<lambda>_. True)"
proof (cases "pre_match_parse req")
  case (Some p)
  obtain callid ftag ttag where p: "p = (callid, ftag, ttag)" by (cases p)
  obtain w1 r dir where "get_dlg callid ftag ttag DLG_DIR_NONE w = Some (w1, r, dir)" "taken own T E w w1 r (\<lambda>_. True)"
    using get_taken [OF assms] by blast
  with Some p show ?thesis
    by (simp add: route_get_def option.map_comp comp_def option.map_ident)
qed (simp add: route_get_def taken_def)

lemma route_lookup_taken:
  assumes "dlg_inv own T E w"
  shows "\<exists>w1 r q. route_lookup req val nxt w = Some (w1, r) \<and> taken own T E w w1 q (\<lambda>_. True) \<and> (r = None \<or> map_option fst r = q)"
proof (cases "parse_dlg_rr_param val nxt")
  case None
  then have "route_lookup req val nxt w = Some (w, None) \<and> taken own T E w w None (\<lambda>_. True)"
    by (simp add: route_lookup_def taken_def)
  then show ?thesis by blast
next
  case (Some p)
  obtain e i where p: "p = (e, i)" by (cases p)
  obtain w1 q where q: "lookup_dlg (ucast e) (ucast i) w = Some (w1, q)"
      "taken own T E w w1 q (\<lambda>c. d_h_id c = ucast i \<and> d_h_entry c = ucast e)"
    using lookup_taken [OF assms] by blast
  have t: "taken own T E w w1 q (\<lambda>_. True)" by (rule taken_mono [OF q (2)]) simp
  show ?thesis
  proof (cases q)
    case None
    with Some p q (1) have "route_lookup req val nxt w = Some (w1, None)" by (simp add: route_lookup_def)
    with t show ?thesis by blast
  next
    case a: (Some a)
    with t obtain c where c: "w_cells w1 a = Some c" by (auto simp: taken_def)
    show ?thesis
    proof (cases "pre_match_parse req")
      case None
      with Some p q (1) a have "route_lookup req val nxt w = Some (w1, None)" by (simp add: route_lookup_def)
      with t show ?thesis by blast
    next
      case m: (Some m)
      obtain callid ftag ttag where m': "m = (callid, ftag, ttag)" by (cases m)
      obtain b dir where d: "match_dialog c callid ftag ttag DLG_DIR_NONE = (b, dir)" by fastforce
      have "route_lookup req val nxt w = Some (w1, if b then Some (a, dir) else None)"
        using Some p q (1) a c m m' d by (simp add: route_lookup_def)
      moreover have "(if b then Some (a, dir) else None) = None \<or> map_option fst (if b then Some (a, dir) else None) = q"
        using a by simp
      ultimately show ?thesis using t by blast
    qed
  qed
qed

lemma route_find_taken:
  assumes "dlg_inv own T E w"
  shows "\<exists>w1 r q. route_find cfg req w = Some (w1, r) \<and> taken own T E w w1 q (\<lambda>_. True) \<and> (r = None \<or> map_option fst r = q)"
proof -
  have g: "\<exists>w1 r q. route_get req w = Some (w1, r) \<and> taken own T E w w1 q (\<lambda>_. True) \<and> (r = None \<or> map_option fst r = q)"
    using route_get_taken [OF assms, of req] by blast
  have n: "taken own T E w w None (\<lambda>_. True)"
    by (simp add: taken_def)
  show ?thesis
  proof (cases "cf_seq_match_mode cfg = SEQ_MATCH_NO_ID")
    case False
    show ?thesis
    proof (cases "m_route_param req")
      case None
      with False g n show ?thesis
        by (cases "cf_seq_match_mode cfg = SEQ_MATCH_STRICT_ID") (auto simp: route_find_def)
    next
      case (Some p)
      with False show ?thesis
        using route_lookup_taken [OF assms] by (cases p) (simp add: route_find_def)
    qed
  qed (use g in \<open>simp add: route_find_def\<close>)
qed

text \<open>Refreshing a dialog that is in the timer list.\<close>

lemma save_changed_inv:
  assumes "dlg_inv own T E w" and "w_cells w a = Some c"
    and "cf_db_mode cfg = DB_MODE_REALTIME \<Longrightarrow> \<forall>leg. a \<in> bound_cells leg w"
  obtains w' where "(do { w \<leftarrow> set_changed a w; realtime_save env cfg a w }) = Some w'" and "dlg_inv own T E w'" and "quiet w w'"
proof -
  obtain w1 where w1: "set_changed a w = Some w1" "dlg_inv own T E w1" "quiet w w1"
    unfolding set_changed_def using upd_flags_inv [OF assms (1,2)] .
  obtain c1 where c1: "w_cells w1 a = Some c1" using quiet_cell [OF w1 (3) assms (2)] .
  have "\<forall>leg. a \<in> bound_cells leg w1" if "cf_db_mode cfg = DB_MODE_REALTIME"
    using assms (3) [OF that] quiet_bound [OF w1 (3)] by blast
  then obtain w2 where "realtime_save env cfg a w1 = Some w2" "dlg_inv own T E w2" "quiet w1 w2"
    using realtime_save_inv [OF w1 (2) c1] by blast
  with w1 show ?thesis using that [of w2] quiet_trans by simp
qed

lemma update_cseqs_inv:
  assumes "dlg_inv own T E w" and "w_cells w a = Some c" and "\<forall>b. en_cseq env = Some b \<longrightarrow> b \<notin> w_blocks w"
  obtains w' r where "update_cseqs env a req dir w = Some (w', r)" and "dlg_inv own T E w'" and "quiet w w'"
proof -
  have "\<exists>w' r. update_cseqs env a req dir w = Some (w', r) \<and> dlg_inv own T E w' \<and> quiet w w'"
  proof (cases "m_cseq req")
    case (Some cseq)
    then show ?thesis
      using update_cseq_inv [OF assms, of DLG_CALLEE_LEG cseq] update_cseq_inv [OF assms, of DLG_CALLER_LEG cseq] assms (1)
      by (cases dir) (auto simp: update_cseqs_def)
  qed (use assms (1) in \<open>simp add: update_cseqs_def\<close>)
  then show ?thesis using that by blast
qed

lemma upd_lifetime_blocks: "upd_cell a (\<lambda>c. c\<lparr>d_lifetime := x\<rparr>) w = Some w' \<Longrightarrow> w_blocks w' = w_blocks w"
  by (auto simp: upd_cell_def split: option.splits)

lemma refresh_inv:
  assumes "dlg_inv own T {} w" and "w_cells w a = Some c" and "a \<in> T" and "fresh_blocks env w"
    and "cf_db_mode cfg = DB_MODE_REALTIME \<Longrightarrow> \<forall>leg. a \<in> bound_cells leg w"
  obtains w' where "route_refresh env cfg req a dir w = Some w'" and "dlg_inv own T {} w'" and "quiet w w'"
proof -
  let ?l = "ucast (get_dlg_timeout cfg req) :: u32"
  obtain w1 where w1: "upd_cell a (\<lambda>c. c\<lparr>d_lifetime := ?l\<rparr>) w = Some w1" "dlg_inv own T {} w1" "quiet w w1"
    using upd_lifetime_inv [OF assms (1,2)] .
  obtain c1 where c1: "w_cells w1 a = Some c1" using quiet_cell [OF w1 (3) assms (2)] .
  obtain h where h: "update_dlg_timer (w_first w1) (en_ticks env) (w_timer w1) a ?l = Some (h, 0)"
      "dlg_inv own (insert a T) {} (w1\<lparr>w_timer := h\<rparr>)"
    using inv_timer_ops (3) [OF w1 (2) c1] by blast
  let ?w2 = "w1\<lparr>w_timer := h\<rparr>"
  have i2: "dlg_inv own T {} ?w2" and c2: "w_cells ?w2 a = Some c1"
    using h (2) assms (3) c1 by (simp_all add: insert_absorb)
  have f2: "\<forall>b. en_cseq env = Some b \<longrightarrow> b \<notin> w_blocks ?w2"
    using assms (4) upd_lifetime_blocks [OF w1 (1)] by (simp add: fresh_blocks_def)
  obtain w3 r where w3: "update_cseqs env a req dir ?w2 = Some (w3, r)" "dlg_inv own T {} w3" "quiet ?w2 w3"
    using update_cseqs_inv [OF i2 c2 f2] .
  obtain c3 where c3: "w_cells w3 a = Some c3" using quiet_cell [OF w3 (3) c2] .
  have "quiet w ?w2" using w1 (3) by simp
  then have q3: "quiet w w3" using w3 (3) quiet_trans by blast
  have "\<forall>leg. a \<in> bound_cells leg w3" if "cf_db_mode cfg = DB_MODE_REALTIME"
    using assms (5) [OF that] quiet_bound [OF q3] by blast
  then obtain w3' where w3': "(do { w \<leftarrow> set_changed a w3; realtime_save env cfg a w }) = Some w3'" "dlg_inv own T {} w3'" "quiet w3 w3'"
    using save_changed_inv [OF w3 (2) c3] by blast
  define w4 where "w4 = (if r \<noteq> 0 then w3 else w3')"
  have w4: "dlg_inv own T {} w4" "quiet w3 w4"
    using w3 (2) w3' by (simp_all add: w4_def)
  obtain c4 where c4: "w_cells w4 a = Some c4" using quiet_cell [OF w4 (2) c3] .
  obtain w5 where w5: "run_dlg_callbacks DLGCB_REQ_WITHIN a w4 = Some w5" "dlg_inv own T {} w5" "quiet w4 w5"
    using run_callbacks_inv [OF w4 (1) c4] .
  have "route_refresh env cfg req a dir w = Some w5"
    using w1 (1) h (1) w3 (1) w3' (1) w5 (1) by (cases "r = 0") (simp_all add: route_refresh_def w4_def)
  moreover have "quiet w w5"
    using q3 w4 (2) w5 (3) quiet_trans by blast
  ultimately show ?thesis using that w5 (2) by blast
qed

lemma route_bye_inv:
  assumes "dlg_inv own T {} w1" and "near a (Some DLG_STATE_DELETED) st w w1" and "2 \<le> own a"
  obtains w' where "route_bye env cfg a (Some 1) w1 = Some w'" and "dlg_inv (own(a := own a - 2)) (T - {a}) {} w'"
    and "near a (if own a = 2 then None else Some DLG_STATE_DELETED)
      (if cf_enable_stats cfg then st\<lparr>active_dlgs := active_dlgs st - 1\<rparr> else st) w w'"
proof -
  obtain c1 where c1: "w_cells w1 a = Some c1" using near_cell [OF assms (2)] by blast
  obtain h r where h: "remove_dlg_timer (w_timer w1) a = Some (h, r)" "dlg_inv own (T - {a}) {} (w1\<lparr>w_timer := h\<rparr>)"
    using inv_timer_ops (2) [OF assms (1) c1] by blast
  have c2: "w_cells (w1\<lparr>w_timer := h\<rparr>) a = Some c1" using c1 by simp
  obtain w3 where w3: "run_dlg_callbacks DLGCB_TERMINATED a (w1\<lparr>w_timer := h\<rparr>) = Some w3" "dlg_inv own (T - {a}) {} w3"
      "quiet (w1\<lparr>w_timer := h\<rparr>) w3"
    using run_callbacks_inv [OF h (2) c2] .
  obtain c3 where c3: "w_cells w3 a = Some c3" using quiet_cell [OF w3 (3) c2] .
  obtain w4 where w4: "db_remove env cfg a w3 = Some w4" "dlg_inv own (T - {a}) {} w4" "quiet w3 w4"
    using db_remove_inv [OF w3 (2) c3] .
  have "near a (Some DLG_STATE_DELETED) st w (w1\<lparr>w_timer := h\<rparr>)" using assms (2) by simp
  then have n4: "near a (Some DLG_STATE_DELETED) st w w4"
    using near_quiet w3 (3) w4 (3) by blast
  have x: "(if live DLG_STATE_DELETED + own a \<le> 2 then None else Some DLG_STATE_DELETED) =
      (if own a = 2 then None else Some DLG_STATE_DELETED)"
    using assms (3) by (simp add: live_def)
  obtain w5 where w5: "unref_dlg a 2 w4 = Some w5" "dlg_inv (own(a := own a - 2)) (T - {a}) {} w5"
      "near a (if own a = 2 then None else Some DLG_STATE_DELETED) st w w5"
    by (rule unref_near [OF w4 (2) n4, of 2, unfolded x]) (use assms (3) in auto)
  let ?f = "\<lambda>s. s\<lparr>active_dlgs := active_dlgs s - 1\<rparr>"
  show ?thesis
    using that [of "if_update_stat (cf_enable_stats cfg) ?f w5"] near_stat [OF w5 (3), of "cf_enable_stats cfg" ?f]
      h (1) w3 (1) w4 (1) w5 (1,2) by (simp add: route_bye_def)
qed

lemma callbacks_timer: "run_dlg_callbacks type a w = Some w' \<Longrightarrow> w_timer w' = w_timer w \<and> w_first w' = w_first w"
  by (auto simp: run_dlg_callbacks_def bind_eq_Some_conv split: if_splits)

lemma db_remove_timer: "db_remove env cfg a w = Some w' \<Longrightarrow> w_timer w' = w_timer w \<and> w_first w' = w_first w"
  by (auto simp: db_remove_def remove_dialog_from_db_def bind_eq_Some_conv split: if_splits)

lemma timeout_inv:
  assumes "dlg_inv own T E w" and "w_cells w a = Some c" and "timed (d_state c)" and "a \<notin> T \<union> E"
  obtains w' st where "dlg_ontimeout env cfg a w = Some w'" and "dlg_inv own T E w'"
    and "near a (if own a = 0 then None else Some DLG_STATE_DELETED) st w w'"
    and "cf_enable_stats cfg \<longrightarrow> active_dlgs st = active_dlgs (w_stats w) - 1 \<and> early_dlgs st = early_dlgs (w_stats w)"
    and "\<forall>y. y \<noteq> a \<longrightarrow> w_timer w' y = w_timer w y" and "w_first w' = w_first w"
proof -
  define d where "d = cell_step DLG_EVENT_REQBYE c"
  let ?w1 = "put_cell a d w" and ?o = "own(a := own a + 1)"
  have d: "d_state d = DLG_STATE_DELETED" "dies c d"
    using assms (3) by (auto simp: d_def dies_def d_state_cell_step spec_next_def timed_def)
  have ns: "next_state_dlg (en_stale env) a DLG_EVENT_REQBYE w = Some (?w1, d_state c, DLG_STATE_DELETED, Some 1)"
    using next_state_cell_step [OF assms (2), of DLG_EVENT_REQBYE "en_stale env"] d by (simp add: d_def)
  have i1: "dlg_inv ?o T E ?w1"
    using inv_cell_step [OF assms (1,2), of DLG_EVENT_REQBYE] d (2) by (simp add: d_def)
  have n1: "near a (Some DLG_STATE_DELETED) (w_stats w) w ?w1"
    using near_put [OF assms (2), of d] d (1) by (simp add: d_def)
  have c1: "w_cells ?w1 a = Some d" by simp
  obtain w2 where w2: "run_dlg_callbacks DLGCB_EXPIRED a ?w1 = Some w2" "dlg_inv ?o T E w2" "quiet ?w1 w2"
    using run_callbacks_inv [OF i1 c1] .
  obtain c2 where c2: "w_cells w2 a = Some c2" using quiet_cell [OF w2 (3) c1] .
  obtain w3 where w3: "db_remove env cfg a w2 = Some w3" "dlg_inv ?o T E w3" "quiet w2 w3"
    using db_remove_inv [OF w2 (2) c2] .
  have n3: "near a (Some DLG_STATE_DELETED) (w_stats w) w w3"
    using near_quiet [OF near_quiet [OF n1 w2 (3)] w3 (3)] .
  have "0 \<le> own a" using invD (1) [OF assms (1,2)] by (simp add: ref_ok_def)
  then have x: "(if live DLG_STATE_DELETED + ?o a \<le> 1 then None else Some DLG_STATE_DELETED) =
      (if own a = 0 then None else Some DLG_STATE_DELETED)" and h: "1 \<le> ?o a"
    by (auto simp: live_def)
  obtain w4 where w4: "unref_dlg a 1 w3 = Some w4" "dlg_inv (?o(a := ?o a - 1)) T E w4"
      "near a (if live DLG_STATE_DELETED + ?o a \<le> 1 then None else Some DLG_STATE_DELETED) (w_stats w) w w4"
      "\<forall>y. y \<noteq> a \<longrightarrow> w_timer w4 y = w_timer w3 y" "w_first w4 = w_first w3"
    by (rule unref_near [OF w3 (2) n3 zero_less_one h]) (use assms (4) in blast)+
  have n4: "near a (if own a = 0 then None else Some DLG_STATE_DELETED) (w_stats w) w w4"
    using w4 (3) unfolding x .
  let ?f = "\<lambda>s. s\<lparr>expired_dlgs := expired_dlgs s + 1\<rparr>" and ?g = "\<lambda>s. s\<lparr>active_dlgs := active_dlgs s - 1\<rparr>"
  let ?e = "cf_enable_stats cfg" and ?st = "w_stats w"
  have "dlg_ontimeout env cfg a w = Some (if_update_stat ?e ?g (if_update_stat ?e ?f w4))"
    using ns w2 (1) w3 (1) w4 (1) assms (3) by (auto simp: dlg_ontimeout_def timed_def)
  moreover have "dlg_inv own T E (if_update_stat ?e ?g (if_update_stat ?e ?f w4))"
    using w4 (2) by simp
  moreover have "w_timer w3 = w_timer w \<and> w_first w3 = w_first w"
    using callbacks_timer [OF w2 (1)] db_remove_timer [OF w3 (1)] by simp
  ultimately show ?thesis
    using that near_stat [OF near_stat [OF n4, of ?e ?f], of ?e ?g] w4 (4,5) by (simp add: if_update_stat_def)
qed

text \<open>What one handler does to the states and the statistics.\<close>

definition evolves :: "dlg_cfg \<Rightarrow> dlg_world \<Rightarrow> dlg_world \<Rightarrow> bool" where
  "evolves cfg w w' \<longleftrightarrow> (\<exists>a x st. near a x st w w' \<and> stat_step cfg (w_stats w) (states w a) x st)"

lemma evolvesI: "near a x st w w' \<Longrightarrow> stat_step cfg (w_stats w) (states w a) x st \<Longrightarrow> evolves cfg w w'"
  by (auto simp: evolves_def)

lemma near_self: "near a (states w a) (w_stats w) w w"
  by (simp add: near_def)

lemma evolves_refl: "evolves cfg w w"
  by (rule evolvesI [OF near_self]) (simp add: stat_step_def)

lemma evolves_same: "evolves cfg w w' \<Longrightarrow> w_tmcb w' = w_tmcb w \<and> w_shutdown w' = w_shutdown w"
  by (auto simp: evolves_def near_def)

text \<open>A request that is looked up but does not match leaves its reference behind.\<close>

definition clean_route :: "dlg_cfg \<Rightarrow> dlg_msg \<Rightarrow> dlg_world \<Rightarrow> bool" where
  "clean_route cfg req w \<longleftrightarrow> (case route_find cfg req w of Some (w1, None) \<Rightarrow> w1 = w | _ \<Rightarrow> True)"

lemma route_lost_cell:
  assumes "run_inv cfg own w" and "route_find cfg req w = Some (w1, None)" and "taken own (timed_set w) {} w w1 q (\<lambda>_. True)"
    and "w1 \<noteq> w"
  obtains a where "a \<in> dom (w_cells w)" and "run_inv cfg (own(a := own a + 1)) w1" and "evolves cfg w w1"
proof -
  from assms (3,4) obtain a c where c: "w_cells w a = Some c" "w1 = put_cell a (c\<lparr>d_ref := d_ref c + 1\<rparr>) w"
      "dlg_inv (own(a := own a + 1)) (timed_set w) {} w1"
    by (auto simp: taken_def split: option.splits)
  have n: "near a (Some (d_state c)) (w_stats w) w w1"
    using near_put [OF c (1), of "c\<lparr>d_ref := d_ref c + 1\<rparr>"] c (2) by simp
  have "timed_set w = timed_set w1"
    using near_timed [OF n] not_timed_set [OF c (1)] by auto
  moreover have "bound_cells DLG_CALLEE_LEG w1 = bound_cells DLG_CALLEE_LEG w"
    using bound_put [OF c (1), of "c\<lparr>d_ref := d_ref c + 1\<rparr>"] c (2) by simp
  ultimately have "run_inv cfg (own(a := own a + 1)) w1"
    using assms (1) run_inv_near [OF assms (1) n c (3)] c (1) not_timed_set [OF c (1)] by (auto simp: run_inv_def legs_ok_def)
  moreover have "evolves cfg w w1"
    using n cell_states [OF c (1)] by (intro evolvesI) (auto simp: stat_step_def)
  ultimately show ?thesis using that c (1) by blast
qed

lemma route_lost_inv:
  assumes "run_inv cfg own w" and "route_find cfg req w = Some (w1, None)" and "taken own (timed_set w) {} w w1 q (\<lambda>_. True)"
  obtains own' where "dlg_onroute env cfg req w = Some w1" and "run_inv cfg own' w1" and "evolves cfg w w1"
    and "\<forall>b. own b \<le> own' b" and "clean_route cfg req w \<longrightarrow> own' = own" and "w_tmcb w1 = w_tmcb w"
proof (cases "w1 = w")
  case True
  with assms show ?thesis
    using that [of own] evolves_refl by (simp add: dlg_onroute_def)
next
  case False
  obtain a where "run_inv cfg (own(a := own a + 1)) w1" "evolves cfg w w1"
    using route_lost_cell [OF assms False] .
  then show ?thesis
    using that [of "own(a := own a + 1)"] False assms (2) evolves_same [of cfg w w1] by (simp add: dlg_onroute_def clean_route_def)
qed

lemma route_cell_step:
  assumes "ev = route_event m" and "d_state c \<noteq> DLG_STATE_DELETED"
  shows "dies c (cell_step ev c) \<longleftrightarrow> ev = DLG_EVENT_REQBYE \<and> timed (d_state c)"
    and "\<not> dies c (cell_step ev c) \<Longrightarrow> d_state (cell_step ev c) \<noteq> DLG_STATE_DELETED
      \<and> (timed (d_state (cell_step ev c)) \<longleftrightarrow> timed (d_state c)) \<and> (early (d_state (cell_step ev c)) \<longleftrightarrow> early (d_state c))"
  unfolding assms (1) using assms (2)
  by (cases "d_state c"; cases m; auto simp: dies_def d_state_cell_step spec_next_def route_event_def timed_def)+

text \<open>The request that keeps the dialog alive, from the state machine to the end of the handler.\<close>

lemma route_keep_inv:
  assumes "dlg_inv own T {} w1" and "near a (Some s) st w w1" and "1 \<le> own a" and "s \<noteq> DLG_STATE_DELETED"
    and "fresh_blocks env w1" and "timed s \<Longrightarrow> a \<in> T"
    and "cf_db_mode cfg = DB_MODE_REALTIME \<Longrightarrow> timed s \<Longrightarrow> \<forall>leg. a \<in> bound_cells leg w1"
  obtains w' where "(do { w \<leftarrow> (if (ev = DLG_EVENT_REQ \<or> ev = DLG_EVENT_REQACK) \<and> s = DLG_STATE_CONFIRMED
                                  then route_refresh env cfg req a dir w1 else Some w1);
                             w \<leftarrow> (if s = DLG_STATE_CONFIRMED \<and> old = DLG_STATE_CONFIRMED_NA
                                  then do { w \<leftarrow> set_changed a w; realtime_save env cfg a w } else Some w);
                             unref_dlg a 1 w }) = Some w'"
    and "dlg_inv (own(a := own a - 1)) T {} w'" and "near a (Some s) st w w'"
proof -
  obtain c1 where c1: "w_cells w1 a = Some c1" using near_cell [OF assms (2)] by blast
  have "\<exists>w2. (if (ev = DLG_EVENT_REQ \<or> ev = DLG_EVENT_REQACK) \<and> s = DLG_STATE_CONFIRMED
      then route_refresh env cfg req a dir w1 else Some w1) = Some w2 \<and> dlg_inv own T {} w2 \<and> quiet w1 w2"
  proof (cases "(ev = DLG_EVENT_REQ \<or> ev = DLG_EVENT_REQACK) \<and> s = DLG_STATE_CONFIRMED")
    case True
    then have t: "timed s" by (simp add: timed_def)
    show ?thesis
      using True refresh_inv [OF assms (1) c1 assms (6) [OF t] assms (5), of cfg req dir] assms (7) t by (metis (full_types))
  qed (use assms (1) in auto)
  then obtain w2 where w2: "(if (ev = DLG_EVENT_REQ \<or> ev = DLG_EVENT_REQACK) \<and> s = DLG_STATE_CONFIRMED
      then route_refresh env cfg req a dir w1 else Some w1) = Some w2" "dlg_inv own T {} w2" "quiet w1 w2" by blast
  obtain c2 where c2: "w_cells w2 a = Some c2" using quiet_cell [OF w2 (3) c1] .
  have "\<exists>w3. (if s = DLG_STATE_CONFIRMED \<and> old = DLG_STATE_CONFIRMED_NA
      then do { w \<leftarrow> set_changed a w2; realtime_save env cfg a w } else Some w2) = Some w3 \<and> dlg_inv own T {} w3 \<and> quiet w2 w3"
  proof (cases "s = DLG_STATE_CONFIRMED \<and> old = DLG_STATE_CONFIRMED_NA")
    case True
    then have "\<forall>leg. a \<in> bound_cells leg w2" if "cf_db_mode cfg = DB_MODE_REALTIME"
      using assms (7) that quiet_bound [OF w2 (3)] by (simp add: timed_def)
    then show ?thesis
      using True save_changed_inv [OF w2 (2) c2] by (metis (full_types))
  qed (use w2 (2) in auto)
  then obtain w3 where w3: "(if s = DLG_STATE_CONFIRMED \<and> old = DLG_STATE_CONFIRMED_NA
      then do { w \<leftarrow> set_changed a w2; realtime_save env cfg a w } else Some w2) = Some w3" "dlg_inv own T {} w3" "quiet w2 w3" by blast
  have n3: "near a (Some s) st w w3"
    using near_quiet [OF near_quiet [OF assms (2) w2 (3)] w3 (3)] .
  obtain w4 where w4: "unref_dlg a 1 w3 = Some w4" "dlg_inv (own(a := own a - 1)) T {} w4"
      "near a (if live s + own a \<le> 1 then None else Some s) st w w4"
    by (rule unref_near [OF w3 (2) n3 zero_less_one assms (3)]) (use assms (4) in blast)+
  have "near a (Some s) st w w4"
    using w4 (3) assms (3,4) by (simp add: live_def)
  with w2 (1) w3 (1) w4 (1,2) show ?thesis
    using that [of w4] by simp
qed

lemma route_found_inv:
  assumes "run_inv cfg own w" and "fresh_blocks env w" and "w_cells w a = Some c" and "d_state c \<noteq> DLG_STATE_DELETED"
    and "w1 = put_cell a (c\<lparr>d_ref := d_ref c + 1\<rparr>) w" and "dlg_inv (own(a := own a + 1)) (timed_set w) {} w1"
    and "route_find cfg req w = Some (w1, Some (a, dir))"
  obtains w' x st where "dlg_onroute env cfg req w = Some w'" and "run_inv cfg own w'" and "near a x st w w'"
    and "stat_step cfg (w_stats w) (states w a) x st"
    and "x = None \<longleftrightarrow> own a = 0 \<and> m_method req = METHOD_BYE \<and> timed (d_state c)"
proof -
  define ev where "ev = route_event (m_method req)"
  define c1 where "c1 = c\<lparr>d_ref := d_ref c + 1\<rparr>"
  define d where "d = cell_step ev c1"
  let ?T = "timed_set w" and ?o1 = "own(a := own a + 1)"
  let ?w2 = "(put_cell a d w1)\<lparr>w_curr := (m_id req, en_time env - d_start_ts d, d_state d)\<rparr>"
  have c1: "w_cells w1 a = Some c1" "d_state c1 = d_state c" "d_leg c1 = d_leg c"
    using assms (5) by (simp_all add: c1_def)
  have ev: "ev \<noteq> DLG_EVENT_TDEL" "ev = DLG_EVENT_REQBYE \<longleftrightarrow> m_method req = METHOD_BYE"
    by (auto simp: ev_def route_event_def split: sip_method.splits)
  have ns: "next_state_dlg (en_stale env) a ev w1 = Some (put_cell a d w1, d_state c, d_state d, if dies c1 d then Some 1 else None)"
    using next_state_cell_step [OF c1 (1) ev (1)] c1 (2) by (simp add: d_def)
  have i2: "dlg_inv (?o1(a := ?o1 a + (if dies c1 d then 1 else 0))) ?T {} ?w2"
    using inv_cell_step [OF assms (6) c1 (1), of ev] by (simp add: d_def)
  have "put_cell a d w1 = put_cell a d w" using assms (5) by simp
  then have n2: "near a (Some (d_state d)) (w_stats w) w ?w2"
    using near_put [OF assms (3), of d] c1 (3) by (simp add: d_def)
  have st: "d_state c1 \<noteq> DLG_STATE_DELETED" using assms (4) c1 (2) by simp
  note step = route_cell_step [OF ev_def st, folded d_def]
  have m: "states w a = Some (d_state c)" "a \<in> ?T \<longleftrightarrow> timed (d_state c)" "a \<in> dom (w_cells w)"
    using assms (3) by (simp_all add: cell_states not_timed_set dom_def)
  have o: "0 \<le> own a"
    using assms (1,3) invD (1) [of own ?T "{}" w a c] by (simp add: run_inv_def ref_ok_def)
  show ?thesis
  proof (cases "dies c1 d")
    case True
    then have b: "ev = DLG_EVENT_REQBYE" "timed (d_state c)" "d_state d = DLG_STATE_DELETED"
      using step (1) c1 (2) by (auto simp: dies_def)
    let ?o2 = "?o1(a := ?o1 a + 1)" and ?x = "if own a = 0 then None else Some DLG_STATE_DELETED"
    let ?st = "if cf_enable_stats cfg then (w_stats w)\<lparr>active_dlgs := active_dlgs (w_stats w) - 1\<rparr> else w_stats w"
    have i: "dlg_inv ?o2 ?T {} ?w2" and n: "near a (Some DLG_STATE_DELETED) (w_stats w) w ?w2" and h: "2 \<le> ?o2 a"
      using i2 n2 True b (3) o by simp_all
    obtain w' where w': "route_bye env cfg a (Some 1) ?w2 = Some w'" "dlg_inv (?o2(a := ?o2 a - 2)) (?T - {a}) {} w'"
        "near a (if ?o2 a = 2 then None else Some DLG_STATE_DELETED) ?st w w'"
      by (rule route_bye_inv [OF i n h]) blast
    have i': "dlg_inv own (?T - {a}) {} w'" and n': "near a ?x ?st w w'"
      using w' (2,3) by (simp_all add: fun_upd_idem)
    have "dlg_onroute env cfg req w = Some w'"
      using assms (4,7) ns True b w' (1) by (simp add: dlg_onroute_def flip: ev_def)
    moreover have "run_inv cfg own w'"
      using run_inv_near [OF assms (1) n' i' _ m (3)] near_timed [OF n'] by (simp add: timed_def split: if_splits)
    moreover have "stat_step cfg (w_stats w) (states w a) ?x ?st"
      using m b (2) by (auto simp: stat_step_def cnt_def timed_def)
    ultimately show ?thesis
      using that n' b (1,2) ev (2) by (auto split: if_splits)
  next
    case False
    note s = step (2) [OF False, unfolded c1 (2)]
    have i: "dlg_inv ?o1 ?T {} ?w2" and h: "1 \<le> ?o1 a" and f: "fresh_blocks env ?w2"
      using i2 False o assms (2,5) by (simp_all add: fresh_blocks_def)
    have b: "\<forall>leg. a \<in> bound_cells leg ?w2" if "cf_db_mode cfg = DB_MODE_REALTIME" "timed (d_state d)"
    proof
      fix leg
      have "a \<in> bound_cells leg w"
        using assms (1) that m s by (cases leg) (auto simp: run_inv_def legs_ok_def)
      then show "a \<in> bound_cells leg ?w2"
        using n2 unfolding near_def by simp
    qed
    obtain w' where w': "(do { w \<leftarrow> (if (ev = DLG_EVENT_REQ \<or> ev = DLG_EVENT_REQACK) \<and> d_state d = DLG_STATE_CONFIRMED
                                  then route_refresh env cfg req a dir ?w2 else Some ?w2);
                             w \<leftarrow> (if d_state d = DLG_STATE_CONFIRMED \<and> d_state c = DLG_STATE_CONFIRMED_NA
                                  then do { w \<leftarrow> set_changed a w; realtime_save env cfg a w } else Some w);
                             unref_dlg a 1 w }) = Some w'"
        "dlg_inv (?o1(a := ?o1 a - 1)) ?T {} w'" "near a (Some (d_state d)) (w_stats w) w w'"
      by (rule route_keep_inv [OF i n2 h _ f _ b, where ev = ev and old = "d_state c" and req = req and dir = dir])
        (use s m in blast)+
    have i': "dlg_inv own ?T {} w'" using w' (2) by simp
    have "dlg_onroute env cfg req w = Some w'"
      using assms (7) ns False w' (1) s [THEN conjunct1] by (simp add: dlg_onroute_def Let_def flip: ev_def)
    moreover have "run_inv cfg own w'"
    proof (rule run_inv_near [OF assms (1) w' (3) i' _ m (3)])
      show "?T = timed_set w'" using near_timed [OF w' (3)] m s by auto
      fix y assume "cf_db_mode cfg = DB_MODE_REALTIME" "Some (d_state d) = Some y" "timed y"
      then show "a \<in> bound_cells DLG_CALLEE_LEG w'"
        using assms (1) m s w' (3) by (auto simp: run_inv_def legs_ok_def near_def)
    qed
    moreover have "stat_step cfg (w_stats w) (states w a) (Some (d_state d)) (w_stats w)"
      using m s by (simp add: stat_step_def cnt_def)
    moreover have "\<not> (m_method req = METHOD_BYE \<and> timed (d_state c))"
      using False step (1) ev (2) c1 (2) by simp
    ultimately show ?thesis
      using that w' (3) by blast
  qed
qed

lemma route_inv:
  assumes "run_inv cfg own w" and "fresh_blocks env w"
  obtains w' own' where "dlg_onroute env cfg req w = Some w'" and "run_inv cfg own' w'" and "evolves cfg w w'"
    and "\<forall>b. own b \<le> own' b" and "clean_route cfg req w \<longrightarrow> own' = own" and "w_tmcb w' = w_tmcb w"
proof -
  have inv: "dlg_inv own (timed_set w) {} w"
    using assms (1) by (simp add: run_inv_def)
  obtain w1 r q where r: "route_find cfg req w = Some (w1, r)" "taken own (timed_set w) {} w w1 q (\<lambda>_. True)"
      "r = None \<or> map_option fst r = q"
    using route_find_taken [OF inv] by blast
  show ?thesis
  proof (cases r)
    case None
    with r (1) have "route_find cfg req w = Some (w1, None)" by simp
    then show ?thesis
      by (rule route_lost_inv [OF assms (1) _ r (2)]) (rule that)
  next
    case (Some p)
    obtain a dir where p: "p = (a, dir)" by (cases p)
    with Some r (3) have "q = Some a" by simp
    with r (2) obtain c where c: "w_cells w a = Some c" "d_state c \<noteq> DLG_STATE_DELETED"
        "w1 = put_cell a (c\<lparr>d_ref := d_ref c + 1\<rparr>) w" "dlg_inv (own(a := own a + 1)) (timed_set w) {} w1"
      by (auto simp: taken_def)
    have f: "route_find cfg req w = Some (w1, Some (a, dir))" using r (1) Some p by simp
    obtain w' x st where "dlg_onroute env cfg req w = Some w'" "run_inv cfg own w'" "near a x st w w'"
        "stat_step cfg (w_stats w) (states w a) x st"
      by (rule route_found_inv [OF assms c f])
    then show ?thesis
      using that [of w' own] evolvesI by (auto simp: near_def)
  qed
qed

section \<open>The timer routine\<close>

lemma near_timer [simp]: "near a x st (w\<lparr>w_timer := h\<rparr>) w' = near a x st w w'"
  by (simp add: near_def states_def bound_cells_def)

lemma world_timer [simp]:
  "states (w\<lparr>w_timer := h\<rparr>) = states w" "timed_set (w\<lparr>w_timer := h\<rparr>) = timed_set w" "legs_ok cfg (w\<lparr>w_timer := h\<rparr>) = legs_ok cfg w"
  by (simp_all add: states_def timed_set_def legs_ok_def bound_cells_def)

text \<open>The expired nodes are cut off the list, and the rest of the store still represents it.\<close>

lemma cut_represents:
  assumes "represents first h ts" and "map fst ts = es @ rs" and "timer_list first h' rs" and "dom h' = dom h"
    and "\<forall>y. y \<notin> set (first # es @ rs) \<longrightarrow> h' y = h y" and "distinct (first # es @ rs)"
  shows "represents first (h' |` (- set es)) (timers h' rs)"
  unfolding represents_def
proof (intro conjI allI impI)
  let ?h = "h' |` (- set es)"
  have r: "?h y = h' y" if "y \<in> set (first # rs)" for y
    using that assms (6) by (auto simp: restrict_map_def)
  show "timer_list first ?h (map fst (timers h' rs))"
    using assms (3) timer_list_cong [of first rs ?h h'] r by simp
  show "timers h' rs = timers ?h (map fst (timers h' rs))"
    using r by (simp add: timers_def)
  have "0 \<notin> dom h" using representsD (3) [OF assms (1)] by auto
  then show "?h 0 = None" using assms (4) by (auto simp: restrict_map_def)
  fix x c assume x: "?h x = Some c" "x \<notin> set (first # map fst (timers h' rs))"
  then have n: "x \<notin> set (first # es @ rs)" by (auto simp: restrict_map_def split: if_splits)
  with x (1) assms (5) have "h x = Some c" by (auto simp: restrict_map_def split: if_splits)
  moreover have "x \<notin> set (first # map fst ts)" using n assms (2) by simp
  ultimately show "unlinked c"
    using assms (1) unfolding represents_def by blast
qed

text \<open>One expired node after the other goes to the handler.\<close>

lemma inv_pop:
  assumes "dlg_inv own T (insert e E) (w\<lparr>w_timer := h\<rparr>)" and "e \<notin> E" and "h e = Some n" and "tl_prev n = 0"
  shows "dlg_inv own T E (w\<lparr>w_timer := h(e \<mapsto> n\<lparr>tl_next := 0\<rparr>)\<rparr>)"
proof -
  let ?h = "h(e \<mapsto> n\<lparr>tl_next := 0\<rparr>)"
  have t: "timer_ok T (insert e E) (w\<lparr>w_timer := h\<rparr>)" using assms (1) by (simp add: dlg_inv_def)
  then obtain ts where ts: "represents (w_first w) (h |` (- insert e E)) ts" "set (map fst ts) = T"
    unfolding timer_ok_def by auto
  have n: "n\<lparr>tl_next := 0\<rparr> = \<lparr>tl_next = 0, tl_prev = 0, tl_timeout = tl_timeout n\<rparr>"
    using assms (4) by (cases n) simp
  have eq: "?h |` (- E) = (h |` (- insert e E))(e \<mapsto> \<lparr>tl_next = 0, tl_prev = 0, tl_timeout = tl_timeout n\<rparr>)"
    unfolding n using assms (2) by (auto simp: restrict_map_def fun_eq_iff)
  have "e \<noteq> 0" and e: "e \<in> dom (w_cells w)" using t assms (3) unfolding timer_ok_def by auto
  then have "represents (w_first w) (?h |` (- E)) ts"
    unfolding eq by (intro represents_new [OF ts (1)]) (simp_all add: restrict_map_def)
  moreover have "dom ?h = dom h" using assms (3) by auto
  moreover have "?h 0 = None" using t \<open>e \<noteq> 0\<close> by (simp add: timer_ok_def)
  ultimately have "timer_ok T E (w\<lparr>w_timer := ?h\<rparr>)"
    using t ts (2) unfolding timer_ok_def by auto
  then show ?thesis
    using assms (1) by (simp add: dlg_inv_def table_ok_def refs_ok_def blocks_ok_def cells_of_def)
qed

lemma evolve_timer: "evolves cfg (w\<lparr>w_timer := h\<rparr>) w' = evolves cfg w w'"
  by (simp add: evolves_def)

lemma fire_inv:
  assumes "pending h p es" and "distinct es" and "dlg_inv own T (set es) (w\<lparr>w_timer := h\<rparr>)" and "timed_set w = T \<union> set es"
    and "legs_ok cfg w"
  shows "\<exists>h' w'. fire_expired (timeout_handler env cfg) (h, w) p = Some (h', w') \<and> dlg_inv own T {} (w'\<lparr>w_timer := h'\<rparr>)
    \<and> timed_set w' = T \<and> legs_ok cfg w' \<and> (evolves cfg)\<^sup>*\<^sup>* w w' \<and> w_tmcb w' = w_tmcb w"
  using assms
proof (induction es arbitrary: h p w)
  case Nil
  then show ?case by (simp add: fire_expired.simps)
next
  case (Cons e es)
  from Cons.prems (1) obtain n where n: "p = e" "e \<noteq> 0" "h e = Some n" "tl_prev n = 0" "pending h (tl_next n) es" by auto
  let ?h1 = "h(e \<mapsto> n\<lparr>tl_next := 0\<rparr>)"
  have e: "e \<notin> set es" "distinct es" using Cons.prems (2) by simp_all
  have T: "e \<notin> T" using Cons.prems (3) by (auto simp: dlg_inv_def timer_ok_def)
  have i1: "dlg_inv own T (set es) (w\<lparr>w_timer := ?h1\<rparr>)"
    using inv_pop [where e = e and E = "set es" and n = n and h = h and w = w] Cons.prems (3) e (1) n (3,4) by simp
  have "e \<in> timed_set w" using Cons.prems (4) by simp
  then obtain c where c: "w_cells (w\<lparr>w_timer := ?h1\<rparr>) e = Some c" "timed (d_state c)"
    by (auto simp: timed_set_def)
  have a: "e \<notin> T \<union> set es" using e T by simp
  obtain w2 st where w2: "dlg_ontimeout env cfg e (w\<lparr>w_timer := ?h1\<rparr>) = Some w2" "dlg_inv own T (set es) w2"
      "near e (if own e = 0 then None else Some DLG_STATE_DELETED) st (w\<lparr>w_timer := ?h1\<rparr>) w2"
      "cf_enable_stats cfg \<longrightarrow> active_dlgs st = active_dlgs (w_stats (w\<lparr>w_timer := ?h1\<rparr>)) - 1
        \<and> early_dlgs st = early_dlgs (w_stats (w\<lparr>w_timer := ?h1\<rparr>))"
      "\<forall>y. y \<noteq> e \<longrightarrow> w_timer w2 y = w_timer (w\<lparr>w_timer := ?h1\<rparr>) y"
    by (rule timeout_inv [OF i1 c a, of env cfg]) blast
  let ?x = "if own e = 0 then None else Some DLG_STATE_DELETED"
  have n2: "near e ?x st w w2" using w2 (3) by simp
  have p2: "pending (w_timer w2) (tl_next n) es"
  proof -
    have "w_timer w2 y = h y" if "y \<in> set es" for y
      using w2 (5) that e (1) by auto
    then show ?thesis using n (5) pending_cong by blast
  qed
  have T2: "timed_set w2 = T \<union> set es"
    using near_timed [OF n2] Cons.prems (4) T e (1) by (auto simp: timed_def)
  have "e \<in> dom (w_cells w)" using c (1) by auto
  then have l2: "legs_ok cfg w2"
    by (rule legs_near [OF Cons.prems (5) n2]) (auto simp: timed_def split: if_splits)
  have "states w e = Some (d_state c)" using c (1) by (simp add: states_def)
  then have ev: "evolves cfg w w2"
    using n2 w2 (4) c (2) by (intro evolvesI [OF n2]) (auto simp: stat_step_def cnt_def timed_def)
  have "dlg_inv own T (set es) (w2\<lparr>w_timer := w_timer w2\<rparr>)" using w2 (2) by simp
  from Cons.IH [OF p2 e (2) this T2 l2] obtain h' w' where
    "fire_expired (timeout_handler env cfg) (w_timer w2, w2) (tl_next n) = Some (h', w')" "dlg_inv own T {} (w'\<lparr>w_timer := h'\<rparr>)"
    "timed_set w' = T" "legs_ok cfg w'" "(evolves cfg)\<^sup>*\<^sup>* w2 w'" "w_tmcb w' = w_tmcb w2" by blast
  moreover have "fire_expired (timeout_handler env cfg) (h, w) p = fire_expired (timeout_handler env cfg) (w_timer w2, w2) (tl_next n)"
    using n (1-3) w2 (1) by (subst fire_expired.simps) (simp add: pop_expired_def timeout_handler_def set_next_def)
  moreover have "w_tmcb w2 = w_tmcb w" using n2 by (simp add: near_def)
  ultimately show ?case
    using converse_rtranclp_into_rtranclp [where r = "evolves cfg", OF ev] by metis
qed

lemma timer_run_inv:
  assumes "run_inv cfg own w"
  obtains w' where "dlg_timer_run env cfg w = Some w'" and "run_inv cfg own w'" and "(evolves cfg)\<^sup>*\<^sup>* w w'" and "w_tmcb w' = w_tmcb w"
proof -
  let ?T = "timed_set w" and ?now = "en_ticks env"
  have inv: "dlg_inv own ?T {} w" and l: "legs_ok cfg w" using assms by (simp_all add: run_inv_def)
  obtain ts where ts: "represents (w_first w) (w_timer w) ts" "set (map fst ts) = ?T"
    using inv_represents [OF inv] .
  obtain es rs where es: "map fst ts = es @ rs" "timer_list (w_first w) (w_timer w) (es @ rs)"
      "\<And>e. e \<in> set es \<Longrightarrow> tmo (w_timer w) e \<le> ?now" "rs \<noteq> [] \<Longrightarrow> ?now < tmo (w_timer w) (hd rs)"
    by (rule represents_split [OF ts (1), of ?now]) blast
  show ?thesis
  proof (cases "es = []")
    case True
    then have "get_expired_dlgs (w_first w) (w_timer w) ?now = Some (w_timer w, 0)"
      using get_expired_none [of "w_first w" "w_timer w" rs ?now] es (2,4) by simp
    then have "dlg_timer_run env cfg w = Some w"
      by (simp add: dlg_timer_run_def dlg_timer_routine_def fire_expired.simps)
    then show ?thesis using that [of w] assms by simp
  next
    case False
    obtain h where h: "get_expired_dlgs (w_first w) (w_timer w) ?now = Some (h, hd es)" "pending h (hd es) es"
        "timer_list (w_first w) h rs" "dom h = dom (w_timer w)" "\<forall>y. y \<notin> set (w_first w # es @ rs) \<longrightarrow> h y = w_timer w y"
      using get_expired_list [OF es (2) False es (3,4)] by blast
    have d: "distinct (w_first w # es @ rs)" using es (2) by (simp add: timer_list_def)
    have r: "represents (w_first w) (h |` (- set es)) (timers h rs)"
      using cut_represents [OF ts (1) es (1) h (3-5) d] .
    have T: "?T = set rs \<union> set es" using ts (2) es (1) by auto
    have "set es \<subseteq> dom (w_cells w)" using T by (auto simp: timed_set_def)
    moreover have "h 0 = None" using inv h (4) by (auto simp: dlg_inv_def timer_ok_def domIff)
    moreover have "fst ` set (timers h rs) = set rs" by (metis fst_timers set_map)
    moreover have "set rs \<inter> set es = {}" using d by auto
    ultimately have "timer_ok (set rs) (set es) (w\<lparr>w_timer := h\<rparr>)"
      using inv h (4) r unfolding dlg_inv_def timer_ok_def by auto
    then have i1: "dlg_inv own (set rs) (set es) (w\<lparr>w_timer := h\<rparr>)"
      using inv by (simp add: dlg_inv_def table_ok_def refs_ok_def blocks_ok_def cells_of_def)
    have ds: "distinct es" using d by simp
    obtain h' w' where f: "fire_expired (timeout_handler env cfg) (h, w) (hd es) = Some (h', w')" "dlg_inv own (set rs) {} (w'\<lparr>w_timer := h'\<rparr>)"
        "timed_set w' = set rs" "legs_ok cfg w'" "(evolves cfg)\<^sup>*\<^sup>* w w'" "w_tmcb w' = w_tmcb w"
      using fire_inv [OF h (2) ds i1 T l] by blast
    have "evolves cfg w' (w'\<lparr>w_timer := h'\<rparr>)"
      using evolvesI [of 0 "states w' 0" "w_stats w'" w' "w'\<lparr>w_timer := h'\<rparr>"] near_self by (simp add: stat_step_def)
    then have "(evolves cfg)\<^sup>*\<^sup>* w (w'\<lparr>w_timer := h'\<rparr>)"
      using f (5) by (rule rtranclp.rtrancl_into_rtrancl [rotated])
    moreover have "dlg_timer_run env cfg w = Some (w'\<lparr>w_timer := h'\<rparr>)"
      using f (1) h (1) by (simp add: dlg_timer_run_def dlg_timer_routine_def)
    moreover have "run_inv cfg own (w'\<lparr>w_timer := h'\<rparr>)"
      using f (2-4) by (simp add: run_inv_def)
    ultimately show ?thesis
      using that f (6) by simp
  qed
qed

section \<open>New dialogs\<close>

text \<open>Saving the caller in a cell without legs: only this cell and the blocks change.\<close>

lemma set_leg_caller:
  assumes "w_cells w a = Some c" and "d_leg c = (\<lambda>_. no_leg)" and "fresh_blocks env w"
  obtains d V r where "dlg_set_leg_info (en_tag env) (en_cseq env) a tag rr contact cseq DLG_CALLER_LEG w =
      Some (put_cell a d (w\<lparr>w_blocks := V\<rparr>), r)"
    and "d_ref d = d_ref c \<and> d_state d = d_state c \<and> d_h_entry d = d_h_entry c \<and> d_callid d = d_callid c"
    and "r \<noteq> 0 \<longrightarrow> V = w_blocks w"
    and "r = 0 \<longrightarrow> V = set (cell_blocks d) \<union> w_blocks w \<and> distinct (cell_blocks d) \<and> set (cell_blocks d) \<inter> w_blocks w = {}
      \<and> lg_tag (d_leg d DLG_CALLER_LEG) = tag"
proof (cases "en_tag env = None \<or> en_cseq env = None")
  case True
  let ?d = "set_leg DLG_CALLER_LEG (\<lambda>l. l\<lparr>lg_tag_s := en_tag env, lg_cseq_s := en_cseq env\<rparr>) c"
  have "dlg_set_leg_info (en_tag env) (en_cseq env) a tag rr contact cseq DLG_CALLER_LEG w =
      Some (put_cell a ?d (w\<lparr>w_blocks := w_blocks w\<rparr>), - 1)"
    using True assms (1,3) by (cases "en_tag env"; cases "en_cseq env")
      (auto simp: dlg_set_leg_info_def upd_cell_def alloc_def shm_free_def fresh_blocks_def)
  then show ?thesis
    by (rule that) (simp_all add: set_leg_def)
next
  case False
  then obtain b1 b2 where b: "en_tag env = Some b1" "en_cseq env = Some b2" by auto
  let ?d = "set_leg DLG_CALLER_LEG (\<lambda>l. l\<lparr>lg_tag := tag, lg_contact := contact,
      lg_route_set := (if rr \<noteq> [] then rr else lg_route_set l), lg_cseq := cseq\<rparr>)
    (set_leg DLG_CALLER_LEG (\<lambda>l. l\<lparr>lg_tag_s := Some b1, lg_cseq_s := Some b2\<rparr>) c)"
  have "dlg_set_leg_info (en_tag env) (en_cseq env) a tag rr contact cseq DLG_CALLER_LEG w =
      Some (put_cell a ?d (w\<lparr>w_blocks := insert b2 (insert b1 (w_blocks w))\<rparr>), 0)"
    using assms (1) b by (simp add: dlg_set_leg_info_def upd_cell_def alloc_def)
  then show ?thesis
    by (rule that) (use assms (2,3) b in \<open>auto simp: set_leg_def cell_blocks_def opt_list_def no_leg_def fresh_blocks_def\<close>)
qed

lemma populate_caller:
  assumes "w_cells w a = Some c" and "d_leg c = (\<lambda>_. no_leg)" and "fresh_blocks env w"
  obtains d V r where "populate_leg_info env a msg t DLG_CALLER_LEG tag w = Some (put_cell a d (w\<lparr>w_blocks := V\<rparr>), r)"
    and "d_ref d = d_ref c \<and> d_state d = d_state c \<and> d_h_entry d = d_h_entry c \<and> d_callid d = d_callid c"
    and "r \<noteq> 0 \<longrightarrow> V = w_blocks w"
    and "r = 0 \<longrightarrow> V = set (cell_blocks d) \<union> w_blocks w \<and> distinct (cell_blocks d) \<and> set (cell_blocks d) \<inter> w_blocks w = {}
      \<and> lg_tag (d_leg d DLG_CALLER_LEG) = tag \<and> lg_bind_addr (d_leg d DLG_CALLER_LEG) \<noteq> None"
proof (cases "\<exists>cs u hs. m_cseq msg = Some cs \<and> m_contact msg = Some [u] \<and> m_rr msg = Some hs")
  case False
  then have "populate_leg_info env a msg t DLG_CALLER_LEG tag w = Some (put_cell a c (w\<lparr>w_blocks := w_blocks w\<rparr>), - 1)"
    using assms (1) by (auto simp: populate_leg_info_def map_upd_triv split: option.split list.split)
  then show ?thesis by (rule that) simp_all
next
  case True
  then obtain cs u hs where m: "m_cseq msg = Some cs" "m_contact msg = Some [u]" "m_rr msg = Some hs" by blast
  obtain ret rr nb where p: "(if hs \<noteq> [] then print_rr_body (en_pkg env) hs False (Some 0) else Some (0, [], Some 0)) = Some (ret, rr, nb)"
    using print_rr_body_total [of 0 "en_pkg env" hs False] by (cases "hs = []") auto
  show ?thesis
  proof (cases "ret = 0")
    case False
    then have "populate_leg_info env a msg t DLG_CALLER_LEG tag w = Some (put_cell a c (w\<lparr>w_blocks := w_blocks w\<rparr>), - 1)"
      using assms (1) m p by (simp add: populate_leg_info_def skip_recs_def map_upd_triv split: if_split_asm)
    then show ?thesis by (rule that) simp_all
  next
    case True
    let ?c = "c\<lparr>d_from_rr_nb := (case nb of Some n \<Rightarrow> n | None \<Rightarrow> 0)\<rparr>"
    let ?w = "put_cell a ?c w"
    have c: "w_cells ?w a = Some ?c" "d_leg ?c = (\<lambda>_. no_leg)" "fresh_blocks env ?w"
      using assms (2,3) by simp_all
    obtain d V r where d: "dlg_set_leg_info (en_tag env) (en_cseq env) a tag rr u cs DLG_CALLER_LEG ?w = Some (put_cell a d (?w\<lparr>w_blocks := V\<rparr>), r)"
        "d_ref d = d_ref ?c \<and> d_state d = d_state ?c \<and> d_h_entry d = d_h_entry ?c \<and> d_callid d = d_callid ?c"
        "r \<noteq> 0 \<longrightarrow> V = w_blocks ?w"
        "r = 0 \<longrightarrow> V = set (cell_blocks d) \<union> w_blocks ?w \<and> distinct (cell_blocks d) \<and> set (cell_blocks d) \<inter> w_blocks ?w = {}
          \<and> lg_tag (d_leg d DLG_CALLER_LEG) = tag"
      by (rule set_leg_caller [OF c])
    have w: "put_cell a x (?w\<lparr>w_blocks := V\<rparr>) = put_cell a x (w\<lparr>w_blocks := V\<rparr>)" for x by simp
    let ?d = "if r = 0 then set_leg DLG_CALLER_LEG (\<lambda>l. l\<lparr>lg_bind_addr := Some (m_bind_address msg)\<rparr>) d else d"
    have "populate_leg_info env a msg t DLG_CALLER_LEG tag w = Some (put_cell a ?d (w\<lparr>w_blocks := V\<rparr>), if r = 0 then 0 else - 1)"
      using assms (1) m p True d (1) upd_cell_Some [OF assms (1)]
      by (auto simp: populate_leg_info_def skip_recs_def upd_cell_def split: if_split_asm)
    then show ?thesis
      by (rule that) (use d (2-4) in \<open>auto simp: set_leg_def cell_blocks_def\<close>)
  qed
qed

text \<open>A cell for which the allocator has returned unused memory.\<close>

definition fresh_cell :: "dlg_env \<Rightarrow> dlg_world \<Rightarrow> bool" where
  "fresh_cell env w \<longleftrightarrow> (\<forall>a. en_cell env = Some a \<longrightarrow> a \<noteq> 0 \<and> a \<noteq> w_first w \<and> w_cells w a = None)"

lemma inv_same:
  assumes "dlg_inv own T E w" and "w_cells w' = w_cells w" and "w_size w' = w_size w" and "w_entries w' = w_entries w"
    and "w_timer w' = w_timer w" and "w_first w' = w_first w" and "w_blocks w' = w_blocks w"
  shows "dlg_inv own T E w'"
  using assms by (simp add: dlg_inv_def table_ok_def refs_ok_def blocks_ok_def timer_ok_def cells_of_def)

lemma legs_ok_same: "w_cells w' = w_cells w \<Longrightarrow> legs_ok cfg w' = legs_ok cfg w \<and> timed_set w' = timed_set w \<and> states w' = states w"
  by (simp add: legs_ok_def timed_set_def bound_cells_def states_def)

lemma run_inv_same:
  assumes "run_inv cfg own w" and "dlg_inv own' (timed_set w) {} w'" and "w_cells w' = w_cells w"
  shows "run_inv cfg own' w'"
  using assms legs_ok_same [OF assms (3)] by (simp add: run_inv_def)

text \<open>What a request leaves: nothing new, or a new dialog that its transaction holds.\<close>

definition created :: "dlg_cfg \<Rightarrow> nat \<Rightarrow> dlg_world \<Rightarrow> dlg_world \<Rightarrow> bool" where
  "created cfg a w w' \<longleftrightarrow>
     states w a = None \<and> states w' = (states w)(a \<mapsto> DLG_STATE_UNCONFIRMED) \<and> w_tmcb w' = insert a (w_tmcb w) \<and> w_shutdown w' = w_shutdown w
     \<and> active_dlgs (w_stats w') = active_dlgs (w_stats w) \<and> early_dlgs (w_stats w') = early_dlgs (w_stats w)"

definition unchanged :: "dlg_world \<Rightarrow> dlg_world \<Rightarrow> bool" where
  "unchanged w w' \<longleftrightarrow>
     w_cells w' = w_cells w \<and> w_tmcb w' = w_tmcb w \<and> w_shutdown w' = w_shutdown w
     \<and> active_dlgs (w_stats w') = active_dlgs (w_stats w) \<and> early_dlgs (w_stats w') = early_dlgs (w_stats w)"

lemma link_inv:
  assumes "run_inv cfg own w" and "w_cells w a = None" and "a \<noteq> 0" and "a \<noteq> w_first w"
    and "w1 = w\<lparr>w_timer := (w_timer w)(a \<mapsto> \<lparr>tl_next = 0, tl_prev = 0, tl_timeout = 0\<rparr>),
      w_blocks := set (cell_blocks d) \<union> w_blocks w, w_cells := (w_cells w)(a \<mapsto> d)\<rparr>"
    and "hash_ok (w_size w) d" and "d_ref d = 0" and "d_state d = DLG_STATE_UNCONFIRMED"
    and "distinct (cell_blocks d)" and "set (cell_blocks d) \<inter> w_blocks w = {}"
  obtains w2 d2 where "link_dlg a 1 (run_create_callbacks a w1) = Some w2" and "dlg_inv (own(a := 1)) (timed_set w) {} w2"
    and "w_cells w2 = (w_cells w)(a \<mapsto> d2)" and "d_state d2 = DLG_STATE_UNCONFIRMED" and "d_ref d2 = 2" and "d_leg d2 = d_leg d"
    and "w_stats w2 = w_stats w" and "w_tmcb w2 = w_tmcb w" and "w_shutdown w2 = w_shutdown w"
proof -
  let ?e = "w_entries w (d_h_entry d)"
  let ?d2 = "d\<lparr>d_h_id := e_next_id ?e, d_ref := 2\<rparr>" and ?e2 = "?e\<lparr>e_cells := e_cells ?e @ [a], e_next_id := e_next_id ?e + 1\<rparr>"
  define w2 where "w2 = (run_create_callbacks a w1)\<lparr>w_cells := (w_cells w)(a \<mapsto> ?d2), w_entries := (w_entries w)(d_h_entry d := ?e2)\<rparr>"
  have l: "link_dlg a 1 (run_create_callbacks a w1) = Some w2"
    using assms (5,7) by (simp add: link_dlg_def run_create_callbacks_def upd_cell_def upd_entry_def w2_def Let_def)
  have b: "cell_blocks (d\<lparr>d_h_id := x, d_ref := y\<rparr>) = cell_blocks d" for x y by (simp add: cell_blocks_def)
  have inv: "dlg_inv own (timed_set w) {} w" using assms (1) by (simp add: run_inv_def)
  have i: "dlg_inv (own(a := 1)) (timed_set w) {} w2"
    by (rule inv_new_cell [OF inv assms (2-4), where d = ?d2 and e = ?e2])
      (use assms (5,6,8-10) in \<open>simp_all add: w2_def run_create_callbacks_def b hash_ok_def ref_ok_def live_def\<close>)
  show ?thesis
    by (rule that [OF l i, of ?d2]) (use assms (5,8) in \<open>simp_all add: w2_def run_create_callbacks_def\<close>)
qed

lemma run_inv_created:
  assumes "run_inv cfg own w" and "w_cells w a = None" and "dlg_inv own' (timed_set w) {} w'" and "w_cells w' = (w_cells w)(a \<mapsto> d)"
    and "d_state d = DLG_STATE_UNCONFIRMED" and "lg_bind_addr (d_leg d DLG_CALLER_LEG) \<noteq> None"
  shows "run_inv cfg own' w'" and "states w' = (states w)(a \<mapsto> DLG_STATE_UNCONFIRMED)" and "states w a = None"
proof -
  have T: "timed_set w' = timed_set w"
    using assms (2,4,5) by (auto simp: timed_set_def timed_def)
  have "bound_cells DLG_CALLER_LEG w' = insert a (bound_cells DLG_CALLER_LEG w)"
    using assms (2,4,6) by (auto simp: bound_cells_def)
  moreover have "bound_cells DLG_CALLEE_LEG w \<subseteq> bound_cells DLG_CALLEE_LEG w'"
    using assms (2,4) by (auto simp: bound_cells_def)
  ultimately show "run_inv cfg own' w'"
    using assms (1,3,4) T by (auto simp: run_inv_def legs_ok_def)
qed (use assms (2,4,5) in \<open>auto simp: states_def\<close>)

lemma onreq_link_inv:
  assumes "run_inv cfg own w" and "w_cells w a = None" and "a \<noteq> 0" and "a \<noteq> w_first w"
    and "w1 = w\<lparr>w_timer := (w_timer w)(a \<mapsto> \<lparr>tl_next = 0, tl_prev = 0, tl_timeout = 0\<rparr>),
      w_blocks := set (cell_blocks d) \<union> w_blocks w, w_cells := (w_cells w)(a \<mapsto> d)\<rparr>"
    and "hash_ok (w_size w) d" and "d_ref d = 0" and "d_state d = DLG_STATE_UNCONFIRMED"
    and "distinct (cell_blocks d)" and "set (cell_blocks d) \<inter> w_blocks w = {}" and "lg_bind_addr (d_leg d DLG_CALLER_LEG) \<noteq> None"
  shows "\<exists>w'. onreq_link env cfg req a w1 = Some w' \<and>
    (unchanged w w' \<and> run_inv cfg own w' \<or> created cfg a w w' \<and> run_inv cfg (own(a := 1)) w')"
proof -
  obtain w2 d2 where l: "link_dlg a 1 (run_create_callbacks a w1) = Some w2" "dlg_inv (own(a := 1)) (timed_set w) {} w2"
      "w_cells w2 = (w_cells w)(a \<mapsto> d2)" "d_state d2 = DLG_STATE_UNCONFIRMED" "d_ref d2 = 2" "d_leg d2 = d_leg d"
      "w_stats w2 = w_stats w" "w_tmcb w2 = w_tmcb w" "w_shutdown w2 = w_shutdown w"
    by (rule link_inv [OF assms (1-10)])
  have c2: "w_cells w2 a = Some d2" using l (3) by simp
  have o: "own a = 0"
    using assms (1,2) by (auto simp: run_inv_def dlg_inv_def refs_ok_def)
  have "a \<notin> timed_set w \<union> {}" using assms (2) by (auto simp: timed_set_def)
  then obtain es bs where u: "unref_dlg a 2 w2 = Some (w2\<lparr>w_entries := es, w_cells := (w_cells w2)(a := None), w_timer := (w_timer w2)(a := None), w_blocks := bs\<rparr>)"
      "dlg_inv ((own(a := 1))(a := 0)) (timed_set w) {} (w2\<lparr>w_entries := es, w_cells := (w_cells w2)(a := None), w_timer := (w_timer w2)(a := None), w_blocks := bs\<rparr>)"
    using unref_last [OF l (2) c2, of 2] l (5) unfolding Let_def by auto
  let ?w3 = "if_update_stat True (\<lambda>s. s\<lparr>failed_dlgs := failed_dlgs s + 1\<rparr>)
    (w2\<lparr>w_entries := es, w_cells := (w_cells w2)(a := None), w_timer := (w_timer w2)(a := None), w_blocks := bs\<rparr>)"
  have e: "onreq_error a w2 = Some ?w3" using u (1) by (simp add: onreq_error_def)
  have c3: "w_cells ?w3 = w_cells w" using l (3) assms (2) by (auto simp: if_update_stat_def)
  have i3: "dlg_inv own (timed_set w) {} ?w3"
    using u (2) o by (simp only: inv_stat fun_upd_upd) (simp add: fun_upd_idem)
  have r3: "unchanged w ?w3 \<and> run_inv cfg own ?w3"
    using run_inv_same [OF assms (1) i3 c3] c3 l (7-9) by (simp add: unchanged_def if_update_stat_def)
  obtain w4 where w4: "upd_cell a (\<lambda>c. c\<lparr>d_lifetime := ucast (get_dlg_timeout cfg req)\<rparr>) w2 = Some w4"
      "dlg_inv (own(a := 1)) (timed_set w) {} w4" "quiet w2 w4"
    using upd_lifetime_inv [OF l (2) c2] .
  let ?w5 = "if_update_stat (cf_enable_stats cfg) (\<lambda>s. s\<lparr>processed_dlgs := processed_dlgs s + 1\<rparr>) (w4\<lparr>w_tmcb := insert a (w_tmcb w4)\<rparr>)"
  have c5: "w_cells ?w5 = (w_cells w)(a \<mapsto> d2\<lparr>d_lifetime := ucast (get_dlg_timeout cfg req)\<rparr>)"
    using w4 (1) c2 l (3) by (auto simp: upd_cell_def if_update_stat_def)
  have i5: "dlg_inv (own(a := 1)) (timed_set w) {} ?w5" using w4 (2) by simp
  have "created cfg a w ?w5" and "run_inv cfg (own(a := 1)) ?w5"
    using run_inv_created [OF assms (1,2) i5 c5] l (4,6-9) assms (11) w4 (3)
    by (auto simp: created_def quiet_def if_update_stat_def)
  then show ?thesis
    using l (1) c2 e r3 w4 (1) unfolding onreq_link_def by (simp add: Let_def)
qed

lemma onreq_inv:
  assumes "run_inv cfg own w" and "fresh_blocks env w" and "fresh_cell env w"
  shows "\<exists>w' own'. dlg_onreq env cfg t req w = Some w' \<and> run_inv cfg own' w'
    \<and> (unchanged w w' \<and> own' = own \<or> (\<exists>a. created cfg a w w' \<and> own' = own(a := 1)))"
proof (cases "\<exists>to_uri from_uri from_tag callid a. m_to req = Some (to_uri, []) \<and> m_method req \<noteq> METHOD_CANCEL
    \<and> and (m_flags req) (cf_dlg_flag cfg) = cf_dlg_flag cfg \<and> m_from req = Some (from_uri, from_tag)
    \<and> m_callid req = Some callid \<and> en_cell env = Some a")
  case False
  then have "dlg_onreq env cfg t req w = Some w"
    by (auto simp: dlg_onreq_def build_new_dlg_def split: option.split prod.split)
  then show ?thesis using assms (1) by (auto simp: unchanged_def)
next
  case True
  then obtain to_uri from_uri from_tag callid a where q: "m_to req = Some (to_uri, [])" "m_method req \<noteq> METHOD_CANCEL"
      "and (m_flags req) (cf_dlg_flag cfg) = cf_dlg_flag cfg" "m_from req = Some (from_uri, from_tag)" "m_callid req = Some callid"
      "en_cell env = Some a" by blast
  have a: "a \<noteq> 0" "a \<noteq> w_first w" "w_cells w a = None" using assms (3) q (6) by (simp_all add: fresh_cell_def)
  obtain w1 c where b: "build_new_dlg (en_cell env) (trim callid) from_uri to_uri from_tag w = (w1, Some a)"
      "w1 = w\<lparr>w_cells := (w_cells w)(a \<mapsto> c), w_timer := (w_timer w)(a \<mapsto> \<lparr>tl_next = 0, tl_prev = 0, tl_timeout = 0\<rparr>)\<rparr>"
      "d_leg c = (\<lambda>_. no_leg)" "d_ref c = 0" "d_state c = DLG_STATE_UNCONFIRMED" "d_callid c = trim callid"
      "d_h_entry c = core_hash (trim callid) (tag_opt from_tag) (w_size w)"
    using q (6) by (auto simp: build_new_dlg_def tag_opt_def)
  have c1: "w_cells w1 a = Some c" and f1: "fresh_blocks env w1" using b (2) assms (2) by (simp_all add: fresh_blocks_def)
  obtain d V r where p: "populate_leg_info env a req t DLG_CALLER_LEG from_tag w1 = Some (put_cell a d (w1\<lparr>w_blocks := V\<rparr>), r)"
      "d_ref d = d_ref c \<and> d_state d = d_state c \<and> d_h_entry d = d_h_entry c \<and> d_callid d = d_callid c"
      "r \<noteq> 0 \<longrightarrow> V = w_blocks w1"
      "r = 0 \<longrightarrow> V = set (cell_blocks d) \<union> w_blocks w1 \<and> distinct (cell_blocks d) \<and> set (cell_blocks d) \<inter> w_blocks w1 = {}
        \<and> lg_tag (d_leg d DLG_CALLER_LEG) = from_tag \<and> lg_bind_addr (d_leg d DLG_CALLER_LEG) \<noteq> None"
    by (rule populate_caller [OF c1 b (3) f1])
  have eq: "dlg_onreq env cfg t req w =
      (if r \<noteq> 0 then Some (free_cell a (put_cell a d (w1\<lparr>w_blocks := V\<rparr>))) else onreq_link env cfg req a (put_cell a d (w1\<lparr>w_blocks := V\<rparr>)))"
    using q b (1) p (1) by (simp add: dlg_onreq_def)
  show ?thesis
  proof (cases "r = 0")
    case True
    let ?w = "w\<lparr>w_timer := (w_timer w)(a \<mapsto> \<lparr>tl_next = 0, tl_prev = 0, tl_timeout = 0\<rparr>),
      w_blocks := set (cell_blocks d) \<union> w_blocks w, w_cells := (w_cells w)(a \<mapsto> d)\<rparr>"
    have "put_cell a d (w1\<lparr>w_blocks := V\<rparr>) = ?w"
      using True p (4) b (2) by simp
    then have "dlg_onreq env cfg t req w = onreq_link env cfg req a ?w"
      using eq True by simp
    moreover have "\<exists>w'. onreq_link env cfg req a ?w = Some w' \<and>
        (unchanged w w' \<and> run_inv cfg own w' \<or> created cfg a w w' \<and> run_inv cfg (own(a := 1)) w')"
      by (rule onreq_link_inv [OF assms (1) a (3,1,2) refl]) (use True p (2,4) b (2,4-7) in \<open>simp_all add: hash_ok_def\<close>)
    ultimately show ?thesis
      by auto
  next
    case False
    let ?w = "free_cell a (put_cell a d (w1\<lparr>w_blocks := V\<rparr>))"
    have "a \<notin> dom (w_timer w)" using assms (1) a by (auto simp: run_inv_def dlg_inv_def timer_ok_def)
    then have t: "w_timer w a = None" by auto
    have "dlg_inv own (timed_set w) {} w" using assms (1) by (simp add: run_inv_def)
    then have i: "dlg_inv own (timed_set w) {} ?w"
      by (rule inv_same) (use False p (3) b (2) a (3) t in \<open>auto simp: free_cell_def\<close>)
    have c: "w_cells ?w = w_cells w" using b (2) a (3) by (auto simp: free_cell_def)
    have "unchanged w ?w" using c b (2) by (simp add: unchanged_def free_cell_def)
    then show ?thesis
      using False eq run_inv_same [OF assms (1) i c] by auto
  qed
qed

section \<open>Statistics\<close>

definition in_state :: "(dlg_state \<Rightarrow> bool) \<Rightarrow> dlg_world \<Rightarrow> nat set" where
  "in_state P w = {a. \<exists>s. states w a = Some s \<and> P s}"

definition stats_ok :: "dlg_cfg \<Rightarrow> dlg_world \<Rightarrow> bool" where
  "stats_ok cfg w \<longleftrightarrow>
     finite (dom (states w))
     \<and> (cf_enable_stats cfg \<longrightarrow> active_dlgs (w_stats w) = of_nat (card (in_state timed w))
          \<and> early_dlgs (w_stats w) = of_nat (card (in_state early w)))"

lemma card_in_state:
  assumes "finite (dom (states w))" and "states w' = (states w)(a := x)"
  shows "(of_nat (card (in_state P w')) :: u32) = of_nat (card (in_state P w)) + cnt P x - cnt P (states w a)"
proof -
  let ?S = "in_state P w - {a}"
  have "in_state P w \<subseteq> dom (states w)" by (auto simp: in_state_def)
  then have f: "finite (in_state P w)" using assms (1) finite_subset by blast
  have "in_state P w' = (if \<exists>s. x = Some s \<and> P s then insert a ?S else ?S)"
    using assms (2) by (auto simp: in_state_def split: if_splits)
  moreover have "(of_nat (card (in_state P w)) :: u32) = of_nat (card ?S) + cnt P (states w a)"
  proof (cases "a \<in> in_state P w")
    case True
    then show ?thesis
      using card.remove [OF f True] by (auto simp: cnt_def in_state_def)
  next
    case False
    then show ?thesis
      by (auto simp: cnt_def in_state_def split: option.splits)
  qed
  ultimately show ?thesis
    using f by (cases "\<exists>s. x = Some s \<and> P s") (auto simp: cnt_def card.insert_remove split: option.splits)
qed

lemma stats_evolves: "stats_ok cfg w \<Longrightarrow> evolves cfg w w' \<Longrightarrow> stats_ok cfg w'"
  unfolding evolves_def
proof (elim exE conjE)
  fix a x st
  assume s: "stats_ok cfg w" and n: "near a x st w w'" and t: "stat_step cfg (w_stats w) (states w a) x st"
  have f: "finite (dom (states w))" and w': "states w' = (states w)(a := x)" "w_stats w' = st"
    using s n by (simp_all add: stats_ok_def near_def)
  have "dom (states w') \<subseteq> insert a (dom (states w))" using w' (1) by auto
  then have "finite (dom (states w'))" using f finite_subset by blast
  then show "stats_ok cfg w'"
    using s t w' (2) card_in_state [OF f w' (1), of timed] card_in_state [OF f w' (1), of early]
    by (simp add: stats_ok_def stat_step_def)
qed

lemma stats_evolves_star: "(evolves cfg)\<^sup>*\<^sup>* w w' \<Longrightarrow> stats_ok cfg w \<Longrightarrow> stats_ok cfg w'"
  by (induction rule: rtranclp_induct) (auto intro: stats_evolves)

lemma stats_created: "stats_ok cfg w \<Longrightarrow> created cfg a w w' \<Longrightarrow> stats_ok cfg w'"
proof -
  assume s: "stats_ok cfg w" and c: "created cfg a w w'"
  have f: "finite (dom (states w))" and w': "states w' = (states w)(a \<mapsto> DLG_STATE_UNCONFIRMED)" "states w a = None"
    using s c by (simp_all add: stats_ok_def created_def)
  show "stats_ok cfg w'"
    using s c f w' card_in_state [OF f w' (1), of timed] card_in_state [OF f w' (1), of early]
    by (simp add: stats_ok_def created_def cnt_def timed_def)
qed

lemma stats_unchanged: "stats_ok cfg w \<Longrightarrow> unchanged w w' \<Longrightarrow> stats_ok cfg w'"
  by (simp add: stats_ok_def unchanged_def in_state_def states_def)

section \<open>Runs\<close>

text \<open>
  The module after its initialisation, and the steps that the core, the transaction module and the
  timer process make.  The flag of a state says whether a request has lost a reference.
  A transaction reports its end once.
\<close>

definition blank_world :: "nat \<Rightarrow> dlg_world" where
  "blank_world first =
     \<lparr>w_cells = Map.empty, w_size = 0, w_entries = (\<lambda>_. \<lparr>e_cells = [], e_next_id = 0, e_lock_idx = 0\<rparr>), w_locks_no = 0,
      w_timer = init_dlg_timer Map.empty first, w_first = first, w_blocks = {}, w_create_cbs = [], w_tmcb = {}, w_calls = [],
      w_stats = \<lparr>active_dlgs = 0, early_dlgs = 0, processed_dlgs = 0, expired_dlgs = 0, failed_dlgs = 0\<rparr>,
      w_db = [], w_curr = (0xffffffff, 0, DLG_STATE_UNCONFIRMED), w_shutdown = False\<rparr>"

inductive dlg_step :: "dlg_cfg \<Rightarrow> dlg_world \<times> bool \<Rightarrow> dlg_world \<times> bool \<Rightarrow> bool" for cfg :: dlg_cfg where
  request: "fresh_blocks env w \<Longrightarrow> fresh_cell env w \<Longrightarrow> dlg_onreq env cfg t req w = Some w' \<Longrightarrow>
    dlg_step cfg (w, lost) (w', lost)"
| reply: "dlg \<in> w_tmcb w \<Longrightarrow> tran_ok t \<Longrightarrow> fresh_blocks env w \<Longrightarrow> reply_ok env cfg code rpl \<Longrightarrow>
    dlg_onreply env cfg dlg TMCB_RESPONSE_OUT code rpl t w = Some w' \<Longrightarrow> dlg_step cfg (w, lost) (w', lost)"
| forwarded: "dlg \<in> w_tmcb w \<Longrightarrow> dlg_onreply env cfg dlg TMCB_RESPONSE_FWDED code rpl t w = Some w' \<Longrightarrow>
    dlg_step cfg (w, lost) (w', lost)"
| released: "dlg \<in> w_tmcb w \<Longrightarrow> en_stale env = DLG_STATE_DELETED \<Longrightarrow>
    dlg_onreply env cfg dlg TMCB_TRANS_DELETED code rpl t w = Some w' \<Longrightarrow>
    dlg_step cfg (w, lost) (w'\<lparr>w_tmcb := w_tmcb w' - {dlg}\<rparr>, lost)"
| routed: "fresh_blocks env w \<Longrightarrow> dlg_onroute env cfg req w = Some w' \<Longrightarrow>
    dlg_step cfg (w, lost) (w', lost \<or> \<not> clean_route cfg req w)"
| tick: "dlg_timer_run env cfg w = Some w' \<Longrightarrow> dlg_step cfg (w, lost) (w', lost)"

inductive dlg_reachable :: "dlg_cfg \<Rightarrow> dlg_world \<times> bool \<Rightarrow> bool" for cfg :: dlg_cfg where
  start: "init_dlg_table True locks rand sz (blank_world first) = Some w \<Longrightarrow> first \<noteq> 0 \<Longrightarrow> dlg_reachable cfg (w, False)"
| step: "dlg_reachable cfg s \<Longrightarrow> dlg_step cfg s s' \<Longrightarrow> dlg_reachable cfg s'"

text \<open>The references that transactions hold, and those that nobody will give back.\<close>

definition held :: "dlg_world \<Rightarrow> nat \<Rightarrow> int" where
  "held w a = (if a \<in> w_tmcb w then 1 else 0)"

definition sys_inv :: "dlg_cfg \<Rightarrow> (nat \<Rightarrow> int) \<Rightarrow> dlg_world \<times> bool \<Rightarrow> bool" where
  "sys_inv cfg own s \<longleftrightarrow>
     run_inv cfg own (fst s) \<and> (\<forall>a. held (fst s) a \<le> own a) \<and> (\<not> snd s \<longrightarrow> own = held (fst s))
     \<and> stats_ok cfg (fst s) \<and> \<not> w_shutdown (fst s)"

lemma find_locks_pos: "find_locks locks n = Some m \<Longrightarrow> 2 \<le> n"
  by (induction n) (auto simp: MIN_LDG_LOCKS_def split: if_splits)

lemma start_inv:
  assumes "init_dlg_table True locks rand sz (blank_world first) = Some w" and "first \<noteq> 0"
  shows "sys_inv cfg (\<lambda>_. 0) (w, False)"
proof -
  obtain n where n: "find_locks locks (if unat sz < MAX_LDG_LOCKS then unat sz else MAX_LDG_LOCKS) = Some n"
      "w = (blank_world first)\<lparr>w_size := sz, w_locks_no := of_nat n,
        w_entries := (\<lambda>i. \<lparr>e_cells = [], e_next_id = rand i, e_lock_idx = i mod of_nat n\<rparr>)\<rparr>"
    using assms (1) by (auto simp: init_dlg_table_def bind_eq_Some_conv)
  have "sz \<noteq> 0"
    using find_locks_pos [OF n (1)] by (auto simp: MAX_LDG_LOCKS_def)
  moreover have "represents first (init_dlg_timer Map.empty first) []"
    using represents_init [of Map.empty first] assms (2) by simp
  moreover have "dom (init_dlg_timer Map.empty first) = {first}" and "init_dlg_timer Map.empty first 0 = None"
    using assms (2) by (auto simp: init_dlg_timer_def)
  ultimately show ?thesis
    using n (2) by (auto simp: sys_inv_def run_inv_def legs_ok_def dlg_inv_def table_ok_def refs_ok_def blocks_ok_def timer_ok_def
      timed_set_def cells_of_def stats_ok_def states_def in_state_def held_def blank_world_def fun_eq_iff)
qed

text \<open>Each step keeps the invariant, and with it every reference that nobody will give back.\<close>

lemma evolves_star_same: "(evolves cfg)\<^sup>*\<^sup>* w w' \<Longrightarrow> w_tmcb w' = w_tmcb w \<and> w_shutdown w' = w_shutdown w"
  by (induction rule: rtranclp_induct) (auto dest: evolves_same)

lemma quiet_evolves: "quiet w w' \<Longrightarrow> evolves cfg w w'"
  by (rule evolvesI [OF near_quiet [OF near_self [of 0]]]) (auto simp: stat_step_def)

definition slack :: "(nat \<Rightarrow> int) \<Rightarrow> dlg_world \<Rightarrow> (nat \<Rightarrow> int) \<Rightarrow> dlg_world \<Rightarrow> bool" where
  "slack own w own' w' \<longleftrightarrow> (\<forall>a \<in> dom (w_cells w). own a - held w a \<le> own' a - held w' a)"

lemma sys_invD:
  assumes "sys_inv cfg own (w, lost)"
  shows "run_inv cfg own w" and "\<And>a. held w a \<le> own a" and "\<not> lost \<Longrightarrow> own = held w" and "stats_ok cfg w" and "\<not> w_shutdown w"
  using assms by (simp_all add: sys_inv_def)

lemma sys_held:
  assumes "sys_inv cfg own (w, lost)" and "a \<in> w_tmcb w"
  obtains c where "w_cells w a = Some c" and "1 \<le> own a"
proof -
  have "1 \<le> own a" using sys_invD (2) [OF assms (1), of a] assms (2) by (simp add: held_def)
  moreover have "dlg_inv own (timed_set w) {} w" using sys_invD (1) [OF assms (1)] by (simp add: run_inv_def)
  ultimately show ?thesis using that inv_own [of own "timed_set w" "{}" w a] by auto
qed

lemma sys_evolves:
  assumes "sys_inv cfg own (w, lost)" and "run_inv cfg own' w'" and "(evolves cfg)\<^sup>*\<^sup>* w w'" and "\<forall>a. own a \<le> own' a"
    and "\<not> lost' \<longrightarrow> \<not> lost \<and> own' = own"
  shows "sys_inv cfg own' (w', lost')" and "slack own w own' w'"
proof -
  have h: "held w' = held w" and sh: "\<not> w_shutdown w'"
    using evolves_star_same [OF assms (3)] sys_invD (5) [OF assms (1)] by (simp_all add: held_def fun_eq_iff)
  have "held w a \<le> own' a" for a
    using sys_invD (2) [OF assms (1), of a] assms (4) order_trans by blast
  then show "sys_inv cfg own' (w', lost')"
    using assms (1,2,5) h sh stats_evolves_star [OF assms (3)] by (auto simp: sys_inv_def)
  show "slack own w own' w'"
    using h assms (4) by (simp add: slack_def)
qed

lemma sys_request:
  assumes "sys_inv cfg own (w, lost)" and "fresh_blocks env w" and "fresh_cell env w"
  shows "\<exists>w' own'. dlg_onreq env cfg t req w = Some w' \<and> sys_inv cfg own' (w', lost) \<and> slack own w own' w'"
proof -
  obtain w' own' where w': "dlg_onreq env cfg t req w = Some w'" "run_inv cfg own' w'"
      "unchanged w w' \<and> own' = own \<or> (\<exists>a. created cfg a w w' \<and> own' = own(a := 1))"
    using onreq_inv [OF sys_invD (1) [OF assms (1)] assms (2,3)] by blast
  from w' (3) have "sys_inv cfg own' (w', lost) \<and> slack own w own' w'"
  proof
    assume u: "unchanged w w' \<and> own' = own"
    then have "held w' = held w" and "stats_ok cfg w'" and "\<not> w_shutdown w'"
      using stats_unchanged [OF sys_invD (4) [OF assms (1)]] sys_invD (5) [OF assms (1)]
      by (auto simp: unchanged_def held_def fun_eq_iff)
    with u w' (2) assms (1) show ?thesis by (simp add: sys_inv_def slack_def)
  next
    assume "\<exists>a. created cfg a w w' \<and> own' = own(a := 1)"
    then obtain a where a: "created cfg a w w'" "own' = own(a := 1)" by blast
    then have h: "held w' = (held w)(a := 1)" and "\<not> w_shutdown w'" and n: "a \<notin> dom (w_cells w)"
      using sys_invD (5) [OF assms (1)] by (auto simp: created_def held_def fun_eq_iff dom_states)
    moreover have "stats_ok cfg w'" using stats_created [OF sys_invD (4) [OF assms (1)] a (1)] .
    ultimately show ?thesis using a w' (2) assms (1) by (auto simp: sys_inv_def slack_def)
  qed
  with w' (1) show ?thesis by blast
qed

lemma sys_reply:
  assumes "sys_inv cfg own (w, lost)" and "a \<in> w_tmcb w" and "tran_ok t" and "fresh_blocks env w" and "reply_ok env cfg code rpl"
  shows "\<exists>w' own'. dlg_onreply env cfg a TMCB_RESPONSE_OUT code rpl t w = Some w' \<and> sys_inv cfg own' (w', lost) \<and> slack own w own' w'"
proof -
  obtain c where c: "w_cells w a = Some c" "1 \<le> own a" using sys_held [OF assms (1,2)] .
  obtain w' s st where w': "dlg_onreply env cfg a TMCB_RESPONSE_OUT code rpl t w = Some w'" "run_inv cfg own w'"
      "near a (Some s) st w w'" "stat_step cfg (w_stats w) (states w a) (Some s) st"
    by (rule reply_inv [OF sys_invD (1,5) [OF assms (1)] c assms (3-5)])
  have "(evolves cfg)\<^sup>*\<^sup>* w w'" using evolvesI [OF w' (3,4)] by (rule r_into_rtranclp)
  then show ?thesis using sys_evolves [OF assms (1) w' (2)] w' (1) by blast
qed

lemma sys_forwarded:
  assumes "sys_inv cfg own (w, lost)" and "a \<in> w_tmcb w"
  shows "\<exists>w' own'. dlg_onreply env cfg a TMCB_RESPONSE_FWDED code rpl t w = Some w' \<and> sys_inv cfg own' (w', lost) \<and> slack own w own' w'"
proof -
  obtain c where c: "w_cells w a = Some c" using sys_held [OF assms] by blast
  have i: "dlg_inv own (timed_set w) {} w" using sys_invD (1) [OF assms (1)] by (simp add: run_inv_def)
  obtain w' where w': "run_dlg_callbacks DLGCB_RESPONSE_FWDED a w = Some w'" "quiet w w'" "w_cells w' = w_cells w"
      "dlg_inv own (timed_set w) {} w'"
    using inv_run_callbacks [OF c, of DLGCB_RESPONSE_FWDED own "timed_set w" "{}"] i by blast
  have "run_inv cfg own w'" using run_inv_same [OF sys_invD (1) [OF assms (1)] w' (4,3)] .
  moreover have "(evolves cfg)\<^sup>*\<^sup>* w w'" using quiet_evolves [OF w' (2)] by (rule r_into_rtranclp)
  moreover have "dlg_onreply env cfg a TMCB_RESPONSE_FWDED code rpl t w = Some w'"
    using w' (1) sys_invD (5) [OF assms (1)] by (simp add: dlg_onreply_def)
  ultimately show ?thesis using sys_evolves [OF assms (1)] by blast
qed

lemma sys_released:
  assumes "sys_inv cfg own (w, lost)" and "a \<in> w_tmcb w" and "en_stale env = DLG_STATE_DELETED"
  shows "\<exists>w' own'. dlg_onreply env cfg a TMCB_TRANS_DELETED code rpl t w = Some w'
    \<and> sys_inv cfg own' (w'\<lparr>w_tmcb := w_tmcb w' - {a}\<rparr>, lost) \<and> slack own w own' (w'\<lparr>w_tmcb := w_tmcb w' - {a}\<rparr>)"
proof -
  obtain c where c: "w_cells w a = Some c" "1 \<le> own a" using sys_held [OF assms (1,2)] .
  note r = sys_invD (1,5) [OF assms (1)]
  have "\<exists>w' x st. dlg_onreply env cfg a TMCB_TRANS_DELETED code rpl t w = Some w' \<and> run_inv cfg (own(a := own a - 1)) w'
      \<and> near a x st w w' \<and> stat_step cfg (w_stats w) (states w a) x st"
  proof (cases "d_state c = DLG_STATE_UNCONFIRMED \<or> d_state c = DLG_STATE_EARLY")
    case True
    show ?thesis by (rule tdel_setup_inv [OF r c True]) blast
  next
    case False
    then have f: "d_state c \<noteq> DLG_STATE_UNCONFIRMED" "d_state c \<noteq> DLG_STATE_EARLY" by simp_all
    have "stat_step cfg (w_stats w) (states w a) (if own a = 1 \<and> d_state c = DLG_STATE_DELETED then None else Some (d_state c)) (w_stats w)"
      using cell_states [OF c (1)] by (auto simp: stat_step_def cnt_def timed_def)
    then show ?thesis
      by (rule_tac tdel_later_inv [OF r c f assms (3)]) blast
  qed
  then obtain w' x st where w': "dlg_onreply env cfg a TMCB_TRANS_DELETED code rpl t w = Some w'" "run_inv cfg (own(a := own a - 1)) w'"
      "near a x st w w'" "stat_step cfg (w_stats w) (states w a) x st" by blast
  let ?w = "w'\<lparr>w_tmcb := w_tmcb w' - {a}\<rparr>" and ?o = "own(a := own a - 1)"
  have e: "evolves cfg w w'" using evolvesI [OF w' (3,4)] .
  have h: "held ?w = (held w)(a := 0)" "held w a = 1"
    using evolves_same [OF e] assms (2) by (auto simp: held_def fun_eq_iff)
  have "run_inv cfg ?o ?w" and "stats_ok cfg ?w" and "\<not> w_shutdown ?w"
    using w' (2) stats_evolves [OF sys_invD (4) [OF assms (1)] e] evolves_same [OF e] r (2)
    by (simp_all add: run_inv_def legs_ok_def timed_set_def bound_cells_def stats_ok_def states_def in_state_def)
  moreover have "held ?w b \<le> ?o b" for b using h sys_invD (2) [OF assms (1), of b] c (2) by simp
  moreover have "\<not> lost \<longrightarrow> ?o = held ?w" using h sys_invD (3) [OF assms (1)] by auto
  moreover have "slack own w ?o ?w" using h by (simp add: slack_def)
  ultimately show ?thesis using w' (1) by (auto simp: sys_inv_def)
qed

lemma sys_routed:
  assumes "sys_inv cfg own (w, lost)" and "fresh_blocks env w"
  shows "\<exists>w' own'. dlg_onroute env cfg req w = Some w' \<and> sys_inv cfg own' (w', lost \<or> \<not> clean_route cfg req w) \<and> slack own w own' w'"
proof -
  obtain w' own' where w': "dlg_onroute env cfg req w = Some w'" "run_inv cfg own' w'" "evolves cfg w w'"
      "\<forall>b. own b \<le> own' b" "clean_route cfg req w \<longrightarrow> own' = own"
    by (rule route_inv [OF sys_invD (1) [OF assms (1)] assms (2), of req]) blast
  have e: "(evolves cfg)\<^sup>*\<^sup>* w w'" using w' (3) by (rule r_into_rtranclp)
  have l: "\<not> (lost \<or> \<not> clean_route cfg req w) \<longrightarrow> \<not> lost \<and> own' = own" using w' (5) by simp
  show ?thesis
    using sys_evolves [OF assms (1) w' (2) e w' (4) l] w' (1) by blast
qed

lemma sys_tick:
  assumes "sys_inv cfg own (w, lost)"
  shows "\<exists>w' own'. dlg_timer_run env cfg w = Some w' \<and> sys_inv cfg own' (w', lost) \<and> slack own w own' w'"
proof -
  obtain w' where w': "dlg_timer_run env cfg w = Some w'" "run_inv cfg own w'" "(evolves cfg)\<^sup>*\<^sup>* w w'"
    by (rule timer_run_inv [OF sys_invD (1) [OF assms], of env]) blast
  then show ?thesis using sys_evolves [OF assms w' (2,3)] by blast
qed

lemma step_inv:
  assumes "dlg_step cfg s s'" and "sys_inv cfg own s"
  shows "\<exists>own'. sys_inv cfg own' s' \<and> slack own (fst s) own' (fst s')"
  using assms
proof cases
  case (request env w t req w' lost)
  then show ?thesis using sys_request [of cfg own w lost env t req] assms (2) by auto
next
  case (reply dlg w t env code rpl w' lost)
  then show ?thesis using sys_reply [of cfg own w lost dlg t env code rpl] assms (2) by auto
next
  case (forwarded dlg w env code rpl t w' lost)
  then show ?thesis using sys_forwarded [of cfg own w lost dlg env code rpl t] assms (2) by auto
next
  case (released dlg w env code rpl t w' lost)
  then show ?thesis using sys_released [of cfg own w lost dlg env code rpl t] assms (2) by auto
next
  case (routed env w req w' lost)
  then show ?thesis using sys_routed [of cfg own w lost env req] assms (2) by auto
next
  case (tick env w w' lost)
  then show ?thesis using sys_tick [of cfg own w lost env] assms (2) by auto
qed

lemma reachable_inv: "dlg_reachable cfg s \<Longrightarrow> \<exists>own. sys_inv cfg own s"
proof (induction rule: dlg_reachable.induct)
  case start
  then show ?case using start_inv by blast
next
  case step
  then show ?case using step_inv by blast
qed

text \<open>A dialog with a reference that nobody gives back stays in memory.\<close>

lemma slack_star:
  assumes "(dlg_step cfg)\<^sup>*\<^sup>* s s'" and "sys_inv cfg own s" and "1 \<le> own a - held (fst s) a"
  shows "\<exists>own'. sys_inv cfg own' s' \<and> 1 \<le> own' a - held (fst s') a"
  using assms
proof (induction rule: rtranclp_induct)
  case (step s1 s2)
  then obtain own1 where o: "sys_inv cfg own1 s1" "1 \<le> own1 a - held (fst s1) a" by blast
  obtain own2 where o2: "sys_inv cfg own2 s2" "slack own1 (fst s1) own2 (fst s2)"
    using step_inv [OF step.hyps (2) o (1)] by blast
  have "dlg_inv own1 (timed_set (fst s1)) {} (fst s1)" and "own1 a \<noteq> 0"
    using o by (auto simp: sys_inv_def run_inv_def held_def split: if_splits)
  then have "a \<in> dom (w_cells (fst s1))" using inv_own by blast
  then have "own1 a - held (fst s1) a \<le> own2 a - held (fst s2) a" using o2 (2) by (simp add: slack_def)
  with o (2) o2 (1) show ?case by (meson order_trans)
qed blast

lemma slack_cell: "sys_inv cfg own s \<Longrightarrow> 1 \<le> own a - held (fst s) a \<Longrightarrow> w_cells (fst s) a \<noteq> None"
  using inv_own [of own "timed_set (fst s)" "{}" "fst s" a] by (auto simp: sys_inv_def run_inv_def held_def split: if_splits)

lemma lost_inv:
  assumes "sys_inv cfg own (w, lost)" and "route_find cfg req w = Some (w1, None)" and "w1 \<noteq> w"
  obtains a own' where "a \<in> dom (w_cells w)" and "sys_inv cfg own' (w1, True)" and "1 \<le> own' a - held w1 a"
proof -
  have r: "run_inv cfg own w" using sys_invD (1) [OF assms (1)] .
  then have i: "dlg_inv own (timed_set w) {} w" by (simp add: run_inv_def)
  obtain q where "taken own (timed_set w) {} w w1 q (\<lambda>_. True)"
    using route_find_taken [OF i, of cfg req] assms (2) by auto
  then obtain a where a: "a \<in> dom (w_cells w)" "run_inv cfg (own(a := own a + 1)) w1" "evolves cfg w w1"
    using route_lost_cell [OF r assms (2) _ assms (3)] by blast
  have e: "(evolves cfg)\<^sup>*\<^sup>* w w1" using a (3) by (rule r_into_rtranclp)
  have o: "\<forall>b. own b \<le> (own(a := own a + 1)) b" by simp
  have l: "\<not> True \<longrightarrow> \<not> lost \<and> own(a := own a + 1) = own" by simp
  have "held w1 a = held w a" using evolves_same [OF a (3)] by (simp add: held_def)
  then show ?thesis
    using that [OF a (1) sys_evolves (1) [OF assms (1) a (2) e o l]] sys_invD (2) [OF assms (1), of a] by simp
qed

section \<open>An example\<close>

text \<open>A started module, the first request of a call, and a request with its parameter but with other tags.\<close>

definition sample_start :: dlg_world where
  "sample_start = (case init_dlg_table True (\<lambda>_. True) (\<lambda>_. 7) 2 (blank_world 1) of Some w \<Rightarrow> w | None \<Rightarrow> blank_world 1)"

definition sample_call :: dlg_world where
  "sample_call = (case dlg_onreq sample_env sample_cfg sample_tran sample_req sample_start of Some w \<Rightarrow> w | None \<Rightarrow> blank_world 1)"

definition sample_env2 :: dlg_env where
  "sample_env2 = sample_env\<lparr>en_cell := Some 11, en_tag := Some 30, en_cseq := Some 31\<rparr>"

definition sample_stray :: dlg_msg where
  "sample_stray = sample_req\<lparr>m_to := Some (''sip:b'', ''x''), m_route_param := Some (''0.7'', CHR '';'')\<rparr>"

definition sample_leak :: dlg_world where
  "sample_leak = (case route_find sample_cfg sample_stray sample_call of Some (w, _) \<Rightarrow> w | None \<Rightarrow> blank_world 1)"

text \<open>The transaction of the call ends after that request.\<close>

definition sample_gone :: dlg_world where
  "sample_gone =
     (case dlg_onreply sample_env2 sample_cfg 10 TMCB_TRANS_DELETED 0 None sample_tran sample_leak of
        Some w \<Rightarrow> w\<lparr>w_tmcb := w_tmcb w - {10}\<rparr> | None \<Rightarrow> blank_world 1)"

lemma sample_call_state:
  "map_option d_state (w_cells sample_call 10) = Some DLG_STATE_UNCONFIRMED" "map_option d_ref (w_cells sample_call 10) = Some 2"
  "w_cells sample_call 11 = None" "w_first sample_call = 1" "w_blocks sample_call = {20, 21}" "w_tmcb sample_call = {10}"
  "map_option d_ref (w_cells sample_leak 10) = Some 3"
  by code_simp+

lemma sample_start_Some: "init_dlg_table True (\<lambda>_. True) (\<lambda>_. 7) 2 (blank_world 1) = Some sample_start"
proof -
  have "(case init_dlg_table True (\<lambda>_. True) (\<lambda>_. 7) 2 (blank_world 1) of Some w \<Rightarrow> True | None \<Rightarrow> False)"
    by code_simp
  then show ?thesis by (auto simp: sample_start_def split: option.splits)
qed

lemma sample_call_Some: "dlg_onreq sample_env sample_cfg sample_tran sample_req sample_start = Some sample_call"
proof -
  have "(case dlg_onreq sample_env sample_cfg sample_tran sample_req sample_start of Some w \<Rightarrow> True | None \<Rightarrow> False)"
    by code_simp
  then show ?thesis by (auto simp: sample_call_def split: option.splits)
qed

lemma sample_leak_Some: "route_find sample_cfg sample_stray sample_call = Some (sample_leak, None)"
proof -
  have "(case route_find sample_cfg sample_stray sample_call of Some (w, r) \<Rightarrow> r = None | None \<Rightarrow> False)"
    by code_simp
  then show ?thesis by (auto simp: sample_leak_def split: option.splits)
qed

lemma sample_gone_state: "map_option d_state (w_cells sample_gone 10) = Some DLG_STATE_DELETED" "w_tmcb sample_gone = {}"
  by code_simp+

lemma sample_gone_step: "(dlg_step sample_cfg)\<^sup>*\<^sup>* (sample_leak, True) (sample_gone, True)"
proof -
  have "(case dlg_onreply sample_env2 sample_cfg 10 TMCB_TRANS_DELETED 0 None sample_tran sample_leak of Some w \<Rightarrow> True | None \<Rightarrow> False)"
    "10 \<in> w_tmcb sample_leak" "en_stale sample_env2 = DLG_STATE_DELETED"
    by code_simp+
  then have "dlg_step sample_cfg (sample_leak, True) (sample_gone, True)"
    using dlg_step.released [of 10 sample_leak sample_env2 sample_cfg 0 None sample_tran]
    by (auto simp: sample_gone_def split: option.splits)
  then show ?thesis by blast
qed

lemma sample_reachable: "dlg_reachable sample_cfg (sample_call, False)"
proof -
  have "w_blocks sample_start = {}" "w_cells sample_start 10 = None" "w_first sample_start = 1"
    by code_simp+
  then have "fresh_blocks sample_env sample_start" and "fresh_cell sample_env sample_start"
    by (simp_all add: fresh_blocks_def fresh_cell_def sample_env_def)
  then have "dlg_step sample_cfg (sample_start, False) (sample_call, False)"
    using dlg_step.request sample_call_Some by blast
  moreover have "dlg_reachable sample_cfg (sample_start, False)"
    using dlg_reachable.start [OF sample_start_Some] by simp
  ultimately show ?thesis by (rule dlg_reachable.step [rotated])
qed

lemma sample_fresh: "fresh_blocks sample_env2 sample_call" "fresh_cell sample_env2 sample_call" "tran_ok sample_tran"
  using sample_call_state
  by (simp_all add: fresh_blocks_def fresh_cell_def sample_env2_def sample_env_def tran_ok_def sample_tran_def)

end
