(* ===== verification/Spec2Isabelle.thy ===== *)
theory Spec2Isabelle
  imports StrCommon UsrAvp Dset DataLumpRpl MsgTranslator TcpRead DlgRuns
begin

text \<open>
  Verification of the core of OpenSER, a SIP proxy server written in C.
\<close>

section \<open>Dialogs from start to end\<close>









text \<open>
  C15. A request whose parameter names a dialog but whose Call-ID or tags do not match it makes
  \<open>dlg_onroute\<close> return with the reference of the lookup still taken.  No later event gives it
  back: the dialog stays in memory for ever, whatever happens to the call (with counts that do not overflow).
\<close>

theorem stray_request_leaks:
  assumes "dlg_reachable cfg (w, lost)" and "route_find cfg req w = Some (w1, None)" and "w1 \<noteq> w"
  shows "dlg_onroute env cfg req w = Some w1
    \<and> (\<exists>a. w_cells w a \<noteq> None \<and> (\<forall>w2 l. (dlg_step cfg)\<^sup>*\<^sup>* (w1, True) (w2, l) \<longrightarrow> w_cells w2 a \<noteq> None))"
proof -
  obtain own where s: "sys_inv cfg own (w, lost)"
    using reachable_inv [OF assms (1)] by blast
  obtain a own' where a: "a \<in> dom (w_cells w)" "sys_inv cfg own' (w1, True)" "1 \<le> own' a - held w1 a"
    using lost_inv [OF s assms (2,3)] .
  have "w_cells w2 a \<noteq> None" if "(dlg_step cfg)\<^sup>*\<^sup>* (w1, True) (w2, l)" for w2 l
    using slack_star [OF that a (2)] a (3) slack_cell [of cfg _ "(w2, l)" a] by auto
  then show ?thesis
    using a (1) assms (2) by (auto simp: dlg_onroute_def)
qed

theorem stray_request_leaks_witness:
  "dlg_onroute sample_env2 sample_cfg sample_stray sample_call = Some sample_leak
   \<and> (\<exists>a. w_cells sample_call a \<noteq> None \<and> w_cells sample_gone a \<noteq> None)
   \<and> map_option d_state (w_cells sample_gone 10) = Some DLG_STATE_DELETED \<and> w_tmcb sample_gone = {}"
proof -
  have "sample_leak \<noteq> sample_call"
    using sample_call_state (2,7) by auto
  then show ?thesis
    using stray_request_leaks [OF sample_reachable sample_leak_Some, of sample_env2] sample_gone_step sample_gone_state
    by blast
qed

end
